(* ===== verification/Prelude.thy ===== *)
theory Prelude
  imports Main "HOL-Library.Word"
begin

text \<open>
  Shared material of the development: the machine integers of the modelled
  configuration (a little-endian LP64 target), byte strings, the little- and
  big-endian memory images of words, \<open>memcpy\<close> into an array, and the lemmas
  on them that the components use.
  The collection \<open>mem_simps\<close> gathers the facts on array stores, and
  \<open>word_images\<close> the facts that relate words and their byte images.
\<close>

unbundle bit_operations_syntax

named_theorems mem_simps
named_theorems word_images

type_synonym byte = "8 word"
type_synonym u16 = "16 word"
type_synonym u32 = "32 word"
type_synonym u64 = "64 word"

section \<open>Arrays of bytes\<close>

text \<open>
  \<open>store_at buf off src\<close> is the array \<open>buf\<close> after \<open>memcpy (&buf[off], src, length src)\<close>.
  A store past the end of the array makes the list longer, so that a lemma that the
  length is kept is a lemma that nothing is written out of bounds.
\<close>

definition store_at :: "'a list \<Rightarrow> nat \<Rightarrow> 'a list \<Rightarrow> 'a list" where
  "store_at buf off src = take off buf @ src @ drop (off + length src) buf"

lemma length_store_at [simp, mem_simps]:
  "off + length src \<le> length buf \<Longrightarrow> length (store_at buf off src) = length buf"
  by (simp add: store_at_def)

lemma take_store_at_before [mem_simps]:
  "n \<le> off \<Longrightarrow> off \<le> length buf \<Longrightarrow> take n (store_at buf off src) = take n buf"
  by (simp add: store_at_def min_def)

lemma take_store_at_end [mem_simps]:
  "off \<le> length buf \<Longrightarrow> n = off + length src \<Longrightarrow> take n (store_at buf off src) = take off buf @ src"
  by (simp add: store_at_def)

lemma take_store_at_0 [mem_simps]:
  "n = length src \<Longrightarrow> take n (store_at buf 0 src) = src"
  by (simp add: store_at_def)

lemma store_at_append:
  assumes "off + length xs + length ys \<le> length buf" "off' = off + length xs"
  shows "store_at (store_at buf off xs) off' ys = store_at buf off (xs @ ys)"
  using assms by (cases xs) (auto simp: store_at_def min_def ac_simps)

lemma store_at_prepend:
  assumes "off + length xs + length ys \<le> length buf" "off' = off + length xs"
  shows "store_at (store_at buf off' ys) off xs = store_at buf off (xs @ ys)"
  using assms by (auto simp: store_at_def min_def ac_simps drop_append)

lemma drop_take_plus: "drop n (take (n + m) xs) = take m (drop n xs)"
  by (simp add: drop_take)

section \<open>Cutting a list in pieces\<close>

function chunks :: "nat \<Rightarrow> 'a list \<Rightarrow> 'a list list" where
  "chunks n xs = (if n = 0 \<or> xs = [] then [] else take n xs # chunks n (drop n xs))"
  by pat_completeness auto
termination
  by (relation "measure (\<lambda>(n, xs). length xs)") auto

declare chunks.simps [simp del]

lemma chunks_Nil [simp]: "chunks n [] = []"
  by (simp add: chunks.simps)

lemma chunks_eq_Nil_iff: "0 < n \<Longrightarrow> chunks n xs = [] \<longleftrightarrow> xs = []"
  by (subst chunks.simps) simp

lemma chunks_Cons: "0 < n \<Longrightarrow> xs \<noteq> [] \<Longrightarrow> chunks n xs = take n xs # chunks n (drop n xs)"
  by (subst chunks.simps) simp

lemma chunks_append:
  assumes "n dvd length xs"
  shows "chunks n (xs @ ys) = chunks n xs @ chunks n ys"
  using assms
proof (induction n xs rule: chunks.induct)
  case (1 n xs)
  show ?case
  proof (cases "n = 0 \<or> xs = []")
    case True
    with "1.prems" show ?thesis by (auto simp: chunks.simps [of 0])
  next
    case False
    then have "n \<le> length xs" using "1.prems" by (auto intro: dvd_imp_le)
    moreover from this "1.prems" have "n dvd length (drop n xs)" by simp
    ultimately show ?thesis
      using False "1.IH" by (simp add: chunks_Cons)
  qed
qed

lemma chunks_one: "0 < n \<Longrightarrow> length xs = n \<Longrightarrow> chunks n xs = [xs]"
  by (subst chunks.simps) auto

lemma drop_chunks: "drop k (chunks n xs) = chunks n (drop (k * n) xs)"
proof (induction k arbitrary: xs)
  case (Suc k)
  then show ?case
    by (cases "n = 0 \<or> xs = []") (auto simp: chunks.simps [of 0] chunks_Cons add.commute)
qed simp

lemma take_chunks: "take k (chunks n xs) = chunks n (take (k * n) xs)"
proof (induction k arbitrary: xs)
  case (Suc k)
  then show ?case
    by (cases "n = 0 \<or> xs = []")
      (auto simp: chunks.simps [of 0] chunks_Cons min_def drop_take)
qed simp

lemma length_chunks:
  assumes "n dvd length xs" "ys \<in> set (chunks n xs)"
  shows "length ys = n"
  using assms
proof (induction n xs rule: chunks.induct)
  case (1 n xs)
  then have "\<not> (n = 0 \<or> xs = [])" by (auto simp: chunks.simps [of n xs] split: if_splits)
  moreover from this have "n \<le> length xs" using "1.prems"(1) by (auto intro: dvd_imp_le)
  ultimately show ?case
    using 1 by (auto simp: chunks_Cons)
qed

lemma length_chunks_count:
  assumes "n dvd length xs" "0 < n"
  shows "length (chunks n xs) = length xs div n"
  using assms
proof (induction n xs rule: chunks.induct)
  case (1 n xs)
  show ?case
  proof (cases "xs = []")
    case False
    then have "n \<le> length xs" using "1.prems" by (auto intro: dvd_imp_le)
    with 1 False show ?thesis by (simp add: chunks_Cons le_div_geq)
  qed simp
qed

section \<open>Rounding to a power of two\<close>

lemma mult_div_of_dvd: "b dvd n \<Longrightarrow> a dvd b \<Longrightarrow> a * (n div a) = n" for n :: nat
  by (meson dvd_mult_div_cancel dvd_trans)

lemma unat_and_mask_word: "unat (w AND mask n) = unat w mod 2 ^ n" for w :: "'a::len word"
  by (metis take_bit_eq_mask take_bit_eq_mod unsigned_take_bit_eq)

lemma unat_and_not_mask:
  fixes w :: "'a::len word"
  shows "unat (w AND NOT (mask n)) = unat w - unat w mod 2 ^ n"
proof -
  have "unat (w AND NOT (mask n)) = push_bit n (drop_bit n (unat w))"
    by (rule bit_eqI)
      (auto simp: bit_unsigned_iff bit_simps not_le dest: bit_imp_le_length)
  moreover have "push_bit n (drop_bit n (unat w)) + unat w mod 2 ^ n = unat w"
    using bits_ident [of n "unat w"] by (simp add: take_bit_eq_mod)
  ultimately show ?thesis by linarith
qed

lemma unat_and_mask_numerals:
  "unat (w AND 63) = unat w mod 64" "unat (w AND 127) = unat w mod 128"
  for w :: "'a::len word"
  using unat_and_mask_word [of w 6] unat_and_mask_word [of w 7] by (simp_all add: mask_numeral)

lemma unat_and_not_mask_numerals:
  "unat (w AND NOT 63) = unat w - unat w mod 64" "unat (w AND NOT 127) = unat w - unat w mod 128"
  for w :: "'a::len word"
  using unat_and_not_mask [of w 6] unat_and_not_mask [of w 7] by (simp_all add: mask_numeral)

section \<open>Memory images of words\<close>

text \<open>
  \<open>word_le k w\<close> is the little-endian image of the low \<open>k\<close> bytes of \<open>w\<close>,
  \<open>le_word\<close> reads such an image; \<open>word_be\<close> and \<open>be_word\<close> are big-endian.
\<close>

primrec word_le :: "nat \<Rightarrow> 'a::len word \<Rightarrow> byte list" where
  "word_le 0 w = []"
| "word_le (Suc k) w = ucast w # word_le k (drop_bit 8 w)"

primrec le_word :: "byte list \<Rightarrow> 'a::len word" where
  "le_word [] = 0"
| "le_word (b # bs) = ucast b OR push_bit 8 (le_word bs)"

definition word_be :: "nat \<Rightarrow> 'a::len word \<Rightarrow> byte list" where
  "word_be k w = rev (word_le k w)"

definition be_word :: "byte list \<Rightarrow> 'a::len word" where
  "be_word bs = le_word (rev bs)"

lemma length_word_le [simp, word_images]: "length (word_le k w) = k"
  by (induction k arbitrary: w) auto

lemma length_word_be [simp, word_images]: "length (word_be k w) = k"
  by (simp add: word_be_def)

lemma word_le_numeral: "word_le (numeral k) w = ucast w # word_le (pred_numeral k) (drop_bit 8 w)"
  by (simp add: numeral_eq_Suc)

lemma replicate_numeral: "replicate (numeral k) x = x # replicate (pred_numeral k) x"
  by (simp add: numeral_eq_Suc)

lemma nth_word_le: "i < k \<Longrightarrow> word_le k w ! i = ucast (drop_bit (8 * i) w)"
proof (induction k arbitrary: w i)
  case (Suc k)
  then show ?case
    by (cases i) (auto simp: algebra_simps)
qed simp

lemma bit_le_word:
  fixes bs :: "byte list"
  shows "bit (le_word bs :: 'a::len word) n \<longleftrightarrow>
    n < LENGTH('a) \<and> n div 8 < length bs \<and> bit (bs ! (n div 8)) (n mod 8)"
proof (induction bs arbitrary: n)
  case Nil
  then show ?case by simp
next
  case (Cons b bs)
  show ?case
  proof (cases "n < 8")
    case True
    then show ?thesis by (auto simp: bit_simps)
  next
    case False
    then have "n div 8 = Suc ((n - 8) div 8)" "n mod 8 = (n - 8) mod 8"
      by (simp_all add: le_div_geq le_mod_geq)
    with False Cons [of "n - 8"] show ?thesis
      by (auto simp: bit_simps dest: bit_imp_le_length)
  qed
qed

lemma le_word_word_le [word_images]:
  "LENGTH('a) \<le> 8 * k \<Longrightarrow> le_word (word_le k w) = (w :: 'a::len word)"
  by (rule bit_word_eqI) (auto simp: bit_le_word nth_word_le bit_simps less_mult_imp_div_less mult.commute)

lemma be_word_word_be [word_images]:
  "LENGTH('a) \<le> 8 * k \<Longrightarrow> be_word (word_be k w) = (w :: 'a::len word)"
  by (simp add: be_word_def word_be_def le_word_word_le)

lemma word_le_le_word [word_images]:
  assumes "length bs = k" "8 * k \<le> LENGTH('a)"
  shows "word_le k (le_word bs :: 'a::len word) = bs"
proof (rule nth_equalityI)
  show "length (word_le k (le_word bs :: 'a word)) = length bs"
    using assms by simp
  fix i assume "i < length (word_le k (le_word bs :: 'a word))"
  then have i: "i < length bs" using assms by simp
  show "word_le k (le_word bs :: 'a word) ! i = bs ! i"
    using i assms
    by (intro bit_word_eqI) (auto simp: nth_word_le bit_le_word bit_simps div_mult2_eq)
qed

lemma word_be_be_word [word_images]:
  "length bs = k \<Longrightarrow> 8 * k \<le> LENGTH('a) \<Longrightarrow> word_be k (be_word bs :: 'a::len word) = bs"
  by (simp add: word_be_def be_word_def word_le_le_word)

section \<open>Carries and rotations\<close>

lemma unat_of_nat_small: "n < 2 ^ LENGTH('a) \<Longrightarrow> unat (of_nat n :: 'a::len word) = n"
  by (simp add: unat_of_nat take_bit_nat_eq_self)

lemma unat_lt2p: "unat (w :: 'a::len word) < 2 ^ LENGTH('a)"
  by (rule unsigned_less)

text \<open>Adding to a number held in two words, with the carry computed as in \<open>t0 += n; t1 += (t0 < n)\<close>.\<close>

lemma word_add_carry:
  fixes x y :: "'a::len word"
  shows "unat x + unat y = (if x + y < y then 2 ^ LENGTH('a) else 0) + unat (x + y)"
proof (cases "unat x + unat y < 2 ^ LENGTH('a)")
  case True
  then have "unat (x + y) = unat x + unat y" by (simp add: unat_word_ariths)
  then show ?thesis by (simp add: word_less_nat_alt)
next
  case False
  moreover have "unat x + unat y - 2 ^ LENGTH('a) < 2 ^ LENGTH('a)"
    using unat_lt2p [of x] unat_lt2p [of y] by linarith
  ultimately have "unat (x + y) = unat x + unat y - 2 ^ LENGTH('a)"
    by (simp add: unat_word_ariths le_mod_geq)
  moreover from this have "x + y < y"
    using False unat_lt2p [of x] unfolding word_less_nat_alt by linarith
  ultimately show ?thesis using False by simp
qed

lemma two_word_add:
  fixes t0 t1 :: "'a::len word"
  assumes "t0' = t0 + of_nat n"
    and "t1' = t1 + (of_nat (n div 2 ^ LENGTH('a)) + (if t0' < of_nat n then 1 else 0))"
  shows "unat t1' * 2 ^ LENGTH('a) + unat t0' =
    (unat t1 * 2 ^ LENGTH('a) + unat t0 + n) mod 2 ^ (2 * LENGTH('a))"
proof -
  let ?B = "2 ^ LENGTH('a) :: nat"
  let ?c = "if t0' < of_nat n then 1 else 0 :: nat"
  have low: "unat t0 + n mod ?B = ?c * ?B + unat t0'"
    using word_add_carry [of t0 "of_nat n"] assms(1) by (simp add: unat_of_nat)
  have high: "unat t1' = (unat t1 + n div ?B + ?c) mod ?B"
    unfolding assms(2) by (simp add: unat_word_ariths unat_of_nat mod_simps add.assoc)
  have "unat t1 * ?B + unat t0 + n = unat t1 * ?B + (n div ?B) * ?B + (unat t0 + n mod ?B)"
    using div_mult_mod_eq [of n ?B] by linarith
  also have "\<dots> = (unat t1 + n div ?B + ?c) * ?B + unat t0'"
    by (simp only: low) (simp add: algebra_simps)
  finally have "unat t1 * ?B + unat t0 + n = (unat t1 + n div ?B + ?c) * ?B + unat t0'" .
  then have "(unat t1 * ?B + unat t0 + n) mod (?B * ?B) =
      (unat t1 + n div ?B + ?c) mod ?B * ?B + unat t0'"
    using unat_lt2p [of t0'] by (simp add: mod_mult2_eq)
  then show ?thesis
    by (simp only: high power_add [symmetric] mult_2)
qed

lemma word_rotl_shifts:
  fixes w :: "'a::len word"
  assumes "0 < s" "s < LENGTH('a)"
  shows "push_bit s w OR drop_bit (LENGTH('a) - s) w = word_rotl s w"
proof (rule bit_word_eqI)
  fix n assume n: "n < LENGTH('a)"
  show "bit (push_bit s w OR drop_bit (LENGTH('a) - s) w) n = bit (word_rotl s w) n"
  proof (cases "s \<le> n")
    case True
    then have "(n + (LENGTH('a) - s)) mod LENGTH('a) = n - s"
      using n assms by (simp add: le_mod_geq)
    with True n assms show ?thesis
      by (auto simp: bit_simps dest: bit_imp_le_length)
  next
    case False
    then show ?thesis using n assms by (auto simp: bit_simps add.commute)
  qed
qed

lemma word_rotr_shifts:
  fixes w :: "'a::len word"
  assumes "0 < s" "s < LENGTH('a)"
  shows "drop_bit s w OR push_bit (LENGTH('a) - s) w = word_rotr s w"
proof (rule bit_word_eqI)
  fix n assume n: "n < LENGTH('a)"
  show "bit (drop_bit s w OR push_bit (LENGTH('a) - s) w) n = bit (word_rotr s w) n"
  proof (cases "n + s < LENGTH('a)")
    case True
    then show ?thesis using n assms by (auto simp: bit_simps ac_simps)
  next
    case False
    then have "(n + s) mod LENGTH('a) = n - (LENGTH('a) - s)"
      using n assms by (simp add: le_mod_geq)
    with False n assms show ?thesis
      by (auto simp: bit_simps dest: bit_imp_le_length)
  qed
qed

lemma word_le_cong:
  fixes v :: "'a::len word" and w :: "'b::len word"
  assumes "\<And>n. n < 8 * k \<Longrightarrow> bit v n = bit w n"
  shows "word_le k v = word_le k w"
proof (rule nth_equalityI)
  fix i assume "i < length (word_le k v)"
  then show "word_le k v ! i = word_le k w ! i"
    using assms by (intro bit_word_eqI) (auto simp: nth_word_le bit_simps)
qed simp

lemma word_le_append: "word_le (j + k) w = word_le j w @ word_le k (drop_bit (8 * j) w)"
  by (induction j arbitrary: w) (simp_all add: algebra_simps)

text \<open>The image of a number of bits held in two words, as \<open>t0 << 3\<close> and \<open>(t1 << 3) | (t0 >> 29)\<close>.\<close>

lemma word_le_bits32:
  fixes t0 t1 :: u32
  assumes "unat t1 * 2 ^ 32 + unat t0 = n mod 2 ^ 64"
  shows "word_le 4 (push_bit 3 t0) @ word_le 4 (push_bit 3 t1 OR drop_bit 29 t0) =
    word_le 8 (of_nat (8 * n) :: u64)"
proof -
  have "of_nat n = (of_nat (unat t1 * 2 ^ 32 + unat t0) :: u64)"
    unfolding assms by (simp add: word_of_nat_eq_iff take_bit_eq_mod)
  then have cat: "of_nat n = (word_cat t1 t0 :: u64)"
    by (simp add: word_cat_eq push_bit_eq_mult)
  have "of_nat (8 * n) = (push_bit 3 (word_cat t1 t0) :: u64)"
    by (simp add: push_bit_eq_mult flip: cat)
  moreover have "word_le 4 (push_bit 3 t0) = word_le 4 (push_bit 3 (word_cat t1 t0) :: u64)"
    by (rule word_le_cong) (auto simp: bit_simps)
  moreover have "word_le 4 (push_bit 3 t1 OR drop_bit 29 t0) =
      word_le 4 (drop_bit 32 (push_bit 3 (word_cat t1 t0) :: u64))"
    by (rule word_le_cong) (auto simp: bit_simps dest: bit_imp_le_length)
  ultimately show ?thesis
    using word_le_append [of 4 4 "of_nat (8 * n) :: u64"] by simp
qed

lemma nth_word_be: "i < k \<Longrightarrow> word_be k w ! i = ucast (drop_bit (8 * (k - Suc i)) w)"
  by (simp add: word_be_def rev_nth nth_word_le)

section \<open>Byte order\<close>

text \<open>
  \<open>__bswap_32\<close> and \<open>__bswap_64\<close> (\<open>bits/byteswap.h\<close>); on a little-endian machine \<open>htonl\<close>
  and \<open>ntohl\<close> (\<open>inet/htonl.c\<close>) are \<open>__bswap_32\<close>.
\<close>

definition bswap_32 :: "u32 \<Rightarrow> u32" where
  "bswap_32 x =
     drop_bit 24 (x AND 0xff000000) OR drop_bit 8 (x AND 0x00ff0000) OR
     push_bit 8 (x AND 0x0000ff00) OR push_bit 24 (x AND 0x000000ff)"

definition bswap_64 :: "u64 \<Rightarrow> u64" where
  "bswap_64 x =
     drop_bit 56 (x AND 0xff00000000000000) OR drop_bit 40 (x AND 0x00ff000000000000) OR
     drop_bit 24 (x AND 0x0000ff0000000000) OR drop_bit 8 (x AND 0x000000ff00000000) OR
     push_bit 8 (x AND 0x00000000ff000000) OR push_bit 24 (x AND 0x0000000000ff0000) OR
     push_bit 40 (x AND 0x000000000000ff00) OR push_bit 56 (x AND 0x00000000000000ff)"

definition htonl :: "u32 \<Rightarrow> u32" where
  "htonl x = bswap_32 x"

lemma byte_masks:
  "(0xff :: 'a::len word) = mask 8"
  "(0xff00 :: 'a::len word) = push_bit 8 (mask 8)"
  "(0xff0000 :: 'a::len word) = push_bit 16 (mask 8)"
  "(0xff000000 :: 'a::len word) = push_bit 24 (mask 8)"
  "(0xff00000000 :: 'a::len word) = push_bit 32 (mask 8)"
  "(0xff0000000000 :: 'a::len word) = push_bit 40 (mask 8)"
  "(0xff000000000000 :: 'a::len word) = push_bit 48 (mask 8)"
  "(0xff00000000000000 :: 'a::len word) = push_bit 56 (mask 8)"
  by (simp_all add: mask_numeral)

lemma word_le_bswap_32 [word_images]: "word_le 4 (bswap_32 w) = word_be 4 w"
proof (rule nth_equalityI)
  fix i assume "i < length (word_le 4 (bswap_32 w))"
  then have "i \<in> {0, 1, 2, 3}" by auto
  then show "word_le 4 (bswap_32 w) ! i = word_be 4 w ! i"
    by (elim insertE emptyE; intro bit_word_eqI)
      (simp_all add: nth_word_le nth_word_be bswap_32_def byte_masks bit_simps)
qed simp

lemma word_le_bswap_64 [word_images]: "word_le 8 (bswap_64 w) = word_be 8 w"
proof (rule nth_equalityI)
  fix i assume "i < length (word_le 8 (bswap_64 w))"
  then have "i \<in> {0, 1, 2, 3, 4, 5, 6, 7}" by auto
  then show "word_le 8 (bswap_64 w) ! i = word_be 8 w ! i"
    by (elim insertE emptyE; intro bit_word_eqI)
      (simp_all add: nth_word_le nth_word_be bswap_64_def byte_masks bit_simps)
qed simp

lemma bswap_32_le_word [word_images]: "length bs = 4 \<Longrightarrow> bswap_32 (le_word bs) = be_word bs"
  using le_word_word_le [of 4 "bswap_32 (le_word bs)"] word_le_le_word [of bs 4, where 'a = 32]
  by (simp add: word_le_bswap_32 word_be_def be_word_def)

lemma bswap_64_le_word [word_images]: "length bs = 8 \<Longrightarrow> bswap_64 (le_word bs) = be_word bs"
  using le_word_word_le [of 8 "bswap_64 (le_word bs)"] word_le_le_word [of bs 8, where 'a = 64]
  by (simp add: word_le_bswap_64 word_be_def be_word_def)

end
