(* ===== verification/Block_Buffer.thy ===== *)
theory Block_Buffer
  imports Prelude
begin

text \<open>
  The buffering that \<open>md5.c\<close>, \<open>sha256.c\<close> and \<open>sha512.c\<close> share.  The three files hold the same
  text of \<open>process_bytes\<close> over a different context and block size.  The locale
  \<open>block_buffer\<close> states what that text relies on (the block function advances the hash and
  leaves the buffer alone) and the text itself, in its three parts; its lemmas show that the
  parts lose no byte and never write outside the buffer of two blocks.
  The locale \<open>hash_stream\<close> is the interface of a streaming digest, the one that the users of the
  context functions rely on.
\<close>

section \<open>What a context stands for\<close>

text \<open>
  A context stands for the message \<open>m\<close> when the hash has taken a whole number of blocks of it
  and the rest, at most one block, is at the start of the buffer.
\<close>

definition block_absorbed ::
  "nat \<Rightarrow> ('c \<Rightarrow> byte list \<Rightarrow> bool) \<Rightarrow> ('c \<Rightarrow> 'l::len word) \<Rightarrow> ('c \<Rightarrow> byte list) \<Rightarrow> 'c \<Rightarrow> byte list \<Rightarrow> bool" where
  "block_absorbed bsz hashed buflen buffer c m \<longleftrightarrow>
     (\<exists>d p. m = d @ p \<and> hashed c d \<and> bsz dvd length d \<and> length p \<le> bsz \<and> unat (buflen c) = length p \<and>
            length (buffer c) = 2 * bsz \<and> take (length p) (buffer c) = p)"

lemma block_absorbedE:
  assumes "block_absorbed bsz hashed buflen buffer c m"
  obtains d p where "m = d @ p" "hashed c d" "bsz dvd length d" "length p \<le> bsz"
    "unat (buflen c) = length p" "length (buffer c) = 2 * bsz" "take (length p) (buffer c) = p"
  using assms by (auto simp: block_absorbed_def)

lemma block_absorbedI:
  assumes "hashed c d" "bsz dvd length d" "length p \<le> bsz" "unat (buflen c) = length p"
    "length (buffer c) = 2 * bsz" "take (length p) (buffer c) = p" "m = d @ p"
  shows "block_absorbed bsz hashed buflen buffer c m"
  using assms by (auto simp: block_absorbed_def)

section \<open>The buffering code\<close>

locale block_buffer =
  fixes k :: nat and bsz :: nat
    and hashed :: "'c \<Rightarrow> byte list \<Rightarrow> bool"
    and process_block :: "byte list \<Rightarrow> nat \<Rightarrow> 'c \<Rightarrow> 'c"
    and buflen :: "'c \<Rightarrow> 'l::len word" and upd_buflen :: "'l word \<Rightarrow> 'c \<Rightarrow> 'c"
    and buffer :: "'c \<Rightarrow> byte list" and upd_buffer :: "byte list \<Rightarrow> 'c \<Rightarrow> 'c"
    and align :: nat
    and fill :: "nat \<times> byte list \<Rightarrow> 'c \<Rightarrow> (nat \<times> byte list) \<times> 'c"
    and unaligned_loop :: "nat \<times> byte list \<Rightarrow> 'c \<Rightarrow> (nat \<times> byte list) \<times> 'c"
    and blocks :: "nat \<times> byte list \<Rightarrow> 'c \<Rightarrow> (nat \<times> byte list) \<times> 'c"
    and rest :: "nat \<times> byte list \<Rightarrow> 'c \<Rightarrow> 'c"
  assumes bsz: "bsz = 2 ^ k" and width: "2 * bsz < 2 ^ LENGTH('l)" "2 * bsz < 2 ^ 64"
    and fields [simp]:
      "buflen (upd_buflen w c) = w" "buffer (upd_buflen w c) = buffer c"
      "buflen (upd_buffer b c) = buflen c" "buffer (upd_buffer b c) = b"
    and process_block_frame [simp]:
      "buflen (process_block bs n c) = buflen c" "buffer (process_block bs n c) = buffer c"
    and hashed_frame [simp]:
      "hashed (upd_buflen w c) d = hashed c d" "hashed (upd_buffer b c) d = hashed c d"
    and hashed_process_block:
      "hashed c d \<Longrightarrow> bsz dvd length d \<Longrightarrow> bsz dvd n \<Longrightarrow> n \<le> length bs \<Longrightarrow>
       hashed (process_block bs n c) (d @ take n bs)"
    and fill:
      "fill (a, bs) c =
       (if buflen c \<noteq> 0 then
          (let left_over = unat (buflen c);
               len = length bs;
               add = (if 2 * bsz - left_over > len then len else 2 * bsz - left_over);
               c = upd_buflen (buflen c + of_nat add)
                     (upd_buffer (store_at (buffer c) left_over (take add bs)) c);
               c = (if buflen c > of_nat bsz then
                      (let c = process_block (buffer c) (unat (buflen c AND NOT (mask k))) c;
                           c = upd_buflen (buflen c AND mask k) c;
                           off = unat ((of_nat (left_over + add) :: u64) AND NOT (mask k))
                       in upd_buffer (store_at (buffer c) 0 (take (unat (buflen c)) (drop off (buffer c)))) c)
                    else c)
           in ((a + add, drop add bs), c))
        else ((a, bs), c))"
    and unaligned_loop:
      "unaligned_loop (a, bs) c =
       (if length bs > bsz then
          (let c = upd_buffer (store_at (buffer c) 0 (take bsz bs)) c;
               c = process_block (buffer c) bsz c
           in unaligned_loop (a + bsz, drop bsz bs) c)
        else ((a, bs), c))"
    and blocks:
      "blocks (a, bs) c =
       (if length bs \<ge> bsz then
          (if a mod align \<noteq> 0 then unaligned_loop (a, bs) c
           else (let n = unat ((of_nat (length bs) :: u64) AND NOT (mask k))
                 in ((a + n, drop n bs), process_block bs n c)))
        else ((a, bs), c))"
    and rest:
      "rest (a, bs) c =
       (if length bs > 0 then
          (let left_over = unat (buflen c);
               c = upd_buffer (store_at (buffer c) left_over bs) c;
               left_over = left_over + length bs
           in if left_over \<ge> bsz then
                (let c = process_block (buffer c) bsz c;
                     left_over = left_over - bsz
                 in upd_buflen (of_nat left_over)
                      (upd_buffer (store_at (buffer c) 0 (take left_over (drop bsz (buffer c)))) c))
              else upd_buflen (of_nat left_over) c)
        else c)"
begin

abbreviation absorbed :: "'c \<Rightarrow> byte list \<Rightarrow> bool" where
  "absorbed \<equiv> block_absorbed bsz hashed buflen buffer"

lemma bsz_pos: "0 < bsz"
  by (simp add: bsz)

lemma flush_absorbed:
  assumes q: "hashed e d" "bsz dvd length d" "take (length q) (buffer e) = q" "length (buffer e) = 2 * bsz"
      "length q \<le> 2 * bsz"
    and n: "bsz dvd n" "n \<le> length q" "length q - n \<le> bsz"
    and c': "hashed c' = hashed (process_block (buffer e) n e)" "unat (buflen c') = length q - n"
      "buffer c' = store_at (buffer e) 0 (take (length q - n) (drop n (buffer e)))"
  shows "absorbed c' (d @ q)"
proof (rule block_absorbedI)
  have tl: "take (length q - n) (drop n (buffer e)) = drop n q"
    using q(3) n(2) by (metis drop_take_plus le_add_diff_inverse)
  show "hashed c' (d @ take n q)"
    using hashed_process_block [OF q(1,2) n(1), of "buffer e"] q n(2) c'(1)
    by (metis le_trans min.absorb1 take_take)
  show "take (length (drop n q)) (buffer c') = drop n q" "length (buffer c') = 2 * bsz"
    using q n c'(3) tl by (simp_all add: take_store_at_0)
qed (use q n c' in auto)

lemma fill_eq:
  assumes "buflen c \<noteq> 0" "length p = unat (buflen c)"
    and "add = (if 2 * bsz - length p > length bs then length bs else 2 * bsz - length p)"
    and "c1 = upd_buflen (buflen c + of_nat add) (upd_buffer (store_at (buffer c) (length p) (take add bs)) c)"
  shows "fill (a, bs) c = ((a + add, drop add bs),
    if buflen c1 > of_nat bsz then
      upd_buffer (store_at (buffer c1) 0 (take (unat (buflen c1 AND mask k))
          (drop (unat ((of_nat (length p + add) :: u64) AND NOT (mask k))) (buffer c1))))
        (upd_buflen (buflen c1 AND mask k) (process_block (buffer c1) (unat (buflen c1 AND NOT (mask k))) c1))
    else c1)"
  using assms by (simp add: fill Let_def)

lemma fill_absorbed:
  assumes abs: "absorbed c m" and step: "fill (a, bs) c = (buf, c')"
  obtains n where "n \<le> length bs" "buf = (a + n, drop n bs)" "absorbed c' (m @ take n bs)"
    "n < length bs \<longrightarrow> buflen c' = 0"
proof (cases "buflen c = 0")
  case True
  then show ?thesis using that [of 0] assms by (auto simp: fill)
next
  case ne: False
  obtain d p where c: "m = d @ p" "hashed c d" "bsz dvd length d" "length p \<le> bsz"
    "unat (buflen c) = length p" "length (buffer c) = 2 * bsz" "take (length p) (buffer c) = p"
    using abs by (rule block_absorbedE)
  define add where "add = (if 2 * bsz - length p > length bs then length bs else 2 * bsz - length p)"
  have add: "add \<le> length bs" "length p + add \<le> 2 * bsz" "add < length bs \<longrightarrow> length p + add = 2 * bsz"
    using c(4) by (auto simp: add_def)
  define q where "q = p @ take add bs"
  have q: "length q = length p + add" "length q \<le> 2 * bsz" "m @ take add bs = d @ q"
    using add c(1) by (simp_all add: q_def)
  define c1 where "c1 = upd_buflen (buflen c + of_nat add)
                     (upd_buffer (store_at (buffer c) (length p) (take add bs)) c)"
  have len1: "unat (buflen c1) = length q"
    using q c(5) width by (simp add: c1_def unat_word_ariths unat_of_nat)
  have c1: "length (buffer c1) = 2 * bsz" "take (length q) (buffer c1) = q" "hashed c1 d"
    using c add q by (simp_all add: c1_def take_store_at_end q_def)
  have bsz_word: "buflen c1 > of_nat bsz \<longleftrightarrow> length q > bsz"
    using width len1 by (simp add: word_less_nat_alt unat_of_nat)
  have masks: "unat (buflen c1 AND NOT (mask k)) = length q - length q mod bsz"
    "unat ((of_nat (length p + add) :: u64) AND NOT (mask k)) = length q - length q mod bsz"
    "unat (buflen c1 AND mask k) = length q mod bsz"
    using len1 q width
    by (simp_all add: unat_and_not_mask unat_and_mask_word unat_of_nat bsz del: of_nat_add)
  note fill1 = fill_eq [OF ne c(5) [symmetric] add_def c1_def, of a, unfolded bsz_word masks]
  show ?thesis
  proof (cases "length q > bsz")
    case False
    then have "\<not> add < length bs" "c' = c1" "buf = (a + add, drop add bs)"
      using step fill1 add bsz_pos q by auto
    moreover have "absorbed c1 (d @ q)"
      using False c(3) c1 len1 by (intro block_absorbedI [where p = q]) auto
    ultimately show ?thesis using that [of add] add q by simp
  next
    case True
    then have "absorbed c' (d @ q)"
      using step fill1 c1 c(3) q(2) masks bsz_pos
      by (intro flush_absorbed [where n = "length q - length q mod bsz" and e = c1])
        (auto simp: dvd_minus_mod less_imp_le)
    then show ?thesis
      using that [of add] True step fill1 add masks(3) q by (auto simp: unat_eq_0)
  qed
qed


lemma unaligned_loop_absorbed:
  assumes "absorbed c m" "buflen c = 0" "unaligned_loop (a, bs) c = (buf, c')"
  shows "\<exists>n \<le> length bs. buf = (a + n, drop n bs) \<and> absorbed c' (m @ take n bs) \<and>
    buflen c' = 0 \<and> length bs - n \<le> bsz"
  using assms
proof (induction "length bs" arbitrary: a bs c m rule: less_induct)
  case less
  show ?case
  proof (cases "length bs > bsz")
    case False
    then show ?thesis
      using less.prems by (intro exI [of _ 0]) (auto simp: unaligned_loop)
  next
    case True
    define c1 where "c1 = upd_buffer (store_at (buffer c) 0 (take bsz bs)) c"
    define c2 where "c2 = process_block (buffer c1) bsz c1"
    obtain d where c: "m = d" "hashed c d" "bsz dvd length d" "length (buffer c) = 2 * bsz"
      using less.prems(1,2) by (auto elim!: block_absorbedE)
    have "take bsz (buffer c1) = take bsz bs" "length (buffer c1) = 2 * bsz"
      using True c(4) by (auto simp: c1_def take_store_at_0)
    then have "hashed c2 (d @ take bsz bs)"
      using hashed_process_block [of c1 d bsz "buffer c1"] c by (simp add: c1_def c2_def)
    then have abs2: "absorbed c2 (m @ take bsz bs)"
      using c True less.prems(2) by (intro block_absorbedI [where p = "[]"]) (auto simp: c2_def c1_def)
    have "unaligned_loop (a + bsz, drop bsz bs) c2 = (buf, c')"
      using less.prems(3) True by (simp add: unaligned_loop [of a bs] c1_def c2_def)
    moreover have "length (drop bsz bs) < length bs" "buflen c2 = 0"
      using True bsz_pos less.prems(2) by (simp_all add: c2_def c1_def)
    ultimately obtain n where "n \<le> length (drop bsz bs)" "buf = (a + bsz + n, drop n (drop bsz bs))"
      "absorbed c' ((m @ take bsz bs) @ take n (drop bsz bs))" "buflen c' = 0" "length (drop bsz bs) - n \<le> bsz"
      using less.hyps [OF _ abs2, of "drop bsz bs"] by blast
    then show ?thesis
      using True by (intro exI [of _ "bsz + n"]) (auto simp: take_add add.commute add.assoc)
  qed
qed

lemma blocks_absorbed:
  assumes abs: "absorbed c m" and empty: "bs \<noteq> [] \<longrightarrow> buflen c = 0" and size: "length bs < 2 ^ 64"
    and step: "blocks (a, bs) c = (buf, c')"
  shows "\<exists>n \<le> length bs. buf = (a + n, drop n bs) \<and> absorbed c' (m @ take n bs) \<and>
    (n < length bs \<longrightarrow> buflen c' = 0) \<and> length bs - n \<le> bsz"
proof (cases "bsz \<le> length bs")
  case False
  then show ?thesis
    using assms by (intro exI [of _ 0]) (auto simp: blocks)
next
  case long: True
  then have "buflen c = 0" using empty bsz_pos by auto
  show ?thesis
  proof (cases "a mod align = 0")
    case False
    then show ?thesis
      using unaligned_loop_absorbed [OF abs \<open>buflen c = 0\<close>, of a bs] step long by (auto simp: blocks)
  next
    case True
    define n where "n = length bs - length bs mod bsz"
    have n: "unat ((of_nat (length bs) :: u64) AND NOT (mask k)) = n" "bsz dvd n" "n \<le> length bs"
      using size by (simp_all add: n_def bsz unat_and_not_mask unat_of_nat dvd_minus_mod)
    obtain d where c: "m = d" "hashed c d" "bsz dvd length d" "length (buffer c) = 2 * bsz"
      using abs \<open>buflen c = 0\<close> by (auto elim!: block_absorbedE)
    have "c' = process_block bs n c" "buf = (a + n, drop n bs)"
      using step long True n by (simp_all add: blocks)
    moreover from this have "absorbed c' (m @ take n bs)"
      using hashed_process_block [OF c(2,3) n(2,3)] c n \<open>buflen c = 0\<close>
      by (intro block_absorbedI [where p = "[]"]) auto
    moreover have "length bs - n \<le> bsz" using bsz_pos by (simp add: n_def less_imp_le)
    ultimately show ?thesis using n \<open>buflen c = 0\<close> by (intro exI [of _ n]) auto
  qed
qed

lemma rest_absorbed:
  assumes abs: "absorbed c m" and empty: "bs \<noteq> [] \<longrightarrow> buflen c = 0" and size: "length bs \<le> bsz"
  shows "absorbed (rest (a, bs) c) (m @ bs)"
proof (cases "bs = []")
  case True
  then show ?thesis using abs by (simp add: rest)
next
  case False
  then have "buflen c = 0" using empty by simp
  obtain d where c: "m = d" "hashed c d" "bsz dvd length d" "length (buffer c) = 2 * bsz"
    using abs \<open>buflen c = 0\<close> by (auto elim!: block_absorbedE)
  define c1 where "c1 = upd_buffer (store_at (buffer c) 0 bs) c"
  have c1: "hashed c1 d" "take (length bs) (buffer c1) = bs" "length (buffer c1) = 2 * bsz" "length bs \<le> 2 * bsz"
    using c size by (simp_all add: c1_def take_store_at_0)
  show ?thesis
  proof (cases "length bs = bsz")
    case True
    then have "absorbed (rest (a, bs) c) (d @ bs)"
      using bsz_pos \<open>buflen c = 0\<close>
      by (intro flush_absorbed [OF c1(1) c(3) c1(2-4), of bsz]) (auto simp: rest Let_def c1_def)
    then show ?thesis using c(1) by simp
  next
    case False
    then show ?thesis
      using c c1 size width \<open>buflen c = 0\<close> \<open>bs \<noteq> []\<close> unfolding rest
      by (intro block_absorbedI [where d = d and p = bs]) (auto simp: Let_def c1_def unat_of_nat)
  qed
qed

theorem process_bytes_absorbed:
  assumes "absorbed c m" "length bs < 2 ^ 64" "fill (a, bs) c = (buf1, c1)" "blocks buf1 c1 = (buf2, c2)"
  shows "absorbed (rest buf2 c2) (m @ bs)"
proof -
  obtain n where n: "n \<le> length bs" "buf1 = (a + n, drop n bs)" "absorbed c1 (m @ take n bs)"
    "n < length bs \<longrightarrow> buflen c1 = 0"
    using fill_absorbed [OF assms(1,3)] by blast
  have "drop n bs \<noteq> [] \<longrightarrow> buflen c1 = 0" "length (drop n bs) < 2 ^ 64"
    using n assms(2) by auto
  then obtain l where l: "l \<le> length (drop n bs)" "buf2 = (a + n + l, drop l (drop n bs))"
    "absorbed c2 ((m @ take n bs) @ take l (drop n bs))"
    "l < length (drop n bs) \<longrightarrow> buflen c2 = 0" "length (drop n bs) - l \<le> bsz"
    using blocks_absorbed [OF n(3), of "drop n bs" "a + n" buf2 c2] assms(4) n(2) by blast
  have "absorbed (rest (a + n + l, drop l (drop n bs)) c2)
      (((m @ take n bs) @ take l (drop n bs)) @ drop l (drop n bs))"
    using l by (intro rest_absorbed) auto
  then show ?thesis by (simp only: l(2) append_assoc append_take_drop_id)
qed

end

section \<open>Padding\<close>

text \<open>
  The padded message of the standards: a one bit, zeros, and the length field of \<open>l\<close> bytes,
  up to a whole number of blocks.  \<open>md_pad_tail\<close> is what \<open>finish_ctx\<close> puts in the buffer.
\<close>

definition md_pad :: "nat \<Rightarrow> nat \<Rightarrow> (nat \<Rightarrow> byte list) \<Rightarrow> byte list \<Rightarrow> byte list" where
  "md_pad bsz l enc m =
     m @ 0x80 # replicate ((2 * bsz - 1 - l - length m mod bsz) mod bsz) 0 @ enc (length m)"

lemma md_pad_tail:
  assumes "m = d @ p" "bsz dvd length d" "length p \<le> bsz" "l < bsz" "length (enc (length m)) = l"
    and pad: "pad = (if length p \<ge> bsz - l then 2 * bsz - l - length p else bsz - l - length p)"
  shows "md_pad bsz l enc m = d @ p @ take pad (0x80 # replicate (bsz - 1) 0) @ enc (length m)"
    and "bsz dvd length p + pad + l" "length p + pad + l \<le> 2 * bsz" "pad \<le> bsz"
proof -
  have pos: "0 < pad" "pad \<le> bsz" using assms by auto
  have m: "length m mod bsz = length p mod bsz"
    using assms(1,2) by (simp add: mod_add_left_eq [symmetric] dvd_imp_mod_0)
  obtain n where n: "pad = Suc n" using pos(1) by (cases pad) auto
  have "(2 * bsz - 1 - l - length p mod bsz) mod bsz = n"
  proof (cases "length p < bsz - l \<or> length p = bsz")
    case True
    have "2 * bsz - 1 - l - length p mod bsz = bsz + n"
      using True assms(3,4) pad n by (auto split: if_splits)
    then show ?thesis using pos n by simp
  next
    case False
    then show ?thesis using assms(3,4) pad pos n by (auto split: if_splits)
  qed
  then show "md_pad bsz l enc m = d @ p @ take pad (0x80 # replicate (bsz - 1) 0) @ enc (length m)"
    using pos m n assms(1) by (simp add: md_pad_def min_def)
  show "bsz dvd length p + pad + l" "length p + pad + l \<le> 2 * bsz" "pad \<le> bsz"
    using assms(3,4) pad by (auto split: if_splits)
qed

text \<open>The buffer that \<open>finish_ctx\<close> hashes: the pending bytes, the padding and the length field.\<close>

lemma finish_buffer:
  assumes m: "m = d @ p" "bsz dvd length d" "length p \<le> bsz" "l < bsz"
    and buf: "length buf = 2 * bsz" "take (length p) buf = p"
    and L: "L = enc (length m)" "length L = l"
    and pad: "pad = (if length p \<ge> bsz - l then 2 * bsz - l - length p else bsz - l - length p)"
    and F: "F = take pad (0x80 # replicate (bsz - 1) 0)"
    and B: "B = store_at buf (length p) (F @ L)"
  shows "md_pad bsz l enc m = d @ take (length p + pad + l) B"
    and "bsz dvd length p + pad + l" "length p + pad + l \<le> 2 * bsz" "length B = 2 * bsz"
    and "length p + length F + length L \<le> 2 * bsz" "length F = pad"
proof -
  note tail = md_pad_tail [OF m(1-4) _ pad, of enc]
  show len: "bsz dvd length p + pad + l" "length p + pad + l \<le> 2 * bsz"
    using tail L by simp_all
  show F': "length F = pad" using tail(4) L m(4) by (simp add: F)
  then show "length B = 2 * bsz" "length p + length F + length L \<le> 2 * bsz"
    using len L buf by (simp_all add: B)
  have "take (length p + pad + l) B = p @ F @ L"
    using buf len F' L m(3) by (simp add: B take_store_at_end)
  then show "md_pad bsz l enc m = d @ take (length p + pad + l) B"
    using tail(1) L by (simp add: F)
qed

section \<open>The streaming interface\<close>

locale hash_stream =
  fixes ok :: "'c \<Rightarrow> bool"
    and init :: "'c \<Rightarrow> 'c"
    and update :: "nat \<times> byte list \<Rightarrow> 'c \<Rightarrow> 'c"
    and finish :: "'c \<Rightarrow> 'c \<times> byte list"
    and absorbed :: "'c \<Rightarrow> byte list \<Rightarrow> bool"
    and digest :: "byte list \<Rightarrow> byte list"
  assumes absorbed_init: "ok c \<Longrightarrow> absorbed (init c) []"
    and absorbed_update: "absorbed c m \<Longrightarrow> length bs < 2 ^ 64 \<Longrightarrow> absorbed (update (a, bs) c) (m @ bs)"
    and finish_digest: "absorbed c m \<Longrightarrow> snd (finish c) = digest m"
    and ok_absorbed: "absorbed c m \<Longrightarrow> ok c"
    and ok_finish: "absorbed c m \<Longrightarrow> ok (fst (finish c))"
begin

lemma absorbed_updates:
  assumes "absorbed c m" "\<forall>b \<in> set inputs. length (snd b) < 2 ^ 64"
  shows "absorbed (fold update inputs c) (m @ concat (map snd inputs))"
  using assms
proof (induction inputs arbitrary: c m)
  case (Cons b inputs)
  then have "absorbed (update (fst b, snd b) c) (m @ snd b)"
    by (intro absorbed_update) auto
  then show ?case
    using Cons.IH [of "update b c" "m @ snd b"] Cons.prems by simp
qed simp

lemma digest_updates:
  assumes "ok c" "\<forall>b \<in> set inputs. length (snd b) < 2 ^ 64"
  shows "snd (finish (fold update inputs (init c))) = digest (concat (map snd inputs))"
  using absorbed_updates [OF absorbed_init [OF assms(1)] assms(2)] by (simp add: finish_digest)

end

end
