(* ===== verification/Md5.thy ===== *)
theory Md5
  imports Block_Buffer
begin

text \<open>
  MD5 (\<open>crypt/md5.c\<close>, \<open>crypt/md5-block.c\<close>, \<open>crypt/md5.h\<close>): the context, the block
  function, the buffering of \<open>md5_process_bytes\<close> and the padding of
  \<open>md5_finish_ctx\<close>.  The reference is the text of RFC 1321: the whole message is
  padded first and cut in blocks of 64 bytes.
\<close>

section \<open>Data\<close>

text \<open>\<open>struct md5_ctx\<close>; the union of \<open>buffer\<close> and \<open>buffer32\<close> is an array of 128 bytes.\<close>

record md5_ctx =
  md5_A :: u32
  md5_B :: u32
  md5_C :: u32
  md5_D :: u32
  md5_total0 :: u32
  md5_total1 :: u32
  md5_buflen :: u32
  md5_buffer :: "byte list"

definition md5_fillbuf :: "byte list" where
  "md5_fillbuf = 0x80 # replicate 63 0"

section \<open>The block function\<close>

text \<open>The four functions of the steps (\<open>FF\<close>, \<open>FG\<close>, \<open>FH\<close>, \<open>FI\<close>) and \<open>CYCLIC\<close>.\<close>

definition FF :: "u32 \<Rightarrow> u32 \<Rightarrow> u32 \<Rightarrow> u32" where
  "FF b c d = d XOR (b AND (c XOR d))"

definition FG :: "u32 \<Rightarrow> u32 \<Rightarrow> u32 \<Rightarrow> u32" where
  "FG b c d = FF d b c"

definition FH :: "u32 \<Rightarrow> u32 \<Rightarrow> u32 \<Rightarrow> u32" where
  "FH b c d = b XOR c XOR d"

definition FI :: "u32 \<Rightarrow> u32 \<Rightarrow> u32 \<Rightarrow> u32" where
  "FI b c d = c XOR (b OR NOT d)"

definition md5_CYCLIC :: "u32 \<Rightarrow> nat \<Rightarrow> u32" where
  "md5_CYCLIC w s = push_bit s w OR drop_bit (32 - s) w"

text \<open>
  The local variables \<open>A\<close>, \<open>B\<close>, \<open>C\<close>, \<open>D\<close> of the block function, and their names: a line
  \<open>OP (FG, A, B, C, D, 1, 5, 0xf61e2562)\<close> of the source is the row \<open>(RA, RB, RC, RD, 1, 5, 0xf61e2562)\<close>.
  In the first round the word index is the count of the earlier steps (\<open>*cwp++\<close>).
\<close>

datatype md5_reg = RA | RB | RC | RD

type_synonym md5_vars = "u32 \<times> u32 \<times> u32 \<times> u32"
type_synonym md5_row = "md5_reg \<times> md5_reg \<times> md5_reg \<times> md5_reg \<times> nat \<times> nat \<times> u32"

fun md5_get :: "md5_reg \<Rightarrow> md5_vars \<Rightarrow> u32" where
  "md5_get RA (a, b, c, d) = a"
| "md5_get RB (a, b, c, d) = b"
| "md5_get RC (a, b, c, d) = c"
| "md5_get RD (a, b, c, d) = d"

fun md5_set :: "md5_reg \<Rightarrow> u32 \<Rightarrow> md5_vars \<Rightarrow> md5_vars" where
  "md5_set RA x (a, b, c, d) = (x, b, c, d)"
| "md5_set RB x (a, b, c, d) = (a, x, c, d)"
| "md5_set RC x (a, b, c, d) = (a, b, x, d)"
| "md5_set RD x (a, b, c, d) = (a, b, c, x)"

fun md5_OP :: "(u32 \<Rightarrow> u32 \<Rightarrow> u32 \<Rightarrow> u32) \<Rightarrow> u32 list \<Rightarrow> md5_row \<Rightarrow> md5_vars \<Rightarrow> md5_vars" where
  "md5_OP f correct_words (ra, rb, rc, rd, k, s, T) v =
     (let a = md5_get ra v + (f (md5_get rb v) (md5_get rc v) (md5_get rd v) + correct_words ! k + T);
          a = md5_CYCLIC a s;
          a = a + md5_get rb v
      in md5_set ra a v)"

definition md5_round1 :: "md5_row list" where
  "md5_round1 =
    [(RA, RB, RC, RD, 0,  7, 0xd76aa478), (RD, RA, RB, RC, 1, 12, 0xe8c7b756),
     (RC, RD, RA, RB, 2, 17, 0x242070db), (RB, RC, RD, RA, 3, 22, 0xc1bdceee),
     (RA, RB, RC, RD, 4,  7, 0xf57c0faf), (RD, RA, RB, RC, 5, 12, 0x4787c62a),
     (RC, RD, RA, RB, 6, 17, 0xa8304613), (RB, RC, RD, RA, 7, 22, 0xfd469501),
     (RA, RB, RC, RD, 8,  7, 0x698098d8), (RD, RA, RB, RC, 9, 12, 0x8b44f7af),
     (RC, RD, RA, RB, 10, 17, 0xffff5bb1), (RB, RC, RD, RA, 11, 22, 0x895cd7be),
     (RA, RB, RC, RD, 12,  7, 0x6b901122), (RD, RA, RB, RC, 13, 12, 0xfd987193),
     (RC, RD, RA, RB, 14, 17, 0xa679438e), (RB, RC, RD, RA, 15, 22, 0x49b40821)]"

definition md5_round2 :: "md5_row list" where
  "md5_round2 =
    [(RA, RB, RC, RD,  1,  5, 0xf61e2562), (RD, RA, RB, RC,  6,  9, 0xc040b340),
     (RC, RD, RA, RB, 11, 14, 0x265e5a51), (RB, RC, RD, RA,  0, 20, 0xe9b6c7aa),
     (RA, RB, RC, RD,  5,  5, 0xd62f105d), (RD, RA, RB, RC, 10,  9, 0x02441453),
     (RC, RD, RA, RB, 15, 14, 0xd8a1e681), (RB, RC, RD, RA,  4, 20, 0xe7d3fbc8),
     (RA, RB, RC, RD,  9,  5, 0x21e1cde6), (RD, RA, RB, RC, 14,  9, 0xc33707d6),
     (RC, RD, RA, RB,  3, 14, 0xf4d50d87), (RB, RC, RD, RA,  8, 20, 0x455a14ed),
     (RA, RB, RC, RD, 13,  5, 0xa9e3e905), (RD, RA, RB, RC,  2,  9, 0xfcefa3f8),
     (RC, RD, RA, RB,  7, 14, 0x676f02d9), (RB, RC, RD, RA, 12, 20, 0x8d2a4c8a)]"

definition md5_round3 :: "md5_row list" where
  "md5_round3 =
    [(RA, RB, RC, RD,  5,  4, 0xfffa3942), (RD, RA, RB, RC,  8, 11, 0x8771f681),
     (RC, RD, RA, RB, 11, 16, 0x6d9d6122), (RB, RC, RD, RA, 14, 23, 0xfde5380c),
     (RA, RB, RC, RD,  1,  4, 0xa4beea44), (RD, RA, RB, RC,  4, 11, 0x4bdecfa9),
     (RC, RD, RA, RB,  7, 16, 0xf6bb4b60), (RB, RC, RD, RA, 10, 23, 0xbebfbc70),
     (RA, RB, RC, RD, 13,  4, 0x289b7ec6), (RD, RA, RB, RC,  0, 11, 0xeaa127fa),
     (RC, RD, RA, RB,  3, 16, 0xd4ef3085), (RB, RC, RD, RA,  6, 23, 0x04881d05),
     (RA, RB, RC, RD,  9,  4, 0xd9d4d039), (RD, RA, RB, RC, 12, 11, 0xe6db99e5),
     (RC, RD, RA, RB, 15, 16, 0x1fa27cf8), (RB, RC, RD, RA,  2, 23, 0xc4ac5665)]"

definition md5_round4 :: "md5_row list" where
  "md5_round4 =
    [(RA, RB, RC, RD,  0,  6, 0xf4292244), (RD, RA, RB, RC,  7, 10, 0x432aff97),
     (RC, RD, RA, RB, 14, 15, 0xab9423a7), (RB, RC, RD, RA,  5, 21, 0xfc93a039),
     (RA, RB, RC, RD, 12,  6, 0x655b59c3), (RD, RA, RB, RC,  3, 10, 0x8f0ccc92),
     (RC, RD, RA, RB, 10, 15, 0xffeff47d), (RB, RC, RD, RA,  1, 21, 0x85845dd1),
     (RA, RB, RC, RD,  8,  6, 0x6fa87e4f), (RD, RA, RB, RC, 15, 10, 0xfe2ce6e0),
     (RC, RD, RA, RB,  6, 15, 0xa3014314), (RB, RC, RD, RA, 13, 21, 0x4e0811a1),
     (RA, RB, RC, RD,  4,  6, 0xf7537e82), (RD, RA, RB, RC, 11, 10, 0xbd3af235),
     (RC, RD, RA, RB,  2, 15, 0x2ad7d2bb), (RB, RC, RD, RA,  9, 21, 0xeb86d391)]"

text \<open>One pass of the loop over the blocks, on the 16 words of the block.\<close>

definition md5_rounds :: "u32 list \<Rightarrow> md5_vars \<Rightarrow> md5_vars" where
  "md5_rounds correct_words v =
     (let v = fold (md5_OP FF correct_words) md5_round1 v;
          v = fold (md5_OP FG correct_words) md5_round2 v;
          v = fold (md5_OP FH correct_words) md5_round3 v
      in fold (md5_OP FI correct_words) md5_round4 v)"

fun md5_one_block :: "u32 list \<Rightarrow> md5_vars \<Rightarrow> md5_vars" where
  "md5_one_block correct_words (A, B, C, D) =
     (let (A', B', C', D') = md5_rounds correct_words (A, B, C, D)
      in (A' + A, B' + B, C' + C, D' + D))"

text \<open>
  The words of a buffer, read through a pointer to \<open>md5_uint32\<close> (\<open>SWAP\<close> is the
  identity on a little-endian machine), and the loop \<open>while (words < endp)\<close>.
\<close>

definition le32_words :: "byte list \<Rightarrow> u32 list" where
  "le32_words bs = map le_word (chunks 4 bs)"

function md5_loop :: "u32 list \<Rightarrow> md5_vars \<Rightarrow> md5_vars" where
  "md5_loop words v = (if words = [] then v else md5_loop (drop 16 words) (md5_one_block (take 16 words) v))"
  by pat_completeness auto
termination
  by (relation "measure (\<lambda>(words, v). length words)") auto

declare md5_loop.simps [simp del]

text \<open>\<open>__md5_process_block (buffer, len, ctx)\<close>: \<open>len\<close> is a \<open>size_t\<close>.\<close>

definition md5_process_block :: "byte list \<Rightarrow> nat \<Rightarrow> md5_ctx \<Rightarrow> md5_ctx" where
  "md5_process_block buffer len ctx =
     (let nwords = len div 4;
          words = le32_words (take (4 * nwords) buffer);
          lolen = of_nat len :: u32;
          total0 = md5_total0 ctx + lolen;
          total1 = md5_total1 ctx + (of_nat (len div 2 ^ 31 div 2 ^ 1) + (if total0 < lolen then 1 else 0));
          (A, B, C, D) = md5_loop words (md5_A ctx, md5_B ctx, md5_C ctx, md5_D ctx)
      in ctx\<lparr>md5_total0 := total0, md5_total1 := total1,
             md5_A := A, md5_B := B, md5_C := C, md5_D := D\<rparr>)"

section \<open>The context functions\<close>

definition md5_init_ctx :: "md5_ctx \<Rightarrow> md5_ctx" where
  "md5_init_ctx ctx = ctx
     \<lparr>md5_A := 0x67452301, md5_B := 0xefcdab89, md5_C := 0x98badcfe, md5_D := 0x10325476,
      md5_total0 := 0, md5_total1 := 0, md5_buflen := 0\<rparr>"

definition md5_read_ctx :: "md5_ctx \<Rightarrow> byte list" where
  "md5_read_ctx ctx =
     word_le 4 (md5_A ctx) @ word_le 4 (md5_B ctx) @ word_le 4 (md5_C ctx) @ word_le 4 (md5_D ctx)"

definition md5_finish_ctx :: "md5_ctx \<Rightarrow> md5_ctx \<times> byte list" where
  "md5_finish_ctx ctx =
     (let bytes = md5_buflen ctx;
          total0 = md5_total0 ctx + bytes;
          total1 = (if total0 < bytes then md5_total1 ctx + 1 else md5_total1 ctx);
          pad = (if bytes \<ge> 56 then 64 + 56 - unat bytes else 56 - unat bytes);
          buffer = store_at (md5_buffer ctx) (unat bytes) (take pad md5_fillbuf);
          buffer = store_at buffer (4 * ((unat bytes + pad) div 4)) (word_le 4 (push_bit 3 total0));
          buffer = store_at buffer (4 * ((unat bytes + pad + 4) div 4))
                     (word_le 4 (push_bit 3 total1 OR drop_bit 29 total0));
          ctx = ctx\<lparr>md5_total0 := total0, md5_total1 := total1, md5_buffer := buffer\<rparr>;
          ctx = md5_process_block buffer (unat bytes + pad + 8) ctx
      in (ctx, md5_read_ctx ctx))"

text \<open>
  \<open>md5_process_bytes (buffer, len, ctx)\<close>, one definition for each of its three parts.
  The input is its address (only its alignment matters, \<open>UNALIGNED_P\<close>) and its bytes;
  the first two parts return the rest of the input.
\<close>

definition md5_fill :: "nat \<times> byte list \<Rightarrow> md5_ctx \<Rightarrow> (nat \<times> byte list) \<times> md5_ctx" where
  "md5_fill buffer ctx =
     (if md5_buflen ctx \<noteq> 0 then
        (let left_over = unat (md5_buflen ctx);
             len = length (snd buffer);
             add = (if 128 - left_over > len then len else 128 - left_over);
             ctx = ctx\<lparr>md5_buffer := store_at (md5_buffer ctx) left_over (take add (snd buffer)),
                       md5_buflen := md5_buflen ctx + of_nat add\<rparr>;
             ctx = (if md5_buflen ctx > 64 then
                      (let ctx = md5_process_block (md5_buffer ctx) (unat (md5_buflen ctx AND NOT 63)) ctx;
                           ctx = ctx\<lparr>md5_buflen := md5_buflen ctx AND 63\<rparr>;
                           off = unat ((of_nat (left_over + add) :: u64) AND NOT 63)
                       in ctx\<lparr>md5_buffer := store_at (md5_buffer ctx) 0
                                 (take (unat (md5_buflen ctx)) (drop off (md5_buffer ctx)))\<rparr>)
                    else ctx)
         in ((fst buffer + add, drop add (snd buffer)), ctx))
      else (buffer, ctx))"

function md5_unaligned_loop :: "nat \<times> byte list \<Rightarrow> md5_ctx \<Rightarrow> (nat \<times> byte list) \<times> md5_ctx" where
  "md5_unaligned_loop buffer ctx =
     (if length (snd buffer) > 64 then
        (let ctx = ctx\<lparr>md5_buffer := store_at (md5_buffer ctx) 0 (take 64 (snd buffer))\<rparr>;
             ctx = md5_process_block (md5_buffer ctx) 64 ctx
         in md5_unaligned_loop (fst buffer + 64, drop 64 (snd buffer)) ctx)
      else (buffer, ctx))"
  by pat_completeness auto
termination
  by (relation "measure (\<lambda>(buffer, ctx). length (snd buffer))") auto

declare md5_unaligned_loop.simps [simp del]

definition md5_blocks :: "nat \<times> byte list \<Rightarrow> md5_ctx \<Rightarrow> (nat \<times> byte list) \<times> md5_ctx" where
  "md5_blocks buffer ctx =
     (let len = length (snd buffer) in
      if len \<ge> 64 then
        (if fst buffer mod 4 \<noteq> 0 then md5_unaligned_loop buffer ctx
         else (let n = unat ((of_nat len :: u64) AND NOT 63)
               in ((fst buffer + n, drop n (snd buffer)), md5_process_block (snd buffer) n ctx)))
      else (buffer, ctx))"

definition md5_rest :: "nat \<times> byte list \<Rightarrow> md5_ctx \<Rightarrow> md5_ctx" where
  "md5_rest buffer ctx =
     (let len = length (snd buffer) in
      if len > 0 then
        (let left_over = unat (md5_buflen ctx);
             ctx = ctx\<lparr>md5_buffer := store_at (md5_buffer ctx) left_over (snd buffer)\<rparr>;
             left_over = left_over + len
         in if left_over \<ge> 64 then
              (let ctx = md5_process_block (md5_buffer ctx) 64 ctx;
                   left_over = left_over - 64
               in ctx\<lparr>md5_buffer := store_at (md5_buffer ctx) 0 (take left_over (drop 64 (md5_buffer ctx))),
                      md5_buflen := of_nat left_over\<rparr>)
            else ctx\<lparr>md5_buflen := of_nat left_over\<rparr>)
      else ctx)"

definition md5_process_bytes :: "nat \<times> byte list \<Rightarrow> md5_ctx \<Rightarrow> md5_ctx" where
  "md5_process_bytes buffer ctx =
     (let (buffer, ctx) = md5_fill buffer ctx;
          (buffer, ctx) = md5_blocks buffer ctx
      in md5_rest buffer ctx)"

text \<open>\<open>md5_buffer\<close>: the digest of one buffer; the context is a local variable, so its first value is arbitrary.\<close>

definition md5_buffer_digest :: "md5_ctx \<Rightarrow> nat \<times> byte list \<Rightarrow> byte list" where
  "md5_buffer_digest ctx buffer =
     (let ctx = md5_init_ctx ctx;
          ctx = md5_process_bytes buffer ctx
      in snd (md5_finish_ctx ctx))"

section \<open>RFC 1321\<close>

text \<open>
  The reference: the auxiliary functions, the table \<open>T\<close>, the word and shift of step \<open>i\<close>,
  and the step with the four variables passed on in rotation.
\<close>

definition rfc_f :: "nat \<Rightarrow> u32 \<Rightarrow> u32 \<Rightarrow> u32 \<Rightarrow> u32" where
  "rfc_f i x y z =
     (if i < 16 then (x AND y) OR (NOT x AND z)
      else if i < 32 then (x AND z) OR (y AND NOT z)
      else if i < 48 then x XOR y XOR z
      else y XOR (x OR NOT z))"

definition rfc_k :: "nat \<Rightarrow> nat" where
  "rfc_k i =
     (if i < 16 then i else if i < 32 then (5 * i + 1) mod 16
      else if i < 48 then (3 * i + 5) mod 16 else (7 * i) mod 16)"

definition rfc_s :: "nat \<Rightarrow> nat" where
  "rfc_s i = [[7, 12, 17, 22], [5, 9, 14, 20], [4, 11, 16, 23], [6, 10, 15, 21]] ! (i div 16) ! (i mod 4)"

definition rfc_T :: "u32 list" where
  "rfc_T =
    [0xd76aa478, 0xe8c7b756, 0x242070db, 0xc1bdceee, 0xf57c0faf, 0x4787c62a, 0xa8304613, 0xfd469501,
     0x698098d8, 0x8b44f7af, 0xffff5bb1, 0x895cd7be, 0x6b901122, 0xfd987193, 0xa679438e, 0x49b40821,
     0xf61e2562, 0xc040b340, 0x265e5a51, 0xe9b6c7aa, 0xd62f105d, 0x02441453, 0xd8a1e681, 0xe7d3fbc8,
     0x21e1cde6, 0xc33707d6, 0xf4d50d87, 0x455a14ed, 0xa9e3e905, 0xfcefa3f8, 0x676f02d9, 0x8d2a4c8a,
     0xfffa3942, 0x8771f681, 0x6d9d6122, 0xfde5380c, 0xa4beea44, 0x4bdecfa9, 0xf6bb4b60, 0xbebfbc70,
     0x289b7ec6, 0xeaa127fa, 0xd4ef3085, 0x04881d05, 0xd9d4d039, 0xe6db99e5, 0x1fa27cf8, 0xc4ac5665,
     0xf4292244, 0x432aff97, 0xab9423a7, 0xfc93a039, 0x655b59c3, 0x8f0ccc92, 0xffeff47d, 0x85845dd1,
     0x6fa87e4f, 0xfe2ce6e0, 0xa3014314, 0x4e0811a1, 0xf7537e82, 0xbd3af235, 0x2ad7d2bb, 0xeb86d391]"

fun rfc_step :: "u32 list \<Rightarrow> nat \<Rightarrow> md5_vars \<Rightarrow> md5_vars" where
  "rfc_step X i (a, b, c, d) =
     (d, b + word_rotl (rfc_s i) (a + rfc_f i b c d + X ! rfc_k i + rfc_T ! i), b, c)"

fun rfc_compress :: "u32 list \<Rightarrow> md5_vars \<Rightarrow> md5_vars" where
  "rfc_compress X (A, B, C, D) =
     (let (a, b, c, d) = fold (rfc_step X) [0..<64] (A, B, C, D) in (A + a, B + b, C + c, D + d))"

definition rfc_blocks :: "byte list \<Rightarrow> md5_vars \<Rightarrow> md5_vars" where
  "rfc_blocks bs v = fold (\<lambda>b. rfc_compress (le32_words b)) (chunks 64 bs) v"

text \<open>Step 1 and 2 of the RFC: a one bit, zeros up to 56 modulo 64 bytes, and the length in bits.\<close>

definition rfc_length_field :: "nat \<Rightarrow> byte list" where
  "rfc_length_field n = word_le 8 (of_nat (8 * n) :: u64)"

definition md5_iv :: md5_vars where
  "md5_iv = (0x67452301, 0xefcdab89, 0x98badcfe, 0x10325476)"

fun rfc_output :: "md5_vars \<Rightarrow> byte list" where
  "rfc_output (a, b, c, d) = word_le 4 a @ word_le 4 b @ word_le 4 c @ word_le 4 d"

definition rfc_md5 :: "byte list \<Rightarrow> byte list" where
  "rfc_md5 m = rfc_output (rfc_blocks (md_pad 64 8 rfc_length_field m) md5_iv)"

text \<open>A step of the code with its registers renamed so that the result comes second.\<close>

fun md5_step :: "(u32 \<Rightarrow> u32 \<Rightarrow> u32 \<Rightarrow> u32) \<Rightarrow> u32 list \<Rightarrow> nat \<times> nat \<times> u32 \<Rightarrow> md5_vars \<Rightarrow> md5_vars" where
  "md5_step f X (k, s, T) (a, b, c, d) = (d, md5_CYCLIC (a + (f b c d + X ! k + T)) s + b, b, c)"

fun md5_quads :: "(nat \<times> nat \<times> u32) list \<Rightarrow> md5_row list" where
  "md5_quads (r0 # r1 # r2 # r3 # rs) =
     (RA, RB, RC, RD, r0) # (RD, RA, RB, RC, r1) # (RC, RD, RA, RB, r2) # (RB, RC, RD, RA, r3) # md5_quads rs"
| "md5_quads _ = []"

lemma md5_quad:
  "fold (md5_OP f X) [(RA, RB, RC, RD, r0), (RD, RA, RB, RC, r1), (RC, RD, RA, RB, r2), (RB, RC, RD, RA, r3)] v =
   fold (md5_step f X) [r0, r1, r2, r3] v"
  by (cases v; cases r0; cases r1; cases r2; cases r3) (simp add: Let_def)

lemma fold_md5_quads:
  "4 dvd length rs \<Longrightarrow> fold (md5_OP f X) (md5_quads rs) v = fold (md5_step f X) rs v"
proof (induction rs arbitrary: v rule: md5_quads.induct)
  case (1 r0 r1 r2 r3 rs)
  then have "4 dvd length rs" by (simp add: dvd_def) presburger
  then have "fold (md5_OP f X) (md5_quads rs) w = fold (md5_step f X) rs w" for w
    by (rule 1)
  then show ?case
    using md5_quad [of f X r0 r1 r2 r3 v] by (simp del: md5_OP.simps md5_step.simps)
qed (auto dest!: dvd_imp_le)

lemma md5_CYCLIC_rotl: "0 < s \<Longrightarrow> s < 32 \<Longrightarrow> md5_CYCLIC w s = word_rotl s w"
  using word_rotl_shifts [of s w] by (simp add: md5_CYCLIC_def)

lemma md5_step_rfc:
  assumes "f = rfc_f i" "r = (rfc_k i, rfc_s i, rfc_T ! i)" "i < 64"
  shows "md5_step f X r v = rfc_step X i v"
proof -
  have "i div 16 = 0 \<or> i div 16 = 1 \<or> i div 16 = 2 \<or> i div 16 = 3"
    and "i mod 4 = 0 \<or> i mod 4 = 1 \<or> i mod 4 = 2 \<or> i mod 4 = 3"
    using assms(3) by linarith+
  then have "0 < rfc_s i \<and> rfc_s i < 32"
    unfolding rfc_s_def by (elim disjE) simp_all
  then show ?thesis
    using assms by (cases v) (simp add: md5_CYCLIC_rotl ac_simps)
qed

lemma md5_functions:
  "i < 16 \<Longrightarrow> FF = rfc_f i"
  "16 \<le> i \<Longrightarrow> i < 32 \<Longrightarrow> FG = rfc_f i"
  "32 \<le> i \<Longrightarrow> i < 48 \<Longrightarrow> FH = rfc_f i"
  "48 \<le> i \<Longrightarrow> i < 64 \<Longrightarrow> FI = rfc_f i"
     apply (intro ext bit_word_eqI; auto simp: FF_def FG_def rfc_f_def bit_simps)
    apply (intro ext bit_word_eqI; auto simp: FF_def FG_def rfc_f_def bit_simps)
   apply (intro ext; simp add: FH_def rfc_f_def)
  apply (intro ext; simp add: FI_def rfc_f_def)
  done

definition rfc_row :: "nat \<Rightarrow> nat \<times> nat \<times> u32" where
  "rfc_row i = (rfc_k i, rfc_s i, rfc_T ! i)"

lemma md5_round_rfc:
  assumes "rows = md5_quads (map rfc_row [i..<j])" "4 dvd j - i" "j \<le> 64"
    and "\<And>n. i \<le> n \<Longrightarrow> n < j \<Longrightarrow> f = rfc_f n"
  shows "fold (md5_OP f X) rows v = fold (rfc_step X) [i..<j] v"
proof -
  have step: "fold (md5_step f X) (map rfc_row is) v = fold (rfc_step X) is v"
    if "\<And>n. n \<in> set is \<Longrightarrow> f = rfc_f n \<and> n < 64" for "is" v
    using that
    by (induction "is" arbitrary: v) (simp_all add: md5_step_rfc [OF _ rfc_row_def])
  have "fold (md5_OP f X) rows v = fold (md5_step f X) (map rfc_row [i..<j]) v"
    using assms(1,2) by (simp add: fold_md5_quads)
  also have "\<dots> = fold (rfc_step X) [i..<j] v"
    using assms(3,4) by (intro step) auto
  finally show ?thesis .
qed

lemma md5_round_tables:
  "md5_round1 = md5_quads (map rfc_row [0..<16])"
  "md5_round2 = md5_quads (map rfc_row [16..<32])"
  "md5_round3 = md5_quads (map rfc_row [32..<48])"
  "md5_round4 = md5_quads (map rfc_row [48..<64])"
  by (simp_all add: md5_round1_def md5_round2_def md5_round3_def md5_round4_def rfc_row_def rfc_k_def rfc_s_def rfc_T_def upt_rec)

lemma md5_rounds_rfc: "md5_rounds X v = fold (rfc_step X) [0..<64] v"
proof -
  have "[0..<64] = [0..<16] @ [16..<32] @ [32..<48] @ [48..<(64::nat)]"
    using upt_add_eq_append [of 0 16 48] upt_add_eq_append [of 16 32 32] upt_add_eq_append [of 32 48 16]
    by simp
  then show ?thesis
    by (simp add: md5_rounds_def Let_def md5_functions
      md5_round_rfc [OF md5_round_tables(1)] md5_round_rfc [OF md5_round_tables(2)]
      md5_round_rfc [OF md5_round_tables(3)] md5_round_rfc [OF md5_round_tables(4)])
qed

lemma md5_one_block_rfc: "md5_one_block X v = rfc_compress X v"
  by (cases v) (simp add: md5_rounds_rfc add.commute split: prod.splits)

lemma md5_loop_rfc: "64 dvd length bs \<Longrightarrow> md5_loop (le32_words bs) v = rfc_blocks bs v"
proof (induction "length bs" arbitrary: bs v rule: less_induct)
  case less
  show ?case
  proof (cases "bs = []")
    case True
    then show ?thesis by (simp add: le32_words_def rfc_blocks_def md5_loop.simps)
  next
    case False
    then have "64 \<le> length bs" using less.prems by (auto intro: dvd_imp_le)
    with less.prems False have IH: "md5_loop (le32_words (drop 64 bs)) w = rfc_blocks (drop 64 bs) w" for w
      by (intro less.hyps) auto
    have "le32_words bs \<noteq> []" "drop 16 (le32_words bs) = le32_words (drop 64 bs)"
      "take 16 (le32_words bs) = le32_words (take 64 bs)"
      using False by (simp_all add: le32_words_def chunks_eq_Nil_iff drop_map take_map drop_chunks take_chunks)
    then show ?thesis
      using IH False
      by (simp add: md5_loop.simps [of "le32_words bs"] md5_one_block_rfc rfc_blocks_def chunks_Cons)
  qed
qed

lemma rfc_blocks_append:
  "64 dvd length xs \<Longrightarrow> rfc_blocks (xs @ ys) v = rfc_blocks ys (rfc_blocks xs v)"
  by (simp add: rfc_blocks_def chunks_append)

section \<open>Buffering\<close>

text \<open>\<open>md5_hashed ctx d\<close>: the variables and the byte count are those of the blocks of \<open>d\<close>.\<close>

definition md5_hashed :: "md5_ctx \<Rightarrow> byte list \<Rightarrow> bool" where
  "md5_hashed ctx d \<longleftrightarrow>
     (md5_A ctx, md5_B ctx, md5_C ctx, md5_D ctx) = rfc_blocks d md5_iv \<and>
     unat (md5_total1 ctx) * 2 ^ 32 + unat (md5_total0 ctx) = length d mod 2 ^ 64"

abbreviation md5_absorbed :: "md5_ctx \<Rightarrow> byte list \<Rightarrow> bool" where
  "md5_absorbed \<equiv> block_absorbed 64 md5_hashed md5_buflen md5_buffer"

lemma md5_hashed_frame [simp]:
  "md5_hashed (ctx\<lparr>md5_buffer := x\<rparr>) d = md5_hashed ctx d"
  "md5_hashed (ctx\<lparr>md5_buflen := y\<rparr>) d = md5_hashed ctx d"
  by (simp_all add: md5_hashed_def)

lemma md5_process_block_frame [simp]:
  "md5_buffer (md5_process_block bs n ctx) = md5_buffer ctx"
  "md5_buflen (md5_process_block bs n ctx) = md5_buflen ctx"
  by (simp_all add: md5_process_block_def Let_def split: prod.splits)

text \<open>
  The block function on a whole number of blocks.  The variables and the count are stated apart:
  \<open>md5_finish_ctx\<close> has already counted the message when it hashes the padding.
\<close>

lemma md5_process_block_vars:
  assumes "64 dvd length d" "64 dvd n" "n \<le> length bs"
    and "(md5_A ctx, md5_B ctx, md5_C ctx, md5_D ctx) = rfc_blocks d md5_iv"
    and "ctx' = md5_process_block bs n ctx"
  shows "(md5_A ctx', md5_B ctx', md5_C ctx', md5_D ctx') = rfc_blocks (d @ take n bs) md5_iv"
proof -
  have "4 * (n div 4) = n" using assms(2) by (rule mult_div_of_dvd) simp
  moreover have "md5_loop (le32_words (take n bs)) (md5_A ctx, md5_B ctx, md5_C ctx, md5_D ctx) =
      rfc_blocks (d @ take n bs) md5_iv"
    using assms by (simp add: md5_loop_rfc rfc_blocks_append)
  ultimately show ?thesis
    unfolding assms(5) by (auto simp: md5_process_block_def Let_def split: prod.splits)
qed

lemma md5_hashed_process_block:
  assumes "md5_hashed ctx d" "64 dvd length d" "64 dvd n" "n \<le> length bs"
  shows "md5_hashed (md5_process_block bs n ctx) (d @ take n bs)"
proof -
  have "unat (md5_total1 (md5_process_block bs n ctx)) * 2 ^ 32 + unat (md5_total0 (md5_process_block bs n ctx)) =
     (unat (md5_total1 ctx) * 2 ^ 32 + unat (md5_total0 ctx) + n) mod 2 ^ 64"
    using two_word_add [of _ "md5_total0 ctx" n _ "md5_total1 ctx", OF refl refl]
    by (auto simp: md5_process_block_def Let_def div_mult2_eq [symmetric] split: prod.splits if_splits)
  then show ?thesis
    using assms md5_process_block_vars [OF assms(2-4) _ refl, of ctx]
    by (auto simp: md5_hashed_def mod_simps)
qed

interpretation md5_buf: block_buffer 6 64 md5_hashed md5_process_block md5_buflen
  "\<lambda>n. md5_buflen_update (\<lambda>_. n)" md5_buffer "\<lambda>b. md5_buffer_update (\<lambda>_. b)" 4
  md5_fill md5_unaligned_loop md5_blocks md5_rest
proof unfold_locales
  show "md5_unaligned_loop (a, bs) c = (if 64 < length bs then
      let c = c\<lparr>md5_buffer := store_at (md5_buffer c) 0 (take 64 bs)\<rparr>;
          c = md5_process_block (md5_buffer c) 64 c
      in md5_unaligned_loop (a + 64, drop 64 bs) c else ((a, bs), c))" for a bs c
    by (subst md5_unaligned_loop.simps) simp
qed (simp_all add: md5_fill_def md5_blocks_def md5_rest_def Let_def mask_numeral md5_hashed_process_block)

section \<open>The digest\<close>

lemma md5_finish_count:
  assumes "md5_hashed ctx d" "m = d @ p" "unat (md5_buflen ctx) = length p"
    and "t0 = md5_total0 ctx + md5_buflen ctx"
    and "t1 = (if t0 < md5_buflen ctx then md5_total1 ctx + 1 else md5_total1 ctx)"
  shows "word_le 4 (push_bit 3 t0) @ word_le 4 (push_bit 3 t1 OR drop_bit 29 t0) = rfc_length_field (length m)"
proof -
  have "md5_buflen ctx = of_nat (length p)" "length p < 2 ^ 32"
    using assms(3) unat_lt2p [of "md5_buflen ctx"] by (metis word_unat_eq_iff unat_of_nat mod_less)
       (use assms(3) unat_lt2p [of "md5_buflen ctx"] in simp)
  then have "unat t1 * 2 ^ 32 + unat t0 = (unat (md5_total1 ctx) * 2 ^ 32 + unat (md5_total0 ctx) + length p) mod 2 ^ 64"
    using two_word_add [of t0 "md5_total0 ctx" "length p" t1 "md5_total1 ctx"] assms(4,5)
    by (auto split: if_splits)
  also have "\<dots> = length m mod 2 ^ 64"
    using assms(1,2) by (simp add: md5_hashed_def mod_simps)
  finally show ?thesis
    unfolding rfc_length_field_def by (rule word_le_bits32)
qed

lemma md5_finish_digest:
  assumes "md5_absorbed ctx m"
  shows "snd (md5_finish_ctx ctx) = rfc_md5 m"
    and "length (md5_buffer (fst (md5_finish_ctx ctx))) = 128"
proof -
  obtain d p where c: "m = d @ p" "md5_hashed ctx d" "64 dvd length d" "length p \<le> 64"
    "unat (md5_buflen ctx) = length p" "length (md5_buffer ctx) = 2 * 64" "take (length p) (md5_buffer ctx) = p"
    using assms by (rule block_absorbedE)
  define t0 where "t0 = md5_total0 ctx + md5_buflen ctx"
  define t1 where "t1 = (if t0 < md5_buflen ctx then md5_total1 ctx + 1 else md5_total1 ctx)"
  define L where "L = word_le 4 (push_bit 3 t0) @ word_le 4 (push_bit 3 t1 OR drop_bit 29 t0)"
  have L: "L = rfc_length_field (length m)"
    unfolding L_def by (rule md5_finish_count [OF c(2,1,5) t0_def t1_def])
  have len: "length L = 8" by (simp add: L_def)
  define pad where "pad = (if length p \<ge> 64 - 8 then 2 * 64 - 8 - length p else 64 - 8 - length p)"
  define F where "F = take pad (0x80 # replicate (64 - 1) (0 :: byte))"
  define B where "B = store_at (md5_buffer ctx) (length p) (F @ L)"
  note fin = finish_buffer [where enc = rfc_length_field, OF c(1,3,4) _ c(6,7) L len pad_def F_def B_def, simplified]
  have "4 dvd length p + pad + 8" using fin(2) by (rule dvd_trans [rotated]) simp
  then have "4 dvd length p + pad" using dvd_diff_nat [of 4 "length p + pad + 8" 8] by simp
  then have x: "4 * ((length p + pad) div 4) = length p + pad" "4 * ((length p + pad + 4) div 4) = length p + pad + 4"
    by (auto simp: dvd_mult_div_cancel)
  have pad: "(if 56 \<le> md5_buflen ctx then 64 + 56 - length p else 56 - length p) = pad"
    using c(5) by (simp add: pad_def word_le_nat_alt)
  have fill: "take pad md5_fillbuf = F"
    by (simp add: F_def md5_fillbuf_def)
  have buf: "store_at (store_at (store_at (md5_buffer ctx) (length p) F) (length p + pad)
      (word_le 4 (push_bit 3 t0))) (length p + pad + 4) (word_le 4 (push_bit 3 t1 OR drop_bit 29 t0)) = B"
    using c(6) fin(5,6) len by (simp add: B_def L_def store_at_append)
  have eq: "md5_finish_ctx ctx = (let c = md5_process_block B (length p + pad + 8)
        (ctx\<lparr>md5_total0 := t0, md5_total1 := t1, md5_buffer := B\<rparr>) in (c, md5_read_ctx c))"
    unfolding md5_finish_ctx_def Let_def c(5) pad fill x t0_def [symmetric] t1_def [symmetric] buf ..
  show "snd (md5_finish_ctx ctx) = rfc_md5 m"
    using md5_process_block_vars [OF c(3) fin(2) _ _ refl, of B] c(2) fin
    by (simp add: eq Let_def md5_hashed_def rfc_md5_def md5_read_ctx_def flip: rfc_output.simps)
  show "length (md5_buffer (fst (md5_finish_ctx ctx))) = 128"
    using fin by (simp add: eq Let_def)
qed

lemma md5_process_bytes_absorbed:
  assumes "md5_absorbed ctx m" "length bs < 2 ^ 64"
  shows "md5_absorbed (md5_process_bytes (a, bs) ctx) (m @ bs)"
  using md5_buf.process_bytes_absorbed [OF assms, of a]
  by (auto simp: md5_process_bytes_def split: prod.splits)

interpretation md5: hash_stream "\<lambda>ctx. length (md5_buffer ctx) = 128" md5_init_ctx md5_process_bytes
  md5_finish_ctx md5_absorbed rfc_md5
proof
  show "length (md5_buffer c) = 128 \<Longrightarrow> md5_absorbed (md5_init_ctx c) []" for c
    by (simp add: block_absorbed_def md5_hashed_def md5_init_ctx_def rfc_blocks_def md5_iv_def)
  show "md5_absorbed c m \<Longrightarrow> length (md5_buffer c) = 128" for c m
    by (auto elim!: block_absorbedE)
qed (simp_all add: md5_process_bytes_absorbed md5_finish_digest)

text \<open>
  C1. MD5 is the function of RFC 1321 however the message is cut: a context that is initialised,
  fed any sequence of buffers at any addresses, and finished gives the RFC digest of their
  concatenation.
\<close>

theorem md5_chunks_rfc:
  assumes "length (md5_buffer ctx) = 128" "\<forall>b \<in> set inputs. length (snd b) < 2 ^ 64"
  shows "snd (md5_finish_ctx (fold md5_process_bytes inputs (md5_init_ctx ctx))) =
    rfc_md5 (concat (map snd inputs))"
  using assms by (rule md5.digest_updates)

theorem md5_chunks_rfc_witness:
  "snd (md5_finish_ctx (fold md5_process_bytes [(1, [0x61]), (3, []), (2, replicate 100 0x62)]
     (md5_init_ctx \<lparr>md5_A = 0, md5_B = 0, md5_C = 0, md5_D = 0, md5_total0 = 1, md5_total1 = 2,
        md5_buflen = 77, md5_buffer = replicate 128 3\<rparr>))) =
   rfc_md5 (0x61 # replicate 100 0x62)"
  using md5_chunks_rfc [of "\<lparr>md5_A = 0, md5_B = 0, md5_C = 0, md5_D = 0, md5_total0 = 1, md5_total1 = 2,
        md5_buflen = 77, md5_buffer = replicate 128 3\<rparr>" "[(1, [0x61]), (3, []), (2, replicate 100 0x62)]"]
  by (simp del: fold_simps)

end
