(* ===== verification/Sha256.thy ===== *)
theory Sha256
  imports Block_Buffer
begin

text \<open>
  SHA-256 (\<open>crypt/sha256.c\<close>, \<open>crypt/sha256-block.c\<close>, \<open>crypt/sha256.h\<close>): the context, the
  block function with its message schedule, the buffering and the padding.  The reference
  is FIPS 180-2, with the schedule as a recursive function of the round.
\<close>

section \<open>Data\<close>

text \<open>\<open>struct sha256_ctx\<close>; the unions of \<open>total\<close> and of \<open>buffer\<close> are a 64-bit number and an array of bytes.\<close>

record sha256_ctx =
  sha256_H :: "u32 list"
  sha256_total :: "64 word"
  sha256_buflen :: u32
  sha256_buffer :: "byte list"

definition sha256_fillbuf :: "byte list" where
  "sha256_fillbuf = 0x80 # replicate 63 0"

text \<open>One inner list for each line of the table in the source.\<close>

definition sha256_K :: "u32 list" where
  "sha256_K = concat [
    [0x428a2f98, 0x71374491, 0xb5c0fbcf, 0xe9b5dba5], [0x3956c25b, 0x59f111f1, 0x923f82a4, 0xab1c5ed5],
    [0xd807aa98, 0x12835b01, 0x243185be, 0x550c7dc3], [0x72be5d74, 0x80deb1fe, 0x9bdc06a7, 0xc19bf174],
    [0xe49b69c1, 0xefbe4786, 0x0fc19dc6, 0x240ca1cc], [0x2de92c6f, 0x4a7484aa, 0x5cb0a9dc, 0x76f988da],
    [0x983e5152, 0xa831c66d, 0xb00327c8, 0xbf597fc7], [0xc6e00bf3, 0xd5a79147, 0x06ca6351, 0x14292967],
    [0x27b70a85, 0x2e1b2138, 0x4d2c6dfc, 0x53380d13], [0x650a7354, 0x766a0abb, 0x81c2c92e, 0x92722c85],
    [0xa2bfe8a1, 0xa81a664b, 0xc24b8b70, 0xc76c51a3], [0xd192e819, 0xd6990624, 0xf40e3585, 0x106aa070],
    [0x19a4c116, 0x1e376c08, 0x2748774c, 0x34b0bcb5], [0x391c0cb3, 0x4ed8aa4a, 0x5b9cca4f, 0x682e6ff3],
    [0x748f82ee, 0x78a5636f, 0x84c87814, 0x8cc70208], [0x90befffa, 0xa4506ceb, 0xbef9a3f7, 0xc67178f2]]"

section \<open>The block function\<close>

definition sha256_CYCLIC :: "u32 \<Rightarrow> nat \<Rightarrow> u32" where
  "sha256_CYCLIC w s = drop_bit s w OR push_bit (32 - s) w"

definition sha256_Ch :: "u32 \<Rightarrow> u32 \<Rightarrow> u32 \<Rightarrow> u32" where
  "sha256_Ch x y z = (x AND y) XOR (NOT x AND z)"

definition sha256_Maj :: "u32 \<Rightarrow> u32 \<Rightarrow> u32 \<Rightarrow> u32" where
  "sha256_Maj x y z = (x AND y) XOR (x AND z) XOR (y AND z)"

definition sha256_S0 :: "u32 \<Rightarrow> u32" where
  "sha256_S0 x = sha256_CYCLIC x 2 XOR sha256_CYCLIC x 13 XOR sha256_CYCLIC x 22"

definition sha256_S1 :: "u32 \<Rightarrow> u32" where
  "sha256_S1 x = sha256_CYCLIC x 6 XOR sha256_CYCLIC x 11 XOR sha256_CYCLIC x 25"

definition sha256_R0 :: "u32 \<Rightarrow> u32" where
  "sha256_R0 x = sha256_CYCLIC x 7 XOR sha256_CYCLIC x 18 XOR drop_bit 3 x"

definition sha256_R1 :: "u32 \<Rightarrow> u32" where
  "sha256_R1 x = sha256_CYCLIC x 17 XOR sha256_CYCLIC x 19 XOR drop_bit 10 x"

text \<open>\<open>SWAP\<close> turns the little-endian word that the machine reads into the big-endian one.\<close>

definition sha256_SWAP :: "u32 \<Rightarrow> u32" where
  "sha256_SWAP n = bswap_32 n"

text \<open>The two loops that fill \<open>W\<close>: the array holds the entries written so far.\<close>

definition sha256_extend :: "u32 list \<Rightarrow> nat \<Rightarrow> u32 list" where
  "sha256_extend W t =
     W @ [sha256_R1 (W ! (t - 2)) + W ! (t - 7) + sha256_R0 (W ! (t - 15)) + W ! (t - 16)]"

definition sha256_schedule :: "u32 list \<Rightarrow> u32 list" where
  "sha256_schedule words =
     (let W = map sha256_SWAP (take 16 words) in foldl sha256_extend W [16..<64])"

text \<open>The loop over the rounds, on the variables \<open>a\<close> to \<open>h\<close>.\<close>

type_synonym sha256_vars = "u32 \<times> u32 \<times> u32 \<times> u32 \<times> u32 \<times> u32 \<times> u32 \<times> u32"

fun sha256_round :: "u32 list \<Rightarrow> nat \<Rightarrow> sha256_vars \<Rightarrow> sha256_vars" where
  "sha256_round W t (a, b, c, d, e, f, g, h) =
     (let T1 = h + sha256_S1 e + sha256_Ch e f g + sha256_K ! t + W ! t;
          T2 = sha256_S0 a + sha256_Maj a b c;
          h = g;
          g = f;
          f = e;
          e = d + T1;
          d = c;
          c = b;
          b = a;
          a = T1 + T2
      in (a, b, c, d, e, f, g, h))"

fun sha256_one_block :: "u32 list \<Rightarrow> sha256_vars \<Rightarrow> sha256_vars" where
  "sha256_one_block words (a, b, c, d, e, f, g, h) =
     (let W = sha256_schedule words;
          (a', b', c', d', e', f', g', h') = fold (sha256_round W) [0..<64] (a, b, c, d, e, f, g, h)
      in (a' + a, b' + b, c' + c, d' + d, e' + e, f' + f, g' + g, h' + h))"

definition le_words256 :: "byte list \<Rightarrow> u32 list" where
  "le_words256 bs = map le_word (chunks 4 bs)"

function sha256_loop :: "u32 list \<Rightarrow> sha256_vars \<Rightarrow> sha256_vars" where
  "sha256_loop words v =
     (if words = [] then v else sha256_loop (drop 16 words) (sha256_one_block words v))"
  by pat_completeness auto
termination
  by (relation "measure (\<lambda>(words, v). length words)") auto

declare sha256_loop.simps [simp del]

fun sha256_list :: "sha256_vars \<Rightarrow> u32 list" where
  "sha256_list (a, b, c, d, e, f, g, h) = [a, b, c, d, e, f, g, h]"

definition sha256_vars_of :: "u32 list \<Rightarrow> sha256_vars" where
  "sha256_vars_of H = (H ! 0, H ! 1, H ! 2, H ! 3, H ! 4, H ! 5, H ! 6, H ! 7)"

definition sha256_process_block :: "byte list \<Rightarrow> nat \<Rightarrow> sha256_ctx \<Rightarrow> sha256_ctx" where
  "sha256_process_block buffer len ctx =
     (let nwords = len div 4;
          words = le_words256 (take (4 * nwords) buffer);
          v = sha256_vars_of (sha256_H ctx);
          total = sha256_total ctx + of_nat len;
          v = sha256_loop words v
      in ctx\<lparr>sha256_total := total, sha256_H := sha256_list v\<rparr>)"

section \<open>The context functions\<close>

definition sha256_init_ctx :: "sha256_ctx \<Rightarrow> sha256_ctx" where
  "sha256_init_ctx ctx = ctx\<lparr>sha256_H :=
    [0x6a09e667, 0xbb67ae85, 0x3c6ef372, 0xa54ff53a,
     0x510e527f, 0x9b05688c, 0x1f83d9ab, 0x5be0cd19],
    sha256_total := 0, sha256_buflen := 0\<rparr>"

definition sha256_finish_ctx :: "sha256_ctx \<Rightarrow> sha256_ctx \<times> byte list" where
  "sha256_finish_ctx ctx =
     (let bytes = sha256_buflen ctx;
          total = sha256_total ctx + ucast bytes;
          pad = (if bytes \<ge> 56 then 64 + 56 - unat bytes else 56 - unat bytes);
          buffer = store_at (sha256_buffer ctx) (unat bytes) (take pad sha256_fillbuf);
          total_low = ucast total :: u32;
          total_high = ucast (drop_bit 32 total) :: u32;
          buffer = store_at buffer (4 * ((unat bytes + pad + 4) div 4))
                     (word_le 4 (sha256_SWAP (push_bit 3 total_low)));
          buffer = store_at buffer (4 * ((unat bytes + pad) div 4))
                     (word_le 4 (sha256_SWAP (push_bit 3 total_high OR drop_bit 29 total_low)));
          ctx = ctx\<lparr>sha256_total := total, sha256_buffer := buffer\<rparr>;
          ctx = sha256_process_block buffer (unat bytes + pad + 8) ctx
      in (ctx, concat (map (\<lambda>i. word_le 4 (sha256_SWAP (sha256_H ctx ! i))) [0..<8])))"

text \<open>\<open>__sha256_process_bytes\<close>, one definition for each of its three parts.\<close>

definition sha256_fill :: "nat \<times> byte list \<Rightarrow> sha256_ctx \<Rightarrow> (nat \<times> byte list) \<times> sha256_ctx" where
  "sha256_fill buffer ctx =
     (if sha256_buflen ctx \<noteq> 0 then
        (let left_over = unat (sha256_buflen ctx);
             len = length (snd buffer);
             add = (if 128 - left_over > len then len else 128 - left_over);
             ctx = ctx\<lparr>sha256_buffer := store_at (sha256_buffer ctx) left_over (take add (snd buffer)),
                       sha256_buflen := sha256_buflen ctx + of_nat add\<rparr>;
             ctx = (if sha256_buflen ctx > 64 then
                      (let ctx = sha256_process_block (sha256_buffer ctx) (unat (sha256_buflen ctx AND NOT 63)) ctx;
                           ctx = ctx\<lparr>sha256_buflen := sha256_buflen ctx AND 63\<rparr>;
                           off = unat ((of_nat (left_over + add) :: u64) AND NOT 63)
                       in ctx\<lparr>sha256_buffer := store_at (sha256_buffer ctx) 0
                                 (take (unat (sha256_buflen ctx)) (drop off (sha256_buffer ctx)))\<rparr>)
                    else ctx)
         in ((fst buffer + add, drop add (snd buffer)), ctx))
      else (buffer, ctx))"

function sha256_unaligned_loop :: "nat \<times> byte list \<Rightarrow> sha256_ctx \<Rightarrow> (nat \<times> byte list) \<times> sha256_ctx" where
  "sha256_unaligned_loop buffer ctx =
     (if length (snd buffer) > 64 then
        (let ctx = ctx\<lparr>sha256_buffer := store_at (sha256_buffer ctx) 0 (take 64 (snd buffer))\<rparr>;
             ctx = sha256_process_block (sha256_buffer ctx) 64 ctx
         in sha256_unaligned_loop (fst buffer + 64, drop 64 (snd buffer)) ctx)
      else (buffer, ctx))"
  by pat_completeness auto
termination
  by (relation "measure (\<lambda>(buffer, ctx). length (snd buffer))") auto

declare sha256_unaligned_loop.simps [simp del]

definition sha256_blocks :: "nat \<times> byte list \<Rightarrow> sha256_ctx \<Rightarrow> (nat \<times> byte list) \<times> sha256_ctx" where
  "sha256_blocks buffer ctx =
     (let len = length (snd buffer) in
      if len \<ge> 64 then
        (if fst buffer mod 4 \<noteq> 0 then sha256_unaligned_loop buffer ctx
         else (let n = unat ((of_nat len :: u64) AND NOT 63)
               in ((fst buffer + n, drop n (snd buffer)), sha256_process_block (snd buffer) n ctx)))
      else (buffer, ctx))"

definition sha256_rest :: "nat \<times> byte list \<Rightarrow> sha256_ctx \<Rightarrow> sha256_ctx" where
  "sha256_rest buffer ctx =
     (let len = length (snd buffer) in
      if len > 0 then
        (let left_over = unat (sha256_buflen ctx);
             ctx = ctx\<lparr>sha256_buffer := store_at (sha256_buffer ctx) left_over (snd buffer)\<rparr>;
             left_over = left_over + len
         in if left_over \<ge> 64 then
              (let ctx = sha256_process_block (sha256_buffer ctx) 64 ctx;
                   left_over = left_over - 64
               in ctx\<lparr>sha256_buffer := store_at (sha256_buffer ctx) 0 (take left_over (drop 64 (sha256_buffer ctx))),
                      sha256_buflen := of_nat left_over\<rparr>)
            else ctx\<lparr>sha256_buflen := of_nat left_over\<rparr>)
      else ctx)"

definition sha256_process_bytes :: "nat \<times> byte list \<Rightarrow> sha256_ctx \<Rightarrow> sha256_ctx" where
  "sha256_process_bytes buffer ctx =
     (let (buffer, ctx) = sha256_fill buffer ctx;
          (buffer, ctx) = sha256_blocks buffer ctx
      in sha256_rest buffer ctx)"

section \<open>FIPS 180-2\<close>

text \<open>The reference: the functions with rotations, the schedule as a recursive function of the round.\<close>

definition fips256_Sigma0 :: "u32 \<Rightarrow> u32" where
  "fips256_Sigma0 x = word_rotr 2 x XOR word_rotr 13 x XOR word_rotr 22 x"

definition fips256_Sigma1 :: "u32 \<Rightarrow> u32" where
  "fips256_Sigma1 x = word_rotr 6 x XOR word_rotr 11 x XOR word_rotr 25 x"

definition fips256_sigma0 :: "u32 \<Rightarrow> u32" where
  "fips256_sigma0 x = word_rotr 7 x XOR word_rotr 18 x XOR drop_bit 3 x"

definition fips256_sigma1 :: "u32 \<Rightarrow> u32" where
  "fips256_sigma1 x = word_rotr 17 x XOR word_rotr 19 x XOR drop_bit 10 x"

function fips256_W :: "u32 list \<Rightarrow> nat \<Rightarrow> u32" where
  "fips256_W M t =
     (if t < 16 then M ! t
      else fips256_sigma1 (fips256_W M (t - 2)) + fips256_W M (t - 7) +
           fips256_sigma0 (fips256_W M (t - 15)) + fips256_W M (t - 16))"
  by pat_completeness auto
termination
  by (relation "measure snd") auto

declare fips256_W.simps [simp del]

fun fips256_round :: "u32 list \<Rightarrow> nat \<Rightarrow> sha256_vars \<Rightarrow> sha256_vars" where
  "fips256_round M t (a, b, c, d, e, f, g, h) =
     (let T1 = h + fips256_Sigma1 e + ((e AND f) XOR (NOT e AND g)) + sha256_K ! t + fips256_W M t;
          T2 = fips256_Sigma0 a + ((a AND b) XOR (a AND c) XOR (b AND c))
      in (T1 + T2, a, b, c, d + T1, e, f, g))"

fun fips256_compress :: "u32 list \<Rightarrow> sha256_vars \<Rightarrow> sha256_vars" where
  "fips256_compress M (a, b, c, d, e, f, g, h) =
     (let (a', b', c', d', e', f', g', h') = fold (fips256_round M) [0..<64] (a, b, c, d, e, f, g, h)
      in (a + a', b + b', c + c', d + d', e + e', f + f', g + g', h + h'))"

definition fips256_words :: "byte list \<Rightarrow> u32 list" where
  "fips256_words b = map be_word (chunks 4 b)"

definition fips256_blocks :: "byte list \<Rightarrow> sha256_vars \<Rightarrow> sha256_vars" where
  "fips256_blocks bs v = fold (\<lambda>b. fips256_compress (fips256_words b)) (chunks 64 bs) v"

definition fips256_iv :: sha256_vars where
  "fips256_iv =
    (0x6a09e667, 0xbb67ae85, 0x3c6ef372, 0xa54ff53a,
     0x510e527f, 0x9b05688c, 0x1f83d9ab, 0x5be0cd19)"

definition fips256_length_field :: "nat \<Rightarrow> byte list" where
  "fips256_length_field n = word_be 8 (of_nat (8 * n) :: 64 word)"

definition fips_sha256 :: "byte list \<Rightarrow> byte list" where
  "fips_sha256 m =
     concat (map (word_be 4) (sha256_list (fips256_blocks (md_pad 64 8 fips256_length_field m) fips256_iv)))"

section \<open>The block function computes the standard's\<close>

lemma sha256_CYCLIC_rotr: "0 < s \<Longrightarrow> s < 32 \<Longrightarrow> sha256_CYCLIC w s = word_rotr s w"
  using word_rotr_shifts [of s w] by (simp add: sha256_CYCLIC_def)

lemmas sha256_fips_functions =
  sha256_S0_def sha256_S1_def sha256_R0_def sha256_R1_def sha256_Ch_def sha256_Maj_def
  fips256_Sigma0_def fips256_Sigma1_def fips256_sigma0_def fips256_sigma1_def sha256_CYCLIC_rotr

lemma word_le_sha256_SWAP: "word_le 4 (sha256_SWAP w) = word_be 4 w"
  by (simp add: sha256_SWAP_def word_images)

lemma sha256_SWAP_le_word: "length bs = 4 \<Longrightarrow> sha256_SWAP (le_word bs) = be_word bs"
  by (simp add: sha256_SWAP_def word_images)

lemma sha256_schedule_fips:
  assumes "length M = 16" "16 \<le> n"
  shows "length (foldl sha256_extend M [16..<n]) = n \<and>
    (\<forall>t < n. foldl sha256_extend M [16..<n] ! t = fips256_W M t)"
  using assms(2)
proof (induction n rule: dec_induct)
  case base
  then show ?case using assms(1) by (simp add: fips256_W.simps)
next
  case (step n)
  then show ?case
    by (auto simp: sha256_extend_def nth_append less_Suc_eq fips256_W.simps [of M n] sha256_fips_functions)
qed

lemma sha256_one_block_fips:
  assumes "16 \<le> length words"
  shows "sha256_one_block words v = fips256_compress (map sha256_SWAP (take 16 words)) v"
proof -
  let ?M = "map sha256_SWAP (take 16 words)"
  have W: "sha256_schedule words ! t = fips256_W ?M t" if "t < 64" for t
    using sha256_schedule_fips [of ?M 64] assms that by (simp add: sha256_schedule_def)
  have "sha256_round (sha256_schedule words) t u = fips256_round ?M t u" if "t < 64" for t u
    using W [OF that] by (cases u rule: sha256_list.cases) (simp add: sha256_fips_functions)
  then have "fold (sha256_round (sha256_schedule words)) [0..<64] u = fold (fips256_round ?M) [0..<64] u" for u
    by (intro fold_cong) (auto intro!: ext)
  then show ?thesis
    by (cases v rule: sha256_list.cases) (simp add: add.commute split: prod.splits)
qed

lemma sha256_words_fips:
  assumes "4 dvd length bs"
  shows "map sha256_SWAP (le_words256 bs) = fips256_words bs"
proof -
  have "length b = 4" if "b \<in> set (chunks 4 bs)" for b
    using assms that by (rule length_chunks)
  then show ?thesis
    by (simp add: le_words256_def fips256_words_def sha256_SWAP_le_word)
qed

lemma sha256_loop_fips: "64 dvd length bs \<Longrightarrow> sha256_loop (le_words256 bs) v = fips256_blocks bs v"
proof (induction "length bs" arbitrary: bs v rule: less_induct)
  case less
  show ?case
  proof (cases "bs = []")
    case True
    then show ?thesis by (simp add: le_words256_def fips256_blocks_def sha256_loop.simps)
  next
    case False
    then have len: "64 \<le> length bs" using less.prems by (auto intro: dvd_imp_le)
    with less.prems False have IH: "sha256_loop (le_words256 (drop 64 bs)) w = fips256_blocks (drop 64 bs) w" for w
      by (intro less.hyps) auto
    have words: "le_words256 bs \<noteq> []" "drop 16 (le_words256 bs) = le_words256 (drop 64 bs)"
      "take 16 (le_words256 bs) = le_words256 (take 64 bs)"
      using False by (simp_all add: le_words256_def chunks_eq_Nil_iff drop_map take_map drop_chunks take_chunks)
    have "length (le_words256 (take 64 bs)) = 16"
      using len length_chunks_count [of 4 "take 64 bs"] by (simp add: le_words256_def)
    then have "16 \<le> length (le_words256 bs)"
      by (metis length_take min.cobounded1 words(3))
    moreover have "map sha256_SWAP (le_words256 (take 64 bs)) = fips256_words (take 64 bs)"
      using len by (intro sha256_words_fips) simp
    ultimately show ?thesis
      using IH False words
      by (simp add: sha256_loop.simps [of "le_words256 bs"] sha256_one_block_fips fips256_blocks_def chunks_Cons)
  qed
qed

lemma fips256_blocks_append:
  "64 dvd length xs \<Longrightarrow> fips256_blocks (xs @ ys) v = fips256_blocks ys (fips256_blocks xs v)"
  by (simp add: fips256_blocks_def chunks_append)

section \<open>Buffering\<close>

text \<open>\<open>sha256_hashed ctx d\<close>: the hash value and the byte count are those of the blocks of \<open>d\<close>.\<close>

definition sha256_hashed :: "sha256_ctx \<Rightarrow> byte list \<Rightarrow> bool" where
  "sha256_hashed ctx d \<longleftrightarrow>
     sha256_H ctx = sha256_list (fips256_blocks d fips256_iv) \<and> sha256_total ctx = of_nat (length d)"

abbreviation sha256_absorbed :: "sha256_ctx \<Rightarrow> byte list \<Rightarrow> bool" where
  "sha256_absorbed \<equiv> block_absorbed 64 sha256_hashed sha256_buflen sha256_buffer"

lemma sha256_hashed_frame [simp]:
  "sha256_hashed (ctx\<lparr>sha256_buffer := x\<rparr>) d = sha256_hashed ctx d"
  "sha256_hashed (ctx\<lparr>sha256_buflen := y\<rparr>) d = sha256_hashed ctx d"
  by (simp_all add: sha256_hashed_def)

lemma sha256_process_block_frame [simp]:
  "sha256_buffer (sha256_process_block bs n ctx) = sha256_buffer ctx"
  "sha256_buflen (sha256_process_block bs n ctx) = sha256_buflen ctx"
  by (simp_all add: sha256_process_block_def Let_def)

lemma sha256_vars_of_list [simp]: "sha256_vars_of (sha256_list v) = v"
  by (cases v rule: sha256_list.cases) (simp add: sha256_vars_of_def)

lemma sha256_process_block_H:
  assumes "64 dvd length d" "64 dvd n" "n \<le> length bs"
    and "sha256_H ctx = sha256_list (fips256_blocks d fips256_iv)"
  shows "sha256_H (sha256_process_block bs n ctx) = sha256_list (fips256_blocks (d @ take n bs) fips256_iv)"
proof -
  have "4 * (n div 4) = n" using assms(2) by (rule mult_div_of_dvd) simp
  then show ?thesis
    using assms by (simp add: sha256_process_block_def Let_def sha256_loop_fips fips256_blocks_append)
qed

lemma sha256_hashed_process_block:
  assumes "sha256_hashed ctx d" "64 dvd length d" "64 dvd n" "n \<le> length bs"
  shows "sha256_hashed (sha256_process_block bs n ctx) (d @ take n bs)"
  using assms sha256_process_block_H [OF assms(2-4), of ctx]
  by (simp add: sha256_hashed_def) (simp add: sha256_process_block_def Let_def)

interpretation sha256_buf: block_buffer 6 64 sha256_hashed sha256_process_block sha256_buflen
  "\<lambda>n. sha256_buflen_update (\<lambda>_. n)" sha256_buffer "\<lambda>b. sha256_buffer_update (\<lambda>_. b)" 4
  sha256_fill sha256_unaligned_loop sha256_blocks sha256_rest
proof unfold_locales
  show "sha256_unaligned_loop (a, bs) c = (if 64 < length bs then
      let c = c\<lparr>sha256_buffer := store_at (sha256_buffer c) 0 (take 64 bs)\<rparr>;
          c = sha256_process_block (sha256_buffer c) 64 c
      in sha256_unaligned_loop (a + 64, drop 64 bs) c else ((a, bs), c))" for a bs c
    by (subst sha256_unaligned_loop.simps) simp
qed (simp_all add: sha256_fill_def sha256_blocks_def sha256_rest_def Let_def mask_numeral sha256_hashed_process_block)

lemma sha256_process_bytes_absorbed:
  assumes "sha256_absorbed ctx m" "length bs < 2 ^ 64"
  shows "sha256_absorbed (sha256_process_bytes (a, bs) ctx) (m @ bs)"
  using sha256_buf.process_bytes_absorbed [OF assms, of a]
  by (auto simp: sha256_process_bytes_def split: prod.splits)

section \<open>The digest\<close>

lemma sha256_length_image:
  fixes tot :: "64 word" and low high :: u32
  assumes "low = ucast tot" "high = ucast (drop_bit 32 tot)"
  shows "word_le 4 (sha256_SWAP (push_bit 3 high OR drop_bit 29 low)) @
      word_le 4 (sha256_SWAP (push_bit 3 low)) = word_be 8 (push_bit 3 tot)"
proof -
  have "word_le 4 (push_bit 3 low) = word_le 4 (push_bit 3 tot)"
    and "word_le 4 (push_bit 3 high OR drop_bit 29 low) = word_le 4 (drop_bit 32 (push_bit 3 tot))"
    unfolding assms by (rule word_le_cong; auto simp: bit_simps)+
  then show ?thesis
    using word_le_append [of 4 4 "push_bit 3 tot"] by (simp add: word_le_sha256_SWAP word_be_def)
qed

lemma sha256_output:
  "concat (map (\<lambda>i. word_be 4 (sha256_list v ! i)) [0..<8]) = concat (map (word_be 4) (sha256_list v))"
  by (cases v rule: sha256_list.cases) (simp add: upt_rec)

lemma sha256_finish_digest:
  assumes "sha256_absorbed ctx m"
  shows "snd (sha256_finish_ctx ctx) = fips_sha256 m"
    and "length (sha256_buffer (fst (sha256_finish_ctx ctx))) = 128"
proof -
  obtain d p where c: "m = d @ p" "sha256_hashed ctx d" "64 dvd length d" "length p \<le> 64"
    "unat (sha256_buflen ctx) = length p" "length (sha256_buffer ctx) = 2 * 64" "take (length p) (sha256_buffer ctx) = p"
    using assms by (rule block_absorbedE)
  define tot where "tot = sha256_total ctx + ucast (sha256_buflen ctx)"
  have "ucast (sha256_buflen ctx) = (of_nat (length p) :: 64 word)"
    using c(5) by (metis of_nat_unat)
  then have tot: "tot = of_nat (length m)"
    using c(1,2) by (simp add: tot_def sha256_hashed_def)
  define L where "L =
      word_le 4 (sha256_SWAP (push_bit 3 (ucast (drop_bit 32 tot)) OR drop_bit 29 (ucast tot))) @
      word_le 4 (sha256_SWAP (push_bit 3 (ucast tot)))"
  have L: "L = fips256_length_field (length m)"
    unfolding L_def sha256_length_image [OF refl refl]
    by (simp add: fips256_length_field_def tot push_bit_eq_mult mult.commute)
  have len: "length L = 8" by (simp add: L_def)
  define pad where "pad = (if length p \<ge> 64 - 8 then 2 * 64 - 8 - length p else 64 - 8 - length p)"
  define F where "F = take pad (0x80 # replicate (64 - 1) (0 :: byte))"
  define B where "B = store_at (sha256_buffer ctx) (length p) (F @ L)"
  note fin = finish_buffer [where enc = fips256_length_field, OF c(1,3,4) _ c(6,7) L len pad_def F_def B_def, simplified]
  have "4 dvd length p + pad + 8" using fin(2) by (rule dvd_trans [rotated]) simp
  then have "4 dvd length p + pad" using dvd_diff_nat [of 4 "length p + pad + 8" 8] by simp
  then have x: "4 * ((length p + pad) div 4) = length p + pad"
    "4 * ((length p + pad + 4) div 4) = length p + pad + 4"
    by (auto simp: dvd_mult_div_cancel)
  have pad: "(if 56 \<le> sha256_buflen ctx then 64 + 56 - length p else 56 - length p) = pad"
    using c(5) by (simp add: pad_def word_le_nat_alt)
  have fill: "take pad sha256_fillbuf = F"
    by (simp add: F_def sha256_fillbuf_def)
  have buf: "store_at (store_at (store_at (sha256_buffer ctx) (length p) F) (length p + pad + 4)
      (word_le 4 (sha256_SWAP (push_bit 3 (ucast tot))))) (length p + pad)
      (word_le 4 (sha256_SWAP (push_bit 3 (ucast (drop_bit 32 tot)) OR drop_bit 29 (ucast tot)))) = B"
    using c(6) fin(5,6) len by (simp add: B_def L_def store_at_append store_at_prepend)
  have eq: "sha256_finish_ctx ctx = (let c = sha256_process_block B (length p + pad + 8)
        (ctx\<lparr>sha256_total := tot, sha256_buffer := B\<rparr>)
      in (c, concat (map (\<lambda>i. word_le 4 (sha256_SWAP (sha256_H c ! i))) [0..<8])))"
    unfolding sha256_finish_ctx_def Let_def c(5) pad fill x tot_def [symmetric] buf ..
  show "snd (sha256_finish_ctx ctx) = fips_sha256 m"
    using sha256_process_block_H [OF c(3) fin(2), of B "ctx\<lparr>sha256_total := tot, sha256_buffer := B\<rparr>"] c(2) fin
    by (simp add: eq Let_def sha256_hashed_def fips_sha256_def word_le_sha256_SWAP sha256_output)
  show "length (sha256_buffer (fst (sha256_finish_ctx ctx))) = 128"
    using fin by (simp add: eq Let_def)
qed

interpretation sha256: hash_stream "\<lambda>ctx. length (sha256_buffer ctx) = 128" sha256_init_ctx
  sha256_process_bytes sha256_finish_ctx sha256_absorbed fips_sha256
proof
  show "length (sha256_buffer c) = 128 \<Longrightarrow> sha256_absorbed (sha256_init_ctx c) []" for c
    by (simp add: block_absorbed_def sha256_hashed_def sha256_init_ctx_def fips256_blocks_def fips256_iv_def)
  show "sha256_absorbed c m \<Longrightarrow> length (sha256_buffer c) = 128" for c m
    by (auto elim!: block_absorbedE)
qed (simp_all add: sha256_process_bytes_absorbed sha256_finish_digest)

text \<open>
  C2. SHA-256 is the function of FIPS 180-2 however the message is cut: a context that is
  initialised, fed any sequence of buffers at any addresses, and finished gives the FIPS digest
  of their concatenation.
\<close>

theorem sha256_chunks_fips:
  assumes "length (sha256_buffer ctx) = 128" "\<forall>b \<in> set inputs. length (snd b) < 2 ^ 64"
  shows "snd (sha256_finish_ctx (fold sha256_process_bytes inputs (sha256_init_ctx ctx))) =
    fips_sha256 (concat (map snd inputs))"
  using assms by (rule sha256.digest_updates)

theorem sha256_chunks_fips_witness:
  "snd (sha256_finish_ctx (fold sha256_process_bytes [(1, [0x61]), (3, []), (2, replicate 200 0x62)]
     (sha256_init_ctx \<lparr>sha256_H = [], sha256_total = 1, sha256_buflen = 77, sha256_buffer = replicate 128 3\<rparr>))) =
   fips_sha256 (0x61 # replicate 200 0x62)"
  using sha256_chunks_fips [of "\<lparr>sha256_H = [], sha256_total = 1, sha256_buflen = 77, sha256_buffer = replicate 128 3\<rparr>"
    "[(1, [0x61]), (3, []), (2, replicate 200 0x62)]"]
  by (simp del: fold_simps)

end
