(* ===== verification/Sha512.thy ===== *)
theory Sha512
  imports Block_Buffer
begin

text \<open>
  SHA-512 (\<open>crypt/sha512.c\<close>, \<open>crypt/sha512-block.c\<close>, \<open>crypt/sha512.h\<close>): the context, the
  block function with its message schedule, the buffering and the padding.  The reference
  is FIPS 180-2, with the schedule as a recursive function of the round.
\<close>

section \<open>Data\<close>

text \<open>\<open>struct sha512_ctx\<close>; the unions of \<open>total\<close> and of \<open>buffer\<close> are a 128-bit number and an array of bytes.\<close>

record sha512_ctx =
  sha512_H :: "u64 list"
  sha512_total :: "128 word"
  sha512_buflen :: u64
  sha512_buffer :: "byte list"

definition sha512_fillbuf :: "byte list" where
  "sha512_fillbuf = 0x80 # replicate 127 0"

text \<open>One inner list for each line of the table in the source.\<close>

definition sha512_K :: "u64 list" where
  "sha512_K = concat [
    [0x428a2f98d728ae22, 0x7137449123ef65cd], [0xb5c0fbcfec4d3b2f, 0xe9b5dba58189dbbc],
    [0x3956c25bf348b538, 0x59f111f1b605d019], [0x923f82a4af194f9b, 0xab1c5ed5da6d8118],
    [0xd807aa98a3030242, 0x12835b0145706fbe], [0x243185be4ee4b28c, 0x550c7dc3d5ffb4e2],
    [0x72be5d74f27b896f, 0x80deb1fe3b1696b1], [0x9bdc06a725c71235, 0xc19bf174cf692694],
    [0xe49b69c19ef14ad2, 0xefbe4786384f25e3], [0x0fc19dc68b8cd5b5, 0x240ca1cc77ac9c65],
    [0x2de92c6f592b0275, 0x4a7484aa6ea6e483], [0x5cb0a9dcbd41fbd4, 0x76f988da831153b5],
    [0x983e5152ee66dfab, 0xa831c66d2db43210], [0xb00327c898fb213f, 0xbf597fc7beef0ee4],
    [0xc6e00bf33da88fc2, 0xd5a79147930aa725], [0x06ca6351e003826f, 0x142929670a0e6e70],
    [0x27b70a8546d22ffc, 0x2e1b21385c26c926], [0x4d2c6dfc5ac42aed, 0x53380d139d95b3df],
    [0x650a73548baf63de, 0x766a0abb3c77b2a8], [0x81c2c92e47edaee6, 0x92722c851482353b],
    [0xa2bfe8a14cf10364, 0xa81a664bbc423001], [0xc24b8b70d0f89791, 0xc76c51a30654be30],
    [0xd192e819d6ef5218, 0xd69906245565a910], [0xf40e35855771202a, 0x106aa07032bbd1b8],
    [0x19a4c116b8d2d0c8, 0x1e376c085141ab53], [0x2748774cdf8eeb99, 0x34b0bcb5e19b48a8],
    [0x391c0cb3c5c95a63, 0x4ed8aa4ae3418acb], [0x5b9cca4f7763e373, 0x682e6ff3d6b2b8a3],
    [0x748f82ee5defb2fc, 0x78a5636f43172f60], [0x84c87814a1f0ab72, 0x8cc702081a6439ec],
    [0x90befffa23631e28, 0xa4506cebde82bde9], [0xbef9a3f7b2c67915, 0xc67178f2e372532b],
    [0xca273eceea26619c, 0xd186b8c721c0c207], [0xeada7dd6cde0eb1e, 0xf57d4f7fee6ed178],
    [0x06f067aa72176fba, 0x0a637dc5a2c898a6], [0x113f9804bef90dae, 0x1b710b35131c471b],
    [0x28db77f523047d84, 0x32caab7b40c72493], [0x3c9ebe0a15c9bebc, 0x431d67c49c100d4c],
    [0x4cc5d4becb3e42b6, 0x597f299cfc657e2a], [0x5fcb6fab3ad6faec, 0x6c44198c4a475817]]"

section \<open>The block function\<close>

definition sha512_CYCLIC :: "u64 \<Rightarrow> nat \<Rightarrow> u64" where
  "sha512_CYCLIC w s = drop_bit s w OR push_bit (64 - s) w"

definition sha512_Ch :: "u64 \<Rightarrow> u64 \<Rightarrow> u64 \<Rightarrow> u64" where
  "sha512_Ch x y z = (x AND y) XOR (NOT x AND z)"

definition sha512_Maj :: "u64 \<Rightarrow> u64 \<Rightarrow> u64 \<Rightarrow> u64" where
  "sha512_Maj x y z = (x AND y) XOR (x AND z) XOR (y AND z)"

definition sha512_S0 :: "u64 \<Rightarrow> u64" where
  "sha512_S0 x = sha512_CYCLIC x 28 XOR sha512_CYCLIC x 34 XOR sha512_CYCLIC x 39"

definition sha512_S1 :: "u64 \<Rightarrow> u64" where
  "sha512_S1 x = sha512_CYCLIC x 14 XOR sha512_CYCLIC x 18 XOR sha512_CYCLIC x 41"

definition sha512_R0 :: "u64 \<Rightarrow> u64" where
  "sha512_R0 x = sha512_CYCLIC x 1 XOR sha512_CYCLIC x 8 XOR drop_bit 7 x"

definition sha512_R1 :: "u64 \<Rightarrow> u64" where
  "sha512_R1 x = sha512_CYCLIC x 19 XOR sha512_CYCLIC x 61 XOR drop_bit 6 x"

text \<open>\<open>SWAP\<close> turns the little-endian word that the machine reads into the big-endian one.\<close>

definition sha512_SWAP :: "u64 \<Rightarrow> u64" where
  "sha512_SWAP n = bswap_64 n"

text \<open>The two loops that fill \<open>W\<close>: the array holds the entries written so far.\<close>

definition sha512_extend :: "u64 list \<Rightarrow> nat \<Rightarrow> u64 list" where
  "sha512_extend W t =
     W @ [sha512_R1 (W ! (t - 2)) + W ! (t - 7) + sha512_R0 (W ! (t - 15)) + W ! (t - 16)]"

definition sha512_schedule :: "u64 list \<Rightarrow> u64 list" where
  "sha512_schedule words =
     (let W = map sha512_SWAP (take 16 words) in foldl sha512_extend W [16..<80])"

text \<open>The loop over the rounds, on the variables \<open>a\<close> to \<open>h\<close>.\<close>

type_synonym sha512_vars = "u64 \<times> u64 \<times> u64 \<times> u64 \<times> u64 \<times> u64 \<times> u64 \<times> u64"

fun sha512_round :: "u64 list \<Rightarrow> nat \<Rightarrow> sha512_vars \<Rightarrow> sha512_vars" where
  "sha512_round W t (a, b, c, d, e, f, g, h) =
     (let T1 = h + sha512_S1 e + sha512_Ch e f g + sha512_K ! t + W ! t;
          T2 = sha512_S0 a + sha512_Maj a b c;
          h = g;
          g = f;
          f = e;
          e = d + T1;
          d = c;
          c = b;
          b = a;
          a = T1 + T2
      in (a, b, c, d, e, f, g, h))"

fun sha512_one_block :: "u64 list \<Rightarrow> sha512_vars \<Rightarrow> sha512_vars" where
  "sha512_one_block words (a, b, c, d, e, f, g, h) =
     (let W = sha512_schedule words;
          (a', b', c', d', e', f', g', h') = fold (sha512_round W) [0..<80] (a, b, c, d, e, f, g, h)
      in (a' + a, b' + b, c' + c, d' + d, e' + e, f' + f, g' + g, h' + h))"

definition le_words512 :: "byte list \<Rightarrow> u64 list" where
  "le_words512 bs = map le_word (chunks 8 bs)"

function sha512_loop :: "u64 list \<Rightarrow> sha512_vars \<Rightarrow> sha512_vars" where
  "sha512_loop words v =
     (if words = [] then v else sha512_loop (drop 16 words) (sha512_one_block words v))"
  by pat_completeness auto
termination
  by (relation "measure (\<lambda>(words, v). length words)") auto

declare sha512_loop.simps [simp del]

fun sha512_list :: "sha512_vars \<Rightarrow> u64 list" where
  "sha512_list (a, b, c, d, e, f, g, h) = [a, b, c, d, e, f, g, h]"

definition sha512_vars_of :: "u64 list \<Rightarrow> sha512_vars" where
  "sha512_vars_of H = (H ! 0, H ! 1, H ! 2, H ! 3, H ! 4, H ! 5, H ! 6, H ! 7)"

definition sha512_process_block :: "byte list \<Rightarrow> nat \<Rightarrow> sha512_ctx \<Rightarrow> sha512_ctx" where
  "sha512_process_block buffer len ctx =
     (let nwords = len div 8;
          words = le_words512 (take (8 * nwords) buffer);
          v = sha512_vars_of (sha512_H ctx);
          total = sha512_total ctx + of_nat len;
          v = sha512_loop words v
      in ctx\<lparr>sha512_total := total, sha512_H := sha512_list v\<rparr>)"

section \<open>The context functions\<close>

definition sha512_init_ctx :: "sha512_ctx \<Rightarrow> sha512_ctx" where
  "sha512_init_ctx ctx = ctx\<lparr>sha512_H :=
    [0x6a09e667f3bcc908, 0xbb67ae8584caa73b, 0x3c6ef372fe94f82b, 0xa54ff53a5f1d36f1,
     0x510e527fade682d1, 0x9b05688c2b3e6c1f, 0x1f83d9abfb41bd6b, 0x5be0cd19137e2179],
    sha512_total := 0, sha512_buflen := 0\<rparr>"

definition sha512_finish_ctx :: "sha512_ctx \<Rightarrow> sha512_ctx \<times> byte list" where
  "sha512_finish_ctx ctx =
     (let bytes = sha512_buflen ctx;
          total = sha512_total ctx + ucast bytes;
          pad = (if bytes \<ge> 112 then 128 + 112 - unat bytes else 112 - unat bytes);
          buffer = store_at (sha512_buffer ctx) (unat bytes) (take pad sha512_fillbuf);
          total_low = ucast total :: u64;
          total_high = ucast (drop_bit 64 total) :: u64;
          buffer = store_at buffer (8 * ((unat bytes + pad + 8) div 8))
                     (word_le 8 (sha512_SWAP (push_bit 3 total_low)));
          buffer = store_at buffer (8 * ((unat bytes + pad) div 8))
                     (word_le 8 (sha512_SWAP (push_bit 3 total_high OR drop_bit 61 total_low)));
          ctx = ctx\<lparr>sha512_total := total, sha512_buffer := buffer\<rparr>;
          ctx = sha512_process_block buffer (unat bytes + pad + 16) ctx
      in (ctx, concat (map (\<lambda>i. word_le 8 (sha512_SWAP (sha512_H ctx ! i))) [0..<8])))"

text \<open>\<open>__sha512_process_bytes\<close>, one definition for each of its three parts.\<close>

definition sha512_fill :: "nat \<times> byte list \<Rightarrow> sha512_ctx \<Rightarrow> (nat \<times> byte list) \<times> sha512_ctx" where
  "sha512_fill buffer ctx =
     (if sha512_buflen ctx \<noteq> 0 then
        (let left_over = unat (sha512_buflen ctx);
             len = length (snd buffer);
             add = (if 256 - left_over > len then len else 256 - left_over);
             ctx = ctx\<lparr>sha512_buffer := store_at (sha512_buffer ctx) left_over (take add (snd buffer)),
                       sha512_buflen := sha512_buflen ctx + of_nat add\<rparr>;
             ctx = (if sha512_buflen ctx > 128 then
                      (let ctx = sha512_process_block (sha512_buffer ctx) (unat (sha512_buflen ctx AND NOT 127)) ctx;
                           ctx = ctx\<lparr>sha512_buflen := sha512_buflen ctx AND 127\<rparr>;
                           off = unat ((of_nat (left_over + add) :: u64) AND NOT 127)
                       in ctx\<lparr>sha512_buffer := store_at (sha512_buffer ctx) 0
                                 (take (unat (sha512_buflen ctx)) (drop off (sha512_buffer ctx)))\<rparr>)
                    else ctx)
         in ((fst buffer + add, drop add (snd buffer)), ctx))
      else (buffer, ctx))"

function sha512_unaligned_loop :: "nat \<times> byte list \<Rightarrow> sha512_ctx \<Rightarrow> (nat \<times> byte list) \<times> sha512_ctx" where
  "sha512_unaligned_loop buffer ctx =
     (if length (snd buffer) > 128 then
        (let ctx = ctx\<lparr>sha512_buffer := store_at (sha512_buffer ctx) 0 (take 128 (snd buffer))\<rparr>;
             ctx = sha512_process_block (sha512_buffer ctx) 128 ctx
         in sha512_unaligned_loop (fst buffer + 128, drop 128 (snd buffer)) ctx)
      else (buffer, ctx))"
  by pat_completeness auto
termination
  by (relation "measure (\<lambda>(buffer, ctx). length (snd buffer))") auto

declare sha512_unaligned_loop.simps [simp del]

definition sha512_blocks :: "nat \<times> byte list \<Rightarrow> sha512_ctx \<Rightarrow> (nat \<times> byte list) \<times> sha512_ctx" where
  "sha512_blocks buffer ctx =
     (let len = length (snd buffer) in
      if len \<ge> 128 then
        (if fst buffer mod 8 \<noteq> 0 then sha512_unaligned_loop buffer ctx
         else (let n = unat ((of_nat len :: u64) AND NOT 127)
               in ((fst buffer + n, drop n (snd buffer)), sha512_process_block (snd buffer) n ctx)))
      else (buffer, ctx))"

definition sha512_rest :: "nat \<times> byte list \<Rightarrow> sha512_ctx \<Rightarrow> sha512_ctx" where
  "sha512_rest buffer ctx =
     (let len = length (snd buffer) in
      if len > 0 then
        (let left_over = unat (sha512_buflen ctx);
             ctx = ctx\<lparr>sha512_buffer := store_at (sha512_buffer ctx) left_over (snd buffer)\<rparr>;
             left_over = left_over + len
         in if left_over \<ge> 128 then
              (let ctx = sha512_process_block (sha512_buffer ctx) 128 ctx;
                   left_over = left_over - 128
               in ctx\<lparr>sha512_buffer := store_at (sha512_buffer ctx) 0 (take left_over (drop 128 (sha512_buffer ctx))),
                      sha512_buflen := of_nat left_over\<rparr>)
            else ctx\<lparr>sha512_buflen := of_nat left_over\<rparr>)
      else ctx)"

definition sha512_process_bytes :: "nat \<times> byte list \<Rightarrow> sha512_ctx \<Rightarrow> sha512_ctx" where
  "sha512_process_bytes buffer ctx =
     (let (buffer, ctx) = sha512_fill buffer ctx;
          (buffer, ctx) = sha512_blocks buffer ctx
      in sha512_rest buffer ctx)"

section \<open>FIPS 180-2\<close>

text \<open>The reference: the functions with rotations, the schedule as a recursive function of the round.\<close>

definition fips512_Sigma0 :: "u64 \<Rightarrow> u64" where
  "fips512_Sigma0 x = word_rotr 28 x XOR word_rotr 34 x XOR word_rotr 39 x"

definition fips512_Sigma1 :: "u64 \<Rightarrow> u64" where
  "fips512_Sigma1 x = word_rotr 14 x XOR word_rotr 18 x XOR word_rotr 41 x"

definition fips512_sigma0 :: "u64 \<Rightarrow> u64" where
  "fips512_sigma0 x = word_rotr 1 x XOR word_rotr 8 x XOR drop_bit 7 x"

definition fips512_sigma1 :: "u64 \<Rightarrow> u64" where
  "fips512_sigma1 x = word_rotr 19 x XOR word_rotr 61 x XOR drop_bit 6 x"

function fips512_W :: "u64 list \<Rightarrow> nat \<Rightarrow> u64" where
  "fips512_W M t =
     (if t < 16 then M ! t
      else fips512_sigma1 (fips512_W M (t - 2)) + fips512_W M (t - 7) +
           fips512_sigma0 (fips512_W M (t - 15)) + fips512_W M (t - 16))"
  by pat_completeness auto
termination
  by (relation "measure snd") auto

declare fips512_W.simps [simp del]

fun fips512_round :: "u64 list \<Rightarrow> nat \<Rightarrow> sha512_vars \<Rightarrow> sha512_vars" where
  "fips512_round M t (a, b, c, d, e, f, g, h) =
     (let T1 = h + fips512_Sigma1 e + ((e AND f) XOR (NOT e AND g)) + sha512_K ! t + fips512_W M t;
          T2 = fips512_Sigma0 a + ((a AND b) XOR (a AND c) XOR (b AND c))
      in (T1 + T2, a, b, c, d + T1, e, f, g))"

fun fips512_compress :: "u64 list \<Rightarrow> sha512_vars \<Rightarrow> sha512_vars" where
  "fips512_compress M (a, b, c, d, e, f, g, h) =
     (let (a', b', c', d', e', f', g', h') = fold (fips512_round M) [0..<80] (a, b, c, d, e, f, g, h)
      in (a + a', b + b', c + c', d + d', e + e', f + f', g + g', h + h'))"

definition fips512_words :: "byte list \<Rightarrow> u64 list" where
  "fips512_words b = map be_word (chunks 8 b)"

definition fips512_blocks :: "byte list \<Rightarrow> sha512_vars \<Rightarrow> sha512_vars" where
  "fips512_blocks bs v = fold (\<lambda>b. fips512_compress (fips512_words b)) (chunks 128 bs) v"

definition fips512_iv :: sha512_vars where
  "fips512_iv =
    (0x6a09e667f3bcc908, 0xbb67ae8584caa73b, 0x3c6ef372fe94f82b, 0xa54ff53a5f1d36f1,
     0x510e527fade682d1, 0x9b05688c2b3e6c1f, 0x1f83d9abfb41bd6b, 0x5be0cd19137e2179)"

definition fips512_length_field :: "nat \<Rightarrow> byte list" where
  "fips512_length_field n = word_be 16 (of_nat (8 * n) :: 128 word)"

definition fips_sha512 :: "byte list \<Rightarrow> byte list" where
  "fips_sha512 m =
     concat (map (word_be 8) (sha512_list (fips512_blocks (md_pad 128 16 fips512_length_field m) fips512_iv)))"

section \<open>The block function computes the standard's\<close>

lemma sha512_CYCLIC_rotr: "0 < s \<Longrightarrow> s < 64 \<Longrightarrow> sha512_CYCLIC w s = word_rotr s w"
  using word_rotr_shifts [of s w] by (simp add: sha512_CYCLIC_def)

lemmas sha512_fips_functions =
  sha512_S0_def sha512_S1_def sha512_R0_def sha512_R1_def sha512_Ch_def sha512_Maj_def
  fips512_Sigma0_def fips512_Sigma1_def fips512_sigma0_def fips512_sigma1_def sha512_CYCLIC_rotr

lemma word_le_sha512_SWAP: "word_le 8 (sha512_SWAP w) = word_be 8 w"
  by (simp add: sha512_SWAP_def word_images)

lemma sha512_SWAP_le_word: "length bs = 8 \<Longrightarrow> sha512_SWAP (le_word bs) = be_word bs"
  by (simp add: sha512_SWAP_def word_images)

lemma sha512_schedule_fips:
  assumes "length M = 16" "16 \<le> n"
  shows "length (foldl sha512_extend M [16..<n]) = n \<and>
    (\<forall>t < n. foldl sha512_extend M [16..<n] ! t = fips512_W M t)"
  using assms(2)
proof (induction n rule: dec_induct)
  case base
  then show ?case using assms(1) by (simp add: fips512_W.simps)
next
  case (step n)
  then show ?case
    by (auto simp: sha512_extend_def nth_append less_Suc_eq fips512_W.simps [of M n] sha512_fips_functions)
qed

lemma sha512_one_block_fips:
  assumes "16 \<le> length words"
  shows "sha512_one_block words v = fips512_compress (map sha512_SWAP (take 16 words)) v"
proof -
  let ?M = "map sha512_SWAP (take 16 words)"
  have W: "sha512_schedule words ! t = fips512_W ?M t" if "t < 80" for t
    using sha512_schedule_fips [of ?M 80] assms that by (simp add: sha512_schedule_def)
  have "sha512_round (sha512_schedule words) t u = fips512_round ?M t u" if "t < 80" for t u
    using W [OF that] by (cases u rule: sha512_list.cases) (simp add: sha512_fips_functions)
  then have "fold (sha512_round (sha512_schedule words)) [0..<80] u = fold (fips512_round ?M) [0..<80] u" for u
    by (intro fold_cong) (auto intro!: ext)
  then show ?thesis
    by (cases v rule: sha512_list.cases) (simp add: add.commute split: prod.splits)
qed

lemma sha512_words_fips:
  assumes "8 dvd length bs"
  shows "map sha512_SWAP (le_words512 bs) = fips512_words bs"
proof -
  have "length b = 8" if "b \<in> set (chunks 8 bs)" for b
    using assms that by (rule length_chunks)
  then show ?thesis
    by (simp add: le_words512_def fips512_words_def sha512_SWAP_le_word)
qed

lemma sha512_loop_fips: "128 dvd length bs \<Longrightarrow> sha512_loop (le_words512 bs) v = fips512_blocks bs v"
proof (induction "length bs" arbitrary: bs v rule: less_induct)
  case less
  show ?case
  proof (cases "bs = []")
    case True
    then show ?thesis by (simp add: le_words512_def fips512_blocks_def sha512_loop.simps)
  next
    case False
    then have len: "128 \<le> length bs" using less.prems by (auto intro: dvd_imp_le)
    with less.prems False have IH: "sha512_loop (le_words512 (drop 128 bs)) w = fips512_blocks (drop 128 bs) w" for w
      by (intro less.hyps) auto
    have words: "le_words512 bs \<noteq> []" "drop 16 (le_words512 bs) = le_words512 (drop 128 bs)"
      "take 16 (le_words512 bs) = le_words512 (take 128 bs)"
      using False by (simp_all add: le_words512_def chunks_eq_Nil_iff drop_map take_map drop_chunks take_chunks)
    have "length (le_words512 (take 128 bs)) = 16"
      using len length_chunks_count [of 8 "take 128 bs"] by (simp add: le_words512_def)
    then have "16 \<le> length (le_words512 bs)"
      by (metis length_take min.cobounded1 words(3))
    moreover have "map sha512_SWAP (le_words512 (take 128 bs)) = fips512_words (take 128 bs)"
      using len by (intro sha512_words_fips) simp
    ultimately show ?thesis
      using IH False words
      by (simp add: sha512_loop.simps [of "le_words512 bs"] sha512_one_block_fips fips512_blocks_def chunks_Cons)
  qed
qed

lemma fips512_blocks_append:
  "128 dvd length xs \<Longrightarrow> fips512_blocks (xs @ ys) v = fips512_blocks ys (fips512_blocks xs v)"
  by (simp add: fips512_blocks_def chunks_append)

section \<open>Buffering\<close>

text \<open>\<open>sha512_hashed ctx d\<close>: the hash value and the byte count are those of the blocks of \<open>d\<close>.\<close>

definition sha512_hashed :: "sha512_ctx \<Rightarrow> byte list \<Rightarrow> bool" where
  "sha512_hashed ctx d \<longleftrightarrow>
     sha512_H ctx = sha512_list (fips512_blocks d fips512_iv) \<and> sha512_total ctx = of_nat (length d)"

abbreviation sha512_absorbed :: "sha512_ctx \<Rightarrow> byte list \<Rightarrow> bool" where
  "sha512_absorbed \<equiv> block_absorbed 128 sha512_hashed sha512_buflen sha512_buffer"

lemma sha512_hashed_frame [simp]:
  "sha512_hashed (ctx\<lparr>sha512_buffer := x\<rparr>) d = sha512_hashed ctx d"
  "sha512_hashed (ctx\<lparr>sha512_buflen := y\<rparr>) d = sha512_hashed ctx d"
  by (simp_all add: sha512_hashed_def)

lemma sha512_process_block_frame [simp]:
  "sha512_buffer (sha512_process_block bs n ctx) = sha512_buffer ctx"
  "sha512_buflen (sha512_process_block bs n ctx) = sha512_buflen ctx"
  by (simp_all add: sha512_process_block_def Let_def)

lemma sha512_vars_of_list [simp]: "sha512_vars_of (sha512_list v) = v"
  by (cases v rule: sha512_list.cases) (simp add: sha512_vars_of_def)

lemma sha512_process_block_H:
  assumes "128 dvd length d" "128 dvd n" "n \<le> length bs"
    and "sha512_H ctx = sha512_list (fips512_blocks d fips512_iv)"
  shows "sha512_H (sha512_process_block bs n ctx) = sha512_list (fips512_blocks (d @ take n bs) fips512_iv)"
proof -
  have "8 * (n div 8) = n" using assms(2) by (rule mult_div_of_dvd) simp
  then show ?thesis
    using assms by (simp add: sha512_process_block_def Let_def sha512_loop_fips fips512_blocks_append)
qed

lemma sha512_hashed_process_block:
  assumes "sha512_hashed ctx d" "128 dvd length d" "128 dvd n" "n \<le> length bs"
  shows "sha512_hashed (sha512_process_block bs n ctx) (d @ take n bs)"
  using assms sha512_process_block_H [OF assms(2-4), of ctx]
  by (simp add: sha512_hashed_def) (simp add: sha512_process_block_def Let_def)

interpretation sha512_buf: block_buffer 7 128 sha512_hashed sha512_process_block sha512_buflen
  "\<lambda>n. sha512_buflen_update (\<lambda>_. n)" sha512_buffer "\<lambda>b. sha512_buffer_update (\<lambda>_. b)" 8
  sha512_fill sha512_unaligned_loop sha512_blocks sha512_rest
proof unfold_locales
  show "sha512_unaligned_loop (a, bs) c = (if 128 < length bs then
      let c = c\<lparr>sha512_buffer := store_at (sha512_buffer c) 0 (take 128 bs)\<rparr>;
          c = sha512_process_block (sha512_buffer c) 128 c
      in sha512_unaligned_loop (a + 128, drop 128 bs) c else ((a, bs), c))" for a bs c
    by (subst sha512_unaligned_loop.simps) simp
qed (simp_all add: sha512_fill_def sha512_blocks_def sha512_rest_def Let_def mask_numeral sha512_hashed_process_block)

lemma sha512_process_bytes_absorbed:
  assumes "sha512_absorbed ctx m" "length bs < 2 ^ 64"
  shows "sha512_absorbed (sha512_process_bytes (a, bs) ctx) (m @ bs)"
  using sha512_buf.process_bytes_absorbed [OF assms, of a]
  by (auto simp: sha512_process_bytes_def split: prod.splits)

section \<open>The digest\<close>

lemma sha512_length_image:
  fixes tot :: "128 word" and low high :: u64
  assumes "low = ucast tot" "high = ucast (drop_bit 64 tot)"
  shows "word_le 8 (sha512_SWAP (push_bit 3 high OR drop_bit 61 low)) @
      word_le 8 (sha512_SWAP (push_bit 3 low)) = word_be 16 (push_bit 3 tot)"
proof -
  have "word_le 8 (push_bit 3 low) = word_le 8 (push_bit 3 tot)"
    and "word_le 8 (push_bit 3 high OR drop_bit 61 low) = word_le 8 (drop_bit 64 (push_bit 3 tot))"
    unfolding assms by (rule word_le_cong; auto simp: bit_simps)+
  then show ?thesis
    using word_le_append [of 8 8 "push_bit 3 tot"] by (simp add: word_le_sha512_SWAP word_be_def)
qed

lemma sha512_output:
  "concat (map (\<lambda>i. word_be 8 (sha512_list v ! i)) [0..<8]) = concat (map (word_be 8) (sha512_list v))"
  by (cases v rule: sha512_list.cases) (simp add: upt_rec)

lemma sha512_finish_digest:
  assumes "sha512_absorbed ctx m"
  shows "snd (sha512_finish_ctx ctx) = fips_sha512 m"
    and "length (sha512_buffer (fst (sha512_finish_ctx ctx))) = 256"
proof -
  obtain d p where c: "m = d @ p" "sha512_hashed ctx d" "128 dvd length d" "length p \<le> 128"
    "unat (sha512_buflen ctx) = length p" "length (sha512_buffer ctx) = 2 * 128" "take (length p) (sha512_buffer ctx) = p"
    using assms by (rule block_absorbedE)
  define tot where "tot = sha512_total ctx + ucast (sha512_buflen ctx)"
  have "ucast (sha512_buflen ctx) = (of_nat (length p) :: 128 word)"
    using c(5) by (metis of_nat_unat)
  then have tot: "tot = of_nat (length m)"
    using c(1,2) by (simp add: tot_def sha512_hashed_def)
  define L where "L =
      word_le 8 (sha512_SWAP (push_bit 3 (ucast (drop_bit 64 tot)) OR drop_bit 61 (ucast tot))) @
      word_le 8 (sha512_SWAP (push_bit 3 (ucast tot)))"
  have L: "L = fips512_length_field (length m)"
    unfolding L_def sha512_length_image [OF refl refl]
    by (simp add: fips512_length_field_def tot push_bit_eq_mult mult.commute)
  have len: "length L = 16" by (simp add: L_def)
  define pad where "pad = (if length p \<ge> 128 - 16 then 2 * 128 - 16 - length p else 128 - 16 - length p)"
  define F where "F = take pad (0x80 # replicate (128 - 1) (0 :: byte))"
  define B where "B = store_at (sha512_buffer ctx) (length p) (F @ L)"
  note fin = finish_buffer [where enc = fips512_length_field, OF c(1,3,4) _ c(6,7) L len pad_def F_def B_def, simplified]
  have "8 dvd length p + pad + 16" using fin(2) by (rule dvd_trans [rotated]) simp
  then have "8 dvd length p + pad" using dvd_diff_nat [of 8 "length p + pad + 16" 16] by simp
  then have x: "8 * ((length p + pad) div 8) = length p + pad"
    "8 * ((length p + pad + 8) div 8) = length p + pad + 8"
    by (auto simp: dvd_mult_div_cancel)
  have pad: "(if 112 \<le> sha512_buflen ctx then 128 + 112 - length p else 112 - length p) = pad"
    using c(5) by (simp add: pad_def word_le_nat_alt)
  have fill: "take pad sha512_fillbuf = F"
    by (simp add: F_def sha512_fillbuf_def)
  have buf: "store_at (store_at (store_at (sha512_buffer ctx) (length p) F) (length p + pad + 8)
      (word_le 8 (sha512_SWAP (push_bit 3 (ucast tot))))) (length p + pad)
      (word_le 8 (sha512_SWAP (push_bit 3 (ucast (drop_bit 64 tot)) OR drop_bit 61 (ucast tot)))) = B"
    using c(6) fin(5,6) len by (simp add: B_def L_def store_at_append store_at_prepend)
  have eq: "sha512_finish_ctx ctx = (let c = sha512_process_block B (length p + pad + 16)
        (ctx\<lparr>sha512_total := tot, sha512_buffer := B\<rparr>)
      in (c, concat (map (\<lambda>i. word_le 8 (sha512_SWAP (sha512_H c ! i))) [0..<8])))"
    unfolding sha512_finish_ctx_def Let_def c(5) pad fill x tot_def [symmetric] buf ..
  show "snd (sha512_finish_ctx ctx) = fips_sha512 m"
    using sha512_process_block_H [OF c(3) fin(2), of B "ctx\<lparr>sha512_total := tot, sha512_buffer := B\<rparr>"] c(2) fin
    by (simp add: eq Let_def sha512_hashed_def fips_sha512_def word_le_sha512_SWAP sha512_output)
  show "length (sha512_buffer (fst (sha512_finish_ctx ctx))) = 256"
    using fin by (simp add: eq Let_def)
qed

interpretation sha512: hash_stream "\<lambda>ctx. length (sha512_buffer ctx) = 256" sha512_init_ctx
  sha512_process_bytes sha512_finish_ctx sha512_absorbed fips_sha512
proof
  show "length (sha512_buffer c) = 256 \<Longrightarrow> sha512_absorbed (sha512_init_ctx c) []" for c
    by (simp add: block_absorbed_def sha512_hashed_def sha512_init_ctx_def fips512_blocks_def fips512_iv_def)
  show "sha512_absorbed c m \<Longrightarrow> length (sha512_buffer c) = 256" for c m
    by (auto elim!: block_absorbedE)
qed (simp_all add: sha512_process_bytes_absorbed sha512_finish_digest)

text \<open>
  C3. SHA-512 is the function of FIPS 180-2 however the message is cut: a context that is
  initialised, fed any sequence of buffers at any addresses, and finished gives the FIPS digest
  of their concatenation.
\<close>

theorem sha512_chunks_fips:
  assumes "length (sha512_buffer ctx) = 256" "\<forall>b \<in> set inputs. length (snd b) < 2 ^ 64"
  shows "snd (sha512_finish_ctx (fold sha512_process_bytes inputs (sha512_init_ctx ctx))) =
    fips_sha512 (concat (map snd inputs))"
  using assms by (rule sha512.digest_updates)

theorem sha512_chunks_fips_witness:
  "snd (sha512_finish_ctx (fold sha512_process_bytes [(1, [0x61]), (3, []), (2, replicate 200 0x62)]
     (sha512_init_ctx \<lparr>sha512_H = [], sha512_total = 1, sha512_buflen = 77, sha512_buffer = replicate 256 3\<rparr>))) =
   fips_sha512 (0x61 # replicate 200 0x62)"
  using sha512_chunks_fips [of "\<lparr>sha512_H = [], sha512_total = 1, sha512_buflen = 77, sha512_buffer = replicate 256 3\<rparr>"
    "[(1, [0x61]), (3, []), (2, replicate 200 0x62)]"]
  by (simp del: fold_simps)

end
