(* ===== verification/Sha_Constants.thy ===== *)
theory Sha_Constants
  imports Sha256 Sha512
begin

text \<open>
  The constants of \<open>crypt/sha256.c\<close> and \<open>crypt/sha512.c\<close> against their definition in FIPS 180-2 (4.2.2,
  4.2.3, 5.3.2, 5.3.3): the fractional parts of the cube roots of the first 64 (80) primes and, for the
  initial hash values, of the square roots of the first eight primes, cut off after 32 (64) bits.
\<close>

definition fips_primes :: "nat list" where
  "fips_primes =
    [2, 3, 5, 7, 11, 13, 17, 19, 23, 29, 31, 37, 41, 43, 47, 53, 59, 61, 67, 71,
     73, 79, 83, 89, 97, 101, 103, 107, 109, 113, 127, 131, 137, 139, 149, 151, 157, 163, 167, 173,
     179, 181, 191, 193, 197, 199, 211, 223, 227, 229, 233, 239, 241, 251, 257, 263, 269, 271, 277, 281,
     283, 293, 307, 311, 313, 317, 331, 337, 347, 349, 353, 359, 367, 373, 379, 383, 389, 397, 401, 409]"

text \<open>
  \<open>root_fraction r w p k\<close>: \<open>k\<close> is the first \<open>w\<close> bits of the fractional part of the \<open>r\<close>-th root of \<open>p\<close>,
  for a root whose integral part is at most 7.
\<close>

definition root_fraction :: "nat \<Rightarrow> nat \<Rightarrow> nat \<Rightarrow> nat \<Rightarrow> bool" where
  "root_fraction r w p k =
     (let c = length (filter (\<lambda>c. c ^ r \<le> p) [1, 2, 3, 4, 5, 6, 7])
      in k < 2 ^ w \<and> (c * 2 ^ w + k) ^ r < p * 2 ^ (r * w) \<and> p * 2 ^ (r * w) < (c * 2 ^ w + k + 1) ^ r)"

lemmas table_unfold =
  list_all2_Cons list_all2_Nil list.map concat.simps append.simps take_Cons_numeral take_0 pred_numeral_simps

lemma root_fraction_sha256: "list_all2 (root_fraction 3 32) (take 64 fips_primes) (map unat sha256_K)"
  unfolding fips_primes_def sha256_K_def
  by (simp only: table_unfold, intro conjI TrueI) (simp_all add: root_fraction_def power3_eq_cube)

lemma root_fraction_sha512: "list_all2 (root_fraction 3 64) fips_primes (map unat sha512_K)"
  unfolding fips_primes_def sha512_K_def
  by (simp only: table_unfold, intro conjI TrueI) (simp_all add: root_fraction_def power3_eq_cube)

lemma root_fraction_initial:
  "list_all2 (root_fraction 2 32) (take 8 fips_primes) (map unat (sha256_H (sha256_init_ctx c)))"
  "list_all2 (root_fraction 2 64) (take 8 fips_primes) (map unat (sha512_H (sha512_init_ctx d)))"
  by (simp_all add: fips_primes_def sha256_init_ctx_def sha512_init_ctx_def root_fraction_def power2_eq_square)

text \<open>
  C4: the round constants of SHA-256 and SHA-512 are the leading 32 and 64 bits of the fractional parts of
  the cube roots of the first 64 and 80 primes, and the initial hash values those of the square roots of the
  first eight primes, as FIPS 180-2 defines them.
\<close>

theorem sha2_constants:
  "list_all2 (root_fraction 3 32) (take 64 fips_primes) (map unat sha256_K) \<and>
   list_all2 (root_fraction 3 64) fips_primes (map unat sha512_K) \<and>
   list_all2 (root_fraction 2 32) (take 8 fips_primes) (map unat (sha256_H (sha256_init_ctx c))) \<and>
   list_all2 (root_fraction 2 64) (take 8 fips_primes) (map unat (sha512_H (sha512_init_ctx d)))"
  by (intro conjI root_fraction_sha256 root_fraction_sha512 root_fraction_initial)

end
