(* ===== verification/Xdr.thy ===== *)
theory Xdr
  imports Prelude
begin

text \<open>
  External data representation: the handle of \<open>sunrpc/rpc/xdr.h\<close> and the filters of \<open>sunrpc/xdr.c\<close>,
  \<open>sunrpc/xdr_intXX_t.c\<close>, \<open>sunrpc/xdr_array.c\<close> and \<open>sunrpc/xdr_ref.c\<close>.

  A handle holds the operation, the operations vector and the private state of the stream, of type \<open>'s\<close>.
  A routine that gets a pointer to the object takes the value of the object and returns its new value: a
  filter is a function from a handle and an object to the returned truth value, the handle and the object.
  The types are those of an LP64 machine with signed \<open>char\<close>.  A pointer to a buffer is \<open>None\<close> when it is
  \<open>NULL\<close>; \<open>mem_alloc\<close> and \<open>calloc\<close> are parameters.
\<close>

section \<open>The handle\<close>

datatype xdr_op = XDR_ENCODE | XDR_DECODE | XDR_FREE

text \<open>
  \<open>x_getbytes\<close> returns the bytes it has stored at the address, which may be fewer than asked for when it
  fails; the routines for the position and the inline buffer see the operation of the handle.
\<close>

record 's xdr_ops =
  x_getlong :: "'s \<Rightarrow> u64 option \<times> 's"
  x_putlong :: "u64 \<Rightarrow> 's \<Rightarrow> bool \<times> 's"
  x_getbytes :: "u32 \<Rightarrow> 's \<Rightarrow> bool \<times> byte list \<times> 's"
  x_putbytes :: "byte list \<Rightarrow> u32 \<Rightarrow> 's \<Rightarrow> bool \<times> 's"
  x_getpostn :: "xdr_op \<Rightarrow> 's \<Rightarrow> u32"
  x_setpostn :: "xdr_op \<Rightarrow> u32 \<Rightarrow> 's \<Rightarrow> bool \<times> 's"
  x_inline :: "xdr_op \<Rightarrow> u32 \<Rightarrow> 's \<Rightarrow> nat option \<times> 's"
  x_destroy :: "'s \<Rightarrow> 's"
  x_getint32 :: "'s \<Rightarrow> u32 option \<times> 's"
  x_putint32 :: "u32 \<Rightarrow> 's \<Rightarrow> bool \<times> 's"

record 's XDR =
  x_op :: xdr_op
  x_ops :: "'s xdr_ops"
  x_str :: 's

type_synonym ('s, 'a) xdrproc_t = "'s XDR \<Rightarrow> 'a \<Rightarrow> bool \<times> 's XDR \<times> 'a"

definition XDR_GETLONG :: "'s XDR \<Rightarrow> u64 option \<times> 's XDR" where
  "XDR_GETLONG xdrs = (let (r, s) = x_getlong (x_ops xdrs) (x_str xdrs) in (r, xdrs\<lparr>x_str := s\<rparr>))"

definition XDR_PUTLONG :: "'s XDR \<Rightarrow> u64 \<Rightarrow> bool \<times> 's XDR" where
  "XDR_PUTLONG xdrs l = (let (r, s) = x_putlong (x_ops xdrs) l (x_str xdrs) in (r, xdrs\<lparr>x_str := s\<rparr>))"

definition XDR_GETBYTES :: "'s XDR \<Rightarrow> u32 \<Rightarrow> bool \<times> byte list \<times> 's XDR" where
  "XDR_GETBYTES xdrs len =
     (let (r, bs, s) = x_getbytes (x_ops xdrs) len (x_str xdrs) in (r, bs, xdrs\<lparr>x_str := s\<rparr>))"

definition XDR_PUTBYTES :: "'s XDR \<Rightarrow> byte list \<Rightarrow> u32 \<Rightarrow> bool \<times> 's XDR" where
  "XDR_PUTBYTES xdrs addr len =
     (let (r, s) = x_putbytes (x_ops xdrs) addr len (x_str xdrs) in (r, xdrs\<lparr>x_str := s\<rparr>))"

definition XDR_GETINT32 :: "'s XDR \<Rightarrow> u32 option \<times> 's XDR" where
  "XDR_GETINT32 xdrs = (let (r, s) = x_getint32 (x_ops xdrs) (x_str xdrs) in (r, xdrs\<lparr>x_str := s\<rparr>))"

definition XDR_PUTINT32 :: "'s XDR \<Rightarrow> u32 \<Rightarrow> bool \<times> 's XDR" where
  "XDR_PUTINT32 xdrs i = (let (r, s) = x_putint32 (x_ops xdrs) i (x_str xdrs) in (r, xdrs\<lparr>x_str := s\<rparr>))"

definition BYTES_PER_XDR_UNIT :: u32 where
  "BYTES_PER_XDR_UNIT = 4"

definition RNDUP :: "u32 \<Rightarrow> u32" where
  "RNDUP x = (x + BYTES_PER_XDR_UNIT - 1) AND NOT (BYTES_PER_XDR_UNIT - 1)"

section \<open>Integers\<close>

definition xdr_void :: bool where
  "xdr_void = True"

definition xdr_int :: "('s, u32) xdrproc_t" where
  "xdr_int xdrs ip =
     (case x_op xdrs of
        XDR_ENCODE \<Rightarrow> (let l = scast ip; (r, xdrs) = XDR_PUTLONG xdrs l in (r, xdrs, ip))
      | XDR_DECODE \<Rightarrow>
          (case XDR_GETLONG xdrs of
             (None, xdrs) \<Rightarrow> (False, xdrs, ip)
           | (Some l, xdrs) \<Rightarrow> (True, xdrs, ucast l))
      | XDR_FREE \<Rightarrow> (True, xdrs, ip))"

definition xdr_u_int :: "('s, u32) xdrproc_t" where
  "xdr_u_int xdrs up =
     (case x_op xdrs of
        XDR_ENCODE \<Rightarrow> (let l = ucast up; (r, xdrs) = XDR_PUTLONG xdrs l in (r, xdrs, up))
      | XDR_DECODE \<Rightarrow>
          (case XDR_GETLONG xdrs of
             (None, xdrs) \<Rightarrow> (False, xdrs, up)
           | (Some l, xdrs) \<Rightarrow> (True, xdrs, ucast l))
      | XDR_FREE \<Rightarrow> (True, xdrs, up))"

definition xdr_long :: "('s, u64) xdrproc_t" where
  "xdr_long xdrs lp =
     (if x_op xdrs = XDR_ENCODE \<and> scast (ucast lp :: u32) = lp
      then (let (r, xdrs) = XDR_PUTLONG xdrs lp in (r, xdrs, lp))
      else if x_op xdrs = XDR_DECODE
      then (case XDR_GETLONG xdrs of
              (None, xdrs) \<Rightarrow> (False, xdrs, lp)
            | (Some l, xdrs) \<Rightarrow> (True, xdrs, l))
      else if x_op xdrs = XDR_FREE then (True, xdrs, lp)
      else (False, xdrs, lp))"

definition xdr_u_long :: "('s, u64) xdrproc_t" where
  "xdr_u_long xdrs ulp =
     (case x_op xdrs of
        XDR_DECODE \<Rightarrow>
          (case XDR_GETLONG xdrs of
             (None, xdrs) \<Rightarrow> (False, xdrs, ulp)
           | (Some tmp, xdrs) \<Rightarrow> (True, xdrs, ucast (ucast tmp :: u32)))
      | XDR_ENCODE \<Rightarrow>
          if ucast (ucast ulp :: u32) \<noteq> ulp then (False, xdrs, ulp)
          else (let (r, xdrs) = XDR_PUTLONG xdrs ulp in (r, xdrs, ulp))
      | XDR_FREE \<Rightarrow> (True, xdrs, ulp))"

text \<open>The shift of the signed \<open>*llp\<close> is arithmetic.\<close>

definition xdr_hyper :: "('s, u64) xdrproc_t" where
  "xdr_hyper xdrs llp =
     (if x_op xdrs = XDR_ENCODE
      then (let t1 = signed_drop_bit 32 llp; t2 = llp; (r1, xdrs) = XDR_PUTLONG xdrs t1
            in if r1 then (let (r2, xdrs) = XDR_PUTLONG xdrs t2 in (r2, xdrs, llp))
               else (False, xdrs, llp))
      else if x_op xdrs = XDR_DECODE
      then (case XDR_GETLONG xdrs of
              (None, xdrs) \<Rightarrow> (False, xdrs, llp)
            | (Some t1, xdrs) \<Rightarrow>
                (case XDR_GETLONG xdrs of
                   (None, xdrs) \<Rightarrow> (False, xdrs, llp)
                 | (Some t2, xdrs) \<Rightarrow> (True, xdrs, push_bit 32 t1 OR ucast (ucast t2 :: u32))))
      else if x_op xdrs = XDR_FREE then (True, xdrs, llp)
      else (False, xdrs, llp))"

definition xdr_u_hyper :: "('s, u64) xdrproc_t" where
  "xdr_u_hyper xdrs ullp =
     (if x_op xdrs = XDR_ENCODE
      then (let t1 = drop_bit 32 ullp; t2 = ullp; (r1, xdrs) = XDR_PUTLONG xdrs t1
            in if r1 then (let (r2, xdrs) = XDR_PUTLONG xdrs t2 in (r2, xdrs, ullp))
               else (False, xdrs, ullp))
      else if x_op xdrs = XDR_DECODE
      then (case XDR_GETLONG xdrs of
              (None, xdrs) \<Rightarrow> (False, xdrs, ullp)
            | (Some t1, xdrs) \<Rightarrow>
                (case XDR_GETLONG xdrs of
                   (None, xdrs) \<Rightarrow> (False, xdrs, ullp)
                 | (Some t2, xdrs) \<Rightarrow> (True, xdrs, push_bit 32 t1 OR ucast (ucast t2 :: u32))))
      else if x_op xdrs = XDR_FREE then (True, xdrs, ullp)
      else (False, xdrs, ullp))"

definition xdr_longlong_t :: "('s, u64) xdrproc_t" where
  "xdr_longlong_t xdrs llp = xdr_hyper xdrs llp"

definition xdr_u_longlong_t :: "('s, u64) xdrproc_t" where
  "xdr_u_longlong_t xdrs ullp = xdr_u_hyper xdrs ullp"

definition xdr_short :: "('s, u16) xdrproc_t" where
  "xdr_short xdrs sp =
     (case x_op xdrs of
        XDR_ENCODE \<Rightarrow> (let l = scast sp; (r, xdrs) = XDR_PUTLONG xdrs l in (r, xdrs, sp))
      | XDR_DECODE \<Rightarrow>
          (case XDR_GETLONG xdrs of
             (None, xdrs) \<Rightarrow> (False, xdrs, sp)
           | (Some l, xdrs) \<Rightarrow> (True, xdrs, ucast l))
      | XDR_FREE \<Rightarrow> (True, xdrs, sp))"

definition xdr_u_short :: "('s, u16) xdrproc_t" where
  "xdr_u_short xdrs usp =
     (case x_op xdrs of
        XDR_ENCODE \<Rightarrow> (let l = ucast usp; (r, xdrs) = XDR_PUTLONG xdrs l in (r, xdrs, usp))
      | XDR_DECODE \<Rightarrow>
          (case XDR_GETLONG xdrs of
             (None, xdrs) \<Rightarrow> (False, xdrs, usp)
           | (Some l, xdrs) \<Rightarrow> (True, xdrs, ucast l))
      | XDR_FREE \<Rightarrow> (True, xdrs, usp))"

definition xdr_char :: "('s, byte) xdrproc_t" where
  "xdr_char xdrs cp =
     (let i = scast cp; (r, xdrs, i) = xdr_int xdrs i
      in if \<not> r then (False, xdrs, cp) else (True, xdrs, ucast i))"

definition xdr_u_char :: "('s, byte) xdrproc_t" where
  "xdr_u_char xdrs cp =
     (let u = ucast cp; (r, xdrs, u) = xdr_u_int xdrs u
      in if \<not> r then (False, xdrs, cp) else (True, xdrs, ucast u))"

text \<open>\<open>bool_t\<close> is an \<open>int\<close>.\<close>

definition xdr_bool :: "('s, u32) xdrproc_t" where
  "xdr_bool xdrs bp =
     (case x_op xdrs of
        XDR_ENCODE \<Rightarrow>
          (let lb = if bp \<noteq> 0 then 1 else 0; (r, xdrs) = XDR_PUTLONG xdrs lb in (r, xdrs, bp))
      | XDR_DECODE \<Rightarrow>
          (case XDR_GETLONG xdrs of
             (None, xdrs) \<Rightarrow> (False, xdrs, bp)
           | (Some lb, xdrs) \<Rightarrow> (True, xdrs, if lb = 0 then 0 else 1))
      | XDR_FREE \<Rightarrow> (True, xdrs, bp))"

definition xdr_enum :: "('s, u32) xdrproc_t" where
  "xdr_enum xdrs ep =
     (case x_op xdrs of
        XDR_ENCODE \<Rightarrow> (let l = scast ep; (r, xdrs) = XDR_PUTLONG xdrs l in (r, xdrs, ep))
      | XDR_DECODE \<Rightarrow>
          (case XDR_GETLONG xdrs of
             (None, xdrs) \<Rightarrow> (False, xdrs, ep)
           | (Some l, xdrs) \<Rightarrow> (True, xdrs, ucast l))
      | XDR_FREE \<Rightarrow> (True, xdrs, ep))"

section \<open>Integers of fixed width\<close>

definition xdr_int64_t :: "('s, u64) xdrproc_t" where
  "xdr_int64_t xdrs ip =
     (case x_op xdrs of
        XDR_ENCODE \<Rightarrow>
          (let t1 = ucast (signed_drop_bit 32 ip); t2 = ucast ip; (r1, xdrs) = XDR_PUTINT32 xdrs t1
           in if r1 then (let (r2, xdrs) = XDR_PUTINT32 xdrs t2 in (r2, xdrs, ip))
              else (False, xdrs, ip))
      | XDR_DECODE \<Rightarrow>
          (case XDR_GETINT32 xdrs of
             (None, xdrs) \<Rightarrow> (False, xdrs, ip)
           | (Some t1, xdrs) \<Rightarrow>
               (case XDR_GETINT32 xdrs of
                  (None, xdrs) \<Rightarrow> (False, xdrs, ip)
                | (Some t2, xdrs) \<Rightarrow> (True, xdrs, push_bit 32 (scast t1) OR ucast t2)))
      | XDR_FREE \<Rightarrow> (True, xdrs, ip))"

definition xdr_quad_t :: "('s, u64) xdrproc_t" where
  "xdr_quad_t xdrs ip = xdr_int64_t xdrs ip"

definition xdr_uint64_t :: "('s, u64) xdrproc_t" where
  "xdr_uint64_t xdrs uip =
     (case x_op xdrs of
        XDR_ENCODE \<Rightarrow>
          (let t1 = ucast (drop_bit 32 uip); t2 = ucast uip; (r1, xdrs) = XDR_PUTINT32 xdrs t1
           in if r1 then (let (r2, xdrs) = XDR_PUTINT32 xdrs t2 in (r2, xdrs, uip))
              else (False, xdrs, uip))
      | XDR_DECODE \<Rightarrow>
          (case XDR_GETINT32 xdrs of
             (None, xdrs) \<Rightarrow> (False, xdrs, uip)
           | (Some t1, xdrs) \<Rightarrow>
               (case XDR_GETINT32 xdrs of
                  (None, xdrs) \<Rightarrow> (False, xdrs, uip)
                | (Some t2, xdrs) \<Rightarrow> (True, xdrs, push_bit 32 (ucast t1) OR ucast t2)))
      | XDR_FREE \<Rightarrow> (True, xdrs, uip))"

definition xdr_u_quad_t :: "('s, u64) xdrproc_t" where
  "xdr_u_quad_t xdrs ip = xdr_uint64_t xdrs ip"

definition xdr_int32_t :: "('s, u32) xdrproc_t" where
  "xdr_int32_t xdrs lp =
     (case x_op xdrs of
        XDR_ENCODE \<Rightarrow> (let (r, xdrs) = XDR_PUTINT32 xdrs lp in (r, xdrs, lp))
      | XDR_DECODE \<Rightarrow>
          (case XDR_GETINT32 xdrs of
             (None, xdrs) \<Rightarrow> (False, xdrs, lp)
           | (Some i, xdrs) \<Rightarrow> (True, xdrs, i))
      | XDR_FREE \<Rightarrow> (True, xdrs, lp))"

definition xdr_uint32_t :: "('s, u32) xdrproc_t" where
  "xdr_uint32_t xdrs ulp =
     (case x_op xdrs of
        XDR_ENCODE \<Rightarrow> (let (r, xdrs) = XDR_PUTINT32 xdrs ulp in (r, xdrs, ulp))
      | XDR_DECODE \<Rightarrow>
          (case XDR_GETINT32 xdrs of
             (None, xdrs) \<Rightarrow> (False, xdrs, ulp)
           | (Some i, xdrs) \<Rightarrow> (True, xdrs, i))
      | XDR_FREE \<Rightarrow> (True, xdrs, ulp))"

definition xdr_int16_t :: "('s, u16) xdrproc_t" where
  "xdr_int16_t xdrs ip =
     (case x_op xdrs of
        XDR_ENCODE \<Rightarrow> (let t = scast ip; (r, xdrs) = XDR_PUTINT32 xdrs t in (r, xdrs, ip))
      | XDR_DECODE \<Rightarrow>
          (case XDR_GETINT32 xdrs of
             (None, xdrs) \<Rightarrow> (False, xdrs, ip)
           | (Some t, xdrs) \<Rightarrow> (True, xdrs, ucast t))
      | XDR_FREE \<Rightarrow> (True, xdrs, ip))"

definition xdr_uint16_t :: "('s, u16) xdrproc_t" where
  "xdr_uint16_t xdrs uip =
     (case x_op xdrs of
        XDR_ENCODE \<Rightarrow> (let ut = ucast uip; (r, xdrs) = XDR_PUTINT32 xdrs ut in (r, xdrs, uip))
      | XDR_DECODE \<Rightarrow>
          (case XDR_GETINT32 xdrs of
             (None, xdrs) \<Rightarrow> (False, xdrs, uip)
           | (Some ut, xdrs) \<Rightarrow> (True, xdrs, ucast ut))
      | XDR_FREE \<Rightarrow> (True, xdrs, uip))"

definition xdr_int8_t :: "('s, byte) xdrproc_t" where
  "xdr_int8_t xdrs ip =
     (case x_op xdrs of
        XDR_ENCODE \<Rightarrow> (let t = scast ip; (r, xdrs) = XDR_PUTINT32 xdrs t in (r, xdrs, ip))
      | XDR_DECODE \<Rightarrow>
          (case XDR_GETINT32 xdrs of
             (None, xdrs) \<Rightarrow> (False, xdrs, ip)
           | (Some t, xdrs) \<Rightarrow> (True, xdrs, ucast t))
      | XDR_FREE \<Rightarrow> (True, xdrs, ip))"

definition xdr_uint8_t :: "('s, byte) xdrproc_t" where
  "xdr_uint8_t xdrs uip =
     (case x_op xdrs of
        XDR_ENCODE \<Rightarrow> (let ut = ucast uip; (r, xdrs) = XDR_PUTINT32 xdrs ut in (r, xdrs, uip))
      | XDR_DECODE \<Rightarrow>
          (case XDR_GETINT32 xdrs of
             (None, xdrs) \<Rightarrow> (False, xdrs, uip)
           | (Some ut, xdrs) \<Rightarrow> (True, xdrs, ucast ut))
      | XDR_FREE \<Rightarrow> (True, xdrs, uip))"

section \<open>Opaque data, counted bytes and strings\<close>

definition xdr_zero :: "byte list" where
  "xdr_zero = [0, 0, 0, 0]"

text \<open>The object is the contents of the buffer at \<open>cp\<close>, of at least \<open>cnt\<close> bytes.\<close>

definition xdr_opaque :: "'s XDR \<Rightarrow> byte list \<Rightarrow> u32 \<Rightarrow> bool \<times> 's XDR \<times> byte list" where
  "xdr_opaque xdrs cp cnt =
     (if cnt = 0 then (True, xdrs, cp)
      else let rndup = cnt mod BYTES_PER_XDR_UNIT;
               rndup = if rndup > 0 then BYTES_PER_XDR_UNIT - rndup else rndup
      in case x_op xdrs of
           XDR_DECODE \<Rightarrow>
             (let (r, bs, xdrs) = XDR_GETBYTES xdrs cnt; cp = store_at cp 0 bs
              in if \<not> r then (False, xdrs, cp)
                 else if rndup = 0 then (True, xdrs, cp)
                 else (let (r, crud, xdrs) = XDR_GETBYTES xdrs rndup in (r, xdrs, cp)))
         | XDR_ENCODE \<Rightarrow>
             (let (r, xdrs) = XDR_PUTBYTES xdrs cp cnt
              in if \<not> r then (False, xdrs, cp)
                 else if rndup = 0 then (True, xdrs, cp)
                 else (let (r, xdrs) = XDR_PUTBYTES xdrs xdr_zero rndup in (r, xdrs, cp)))
         | XDR_FREE \<Rightarrow> (True, xdrs, cp))"

text \<open>
  The object of \<open>xdr_bytes\<close> is the pair \<open>(*cpp, *sizep)\<close>.  Encoding a null pointer with a count of 0 is
  defined; with another count the C code reads through the null pointer, and the value here is that of an
  empty buffer, which no statement relies on.
\<close>

definition xdr_bytes ::
  "(u32 \<Rightarrow> byte list option) \<Rightarrow> 's XDR \<Rightarrow> byte list option \<times> u32 \<Rightarrow> u32 \<Rightarrow>
   bool \<times> 's XDR \<times> byte list option \<times> u32" where
  "xdr_bytes mem_alloc xdrs obj maxsize =
     (let (sp, size) = obj; (r, xdrs, size) = xdr_u_int xdrs size
      in if \<not> r then (False, xdrs, sp, size)
         else let nodesize = size
         in if nodesize > maxsize \<and> x_op xdrs \<noteq> XDR_FREE then (False, xdrs, sp, size)
         else case x_op xdrs of
           XDR_DECODE \<Rightarrow>
             if nodesize = 0 then (True, xdrs, sp, size)
             else (case (if sp = None then mem_alloc nodesize else sp) of
                     None \<Rightarrow> (False, xdrs, None, size)
                   | Some buf \<Rightarrow>
                       (let (r, xdrs, buf) = xdr_opaque xdrs buf nodesize in (r, xdrs, Some buf, size)))
         | XDR_ENCODE \<Rightarrow>
             (let (r, xdrs, buf) = xdr_opaque xdrs (case sp of None \<Rightarrow> [] | Some buf \<Rightarrow> buf) nodesize
              in (r, xdrs, sp, size))
         | XDR_FREE \<Rightarrow> (True, xdrs, None, size))"

definition MAX_NETOBJ_SZ :: u32 where
  "MAX_NETOBJ_SZ = 1024"

record netobj =
  n_len :: u32
  n_bytes :: "byte list option"

definition xdr_netobj :: "(u32 \<Rightarrow> byte list option) \<Rightarrow> ('s, netobj) xdrproc_t" where
  "xdr_netobj mem_alloc xdrs np =
     (let (r, xdrs, bytes, len) = xdr_bytes mem_alloc xdrs (n_bytes np, n_len np) MAX_NETOBJ_SZ
      in (r, xdrs, np\<lparr>n_bytes := bytes, n_len := len\<rparr>))"

definition c_strlen :: "byte list \<Rightarrow> nat" where
  "c_strlen sp = length (takeWhile (\<lambda>c. c \<noteq> 0) sp)"

text \<open>
  The object of \<open>xdr_string\<close> is \<open>*cpp\<close>, the buffer with the terminating byte.  The uninitialised \<open>size\<close>
  of the decoding branch is 0 here; \<open>xdr_u_int\<close> does not read it.
\<close>

definition xdr_string ::
  "(u32 \<Rightarrow> byte list option) \<Rightarrow> 's XDR \<Rightarrow> byte list option \<Rightarrow> u32 \<Rightarrow> bool \<times> 's XDR \<times> byte list option" where
  "xdr_string mem_alloc xdrs sp maxsize =
     (if x_op xdrs = XDR_FREE \<and> sp = None then (True, xdrs, None)
      else if x_op xdrs \<noteq> XDR_DECODE \<and> sp = None then (False, xdrs, None)
      else let size = if x_op xdrs = XDR_DECODE then 0 else of_nat (c_strlen (the sp));
               (r, xdrs, size) = xdr_u_int xdrs size
      in if \<not> r then (False, xdrs, sp)
         else if size > maxsize then (False, xdrs, sp)
         else let nodesize = size + 1
         in if nodesize = 0 then (False, xdrs, sp)
         else case x_op xdrs of
           XDR_DECODE \<Rightarrow>
             (case (if sp = None then mem_alloc nodesize else sp) of
                None \<Rightarrow> (False, xdrs, None)
              | Some buf \<Rightarrow>
                  (let buf = store_at buf (unat size) [0]; (r, xdrs, buf) = xdr_opaque xdrs buf size
                   in (r, xdrs, Some buf)))
         | XDR_ENCODE \<Rightarrow> (let (r, xdrs, buf) = xdr_opaque xdrs (the sp) size in (r, xdrs, sp))
         | XDR_FREE \<Rightarrow> (True, xdrs, None))"

definition LASTUNSIGNED :: u32 where
  "LASTUNSIGNED = 0 - 1"

definition xdr_wrapstring :: "(u32 \<Rightarrow> byte list option) \<Rightarrow> ('s, byte list option) xdrproc_t" where
  "xdr_wrapstring mem_alloc xdrs cpp =
     (let (r, xdrs, cpp) = xdr_string mem_alloc xdrs cpp LASTUNSIGNED
      in if r then (True, xdrs, cpp) else (False, xdrs, cpp))"

section \<open>Unions, arrays and pointers\<close>

text \<open>
  The array of \<open>struct xdr_discrim\<close> that ends with a null procedure is a list.  The object is the pair of
  the discriminant and the union.
\<close>

fun xdr_union_search :: "(u32 \<times> ('s, 'u) xdrproc_t) list \<Rightarrow> u32 \<Rightarrow> ('s, 'u) xdrproc_t option" where
  "xdr_union_search [] dscm = None"
| "xdr_union_search ((v, proc) # choices) dscm =
     (if v = dscm then Some proc else xdr_union_search choices dscm)"

definition xdr_union ::
  "(u32 \<times> ('s, 'u) xdrproc_t) list \<Rightarrow> ('s, 'u) xdrproc_t option \<Rightarrow> ('s, u32 \<times> 'u) xdrproc_t" where
  "xdr_union choices dfault xdrs obj =
     (let (dscmp, unp) = obj; (r, xdrs, dscm) = xdr_enum xdrs dscmp
      in if \<not> r then (False, xdrs, dscm, unp)
         else case xdr_union_search choices dscm of
           Some proc \<Rightarrow> (let (r, xdrs, unp) = proc xdrs unp in (r, xdrs, dscm, unp))
         | None \<Rightarrow>
             (case dfault of
                None \<Rightarrow> (False, xdrs, dscm, unp)
              | Some proc \<Rightarrow> (let (r, xdrs, unp) = proc xdrs unp in (r, xdrs, dscm, unp))))"

text \<open>
  The element loop of \<open>xdr_array\<close> and \<open>xdr_vector\<close>: \<open>n\<close> elements from the start of the array, up to the
  first for which the element procedure fails.  An array with fewer than \<open>n\<close> elements is outside of what
  the C code defines; the loop then ends with failure.
\<close>

fun xdr_elems :: "('s, 'a) xdrproc_t \<Rightarrow> nat \<Rightarrow> 's XDR \<Rightarrow> 'a list \<Rightarrow> bool \<times> 's XDR \<times> 'a list" where
  "xdr_elems elproc 0 xdrs target = (True, xdrs, target)"
| "xdr_elems elproc (Suc n) xdrs [] = (False, xdrs, [])"
| "xdr_elems elproc (Suc n) xdrs (x # target) =
     (let (stat, xdrs, x) = elproc xdrs x
      in if \<not> stat then (False, xdrs, x # target)
         else (let (stat, xdrs, target) = xdr_elems elproc n xdrs target in (stat, xdrs, x # target)))"

text \<open>
  The object of \<open>xdr_array\<close> is the pair \<open>(*addrp, *sizep)\<close>, with the array as the list of its elements;
  \<open>calloc c elsize\<close> gives \<open>c\<close> zeroed elements.  A null array is handed to the loop as an empty one.
  \<open>UINT_MAX / elsize\<close> is the division of C, which is not defined for \<open>elsize = 0\<close>.
\<close>

definition xdr_array ::
  "(u32 \<Rightarrow> u32 \<Rightarrow> 'a list option) \<Rightarrow> u32 \<Rightarrow> u32 \<Rightarrow> ('s, 'a) xdrproc_t \<Rightarrow>
   ('s, 'a list option \<times> u32) xdrproc_t" where
  "xdr_array calloc maxsize elsize elproc xdrs obj =
     (let (addrp, size) = obj; (r, xdrs, c) = xdr_u_int xdrs size
      in if \<not> r then (False, xdrs, addrp, c)
         else if (c > maxsize \<or> c > (0 - 1) div elsize) \<and> x_op xdrs \<noteq> XDR_FREE
         then (False, xdrs, addrp, c)
         else if addrp = None \<and> x_op xdrs = XDR_DECODE \<and> c = 0 then (True, xdrs, None, c)
         else if addrp = None \<and> x_op xdrs = XDR_FREE then (True, xdrs, None, c)
         else let target = if addrp = None \<and> x_op xdrs = XDR_DECODE then calloc c elsize else addrp
         in if target = None \<and> x_op xdrs = XDR_DECODE then (False, xdrs, None, c)
         else let (stat, xdrs, elems) = xdr_elems elproc (unat c) xdrs
                    (case target of None \<Rightarrow> [] | Some elems \<Rightarrow> elems)
         in if x_op xdrs = XDR_FREE then (stat, xdrs, None, c)
         else (stat, xdrs, (if target = None then None else Some elems), c))"

definition xdr_vector ::
  "u32 \<Rightarrow> u32 \<Rightarrow> ('s, 'a) xdrproc_t \<Rightarrow> ('s, 'a list) xdrproc_t" where
  "xdr_vector nelem elemsize xdr_elem xdrs basep = xdr_elems xdr_elem (unat nelem) xdrs basep"

text \<open>
  \<open>xdr_reference\<close>: \<open>calloc 1 size\<close> gives a zeroed object.  Encoding through a null pointer is outside of
  what the C code defines and has the value of a failure here.
\<close>

definition xdr_reference ::
  "(u32 \<Rightarrow> 'a option) \<Rightarrow> u32 \<Rightarrow> ('s, 'a) xdrproc_t \<Rightarrow> ('s, 'a option) xdrproc_t" where
  "xdr_reference calloc obj_size proc xdrs pp =
     (if pp = None \<and> x_op xdrs = XDR_FREE then (True, xdrs, None)
      else case (if pp = None \<and> x_op xdrs = XDR_DECODE then calloc obj_size else pp) of
        None \<Rightarrow> (False, xdrs, None)
      | Some obj \<Rightarrow>
          (let (stat, xdrs, obj) = proc xdrs obj
           in if x_op xdrs = XDR_FREE then (stat, xdrs, None) else (stat, xdrs, Some obj)))"

definition xdr_pointer ::
  "(u32 \<Rightarrow> 'a option) \<Rightarrow> u32 \<Rightarrow> ('s, 'a) xdrproc_t \<Rightarrow> ('s, 'a option) xdrproc_t" where
  "xdr_pointer calloc obj_size xdr_obj xdrs objpp =
     (let more_data = if objpp \<noteq> None then 1 else 0; (r, xdrs, more_data) = xdr_bool xdrs more_data
      in if \<not> r then (False, xdrs, objpp)
         else if more_data = 0 then (True, xdrs, None)
         else xdr_reference calloc obj_size xdr_obj xdrs objpp)"

definition xdr_free :: "('s, 'a) xdrproc_t \<Rightarrow> 's XDR \<Rightarrow> 'a \<Rightarrow> 'a" where
  "xdr_free proc x objp = (let (r, x, objp) = proc (x\<lparr>x_op := XDR_FREE\<rparr>) objp in objp)"

end
