(* ===== verification/Xdr_Stream.thy ===== *)
theory Xdr_Stream
  imports Xdr "HOL-Library.Sublist"
begin

text \<open>
  What the filters of \<^theory_text>\<open>Xdr\<close> do, for every stream.  The contract of a stream that is written is the
  locale \<open>xdr_encoder\<close>, that of a stream that is read the locale \<open>xdr_decoder\<close>; both are interpreted on the
  memory stream, the counting stream of \<open>xdr_sizeof\<close> and the record stream.  The reference are the encodings
  of RFC 4506, as functions to byte lists.
\<close>

section \<open>The encodings of RFC 4506\<close>

definition enc_u32 :: "u32 \<Rightarrow> byte list" where
  "enc_u32 w = word_be 4 w"

definition enc_u64 :: "u64 \<Rightarrow> byte list" where
  "enc_u64 w = word_be 8 w"

definition enc_bool :: "u32 \<Rightarrow> byte list" where
  "enc_bool b = enc_u32 (if b = 0 then 0 else 1)"

definition xdr_padding :: "nat \<Rightarrow> nat" where
  "xdr_padding n = (4 - n mod 4) mod 4"

definition enc_opaque :: "byte list \<Rightarrow> byte list" where
  "enc_opaque bs = bs @ replicate (xdr_padding (length bs)) 0"

definition enc_bytes :: "byte list \<Rightarrow> byte list" where
  "enc_bytes bs = enc_u32 (of_nat (length bs)) @ enc_opaque bs"

definition enc_array :: "('a \<Rightarrow> byte list) \<Rightarrow> 'a list \<Rightarrow> byte list" where
  "enc_array enc xs = enc_u32 (of_nat (length xs)) @ concat (map enc xs)"

fun enc_pointer :: "('a \<Rightarrow> byte list) \<Rightarrow> 'a option \<Rightarrow> byte list" where
  "enc_pointer enc None = enc_u32 0"
| "enc_pointer enc (Some x) = enc_u32 1 @ enc x"

lemma length_enc_u32 [simp]: "length (enc_u32 w) = 4"
  by (simp add: enc_u32_def)

lemma length_enc_u64 [simp]: "length (enc_u64 w) = 8"
  by (simp add: enc_u64_def)

lemma length_enc_opaque: "length (enc_opaque bs) = length bs + xdr_padding (length bs)"
  by (simp add: enc_opaque_def)

lemma xdr_padding_dvd: "4 dvd n + xdr_padding n"
proof -
  define q r where "q = n div 4" and "r = n mod 4"
  then have n: "n = 4 * q + r" "r < 4" by simp_all
  then have "r = 0 \<or> r = 1 \<or> r = 2 \<or> r = 3" by linarith
  moreover have "xdr_padding n = (4 - r) mod 4" by (simp add: xdr_padding_def r_def)
  ultimately have "n + xdr_padding n = 4 * (q + (if r = 0 then 0 else 1))" using n(1) by auto
  then show ?thesis by simp
qed

lemma enc_u64_split: "enc_u64 w = enc_u32 (ucast (drop_bit 32 w)) @ enc_u32 (ucast w)"
proof -
  have "word_le 4 (ucast w :: u32) = word_le 4 w"
    and "word_le 4 (ucast (drop_bit 32 w) :: u32) = word_le 4 (drop_bit 32 w)"
    by (rule word_le_cong; auto simp: bit_simps)+
  then show ?thesis
    using word_le_append [of 4 4 w] by (simp add: enc_u64_def enc_u32_def word_be_def)
qed

text \<open>Conversions between the widths of the C types.\<close>

lemma casts_32 [word_images]:
  fixes v :: u32
  shows "ucast (ucast v :: u64) = v" "ucast (scast v :: u64) = v"
    "scast (ucast (scast v :: u64) :: u32) = (scast v :: u64)"
  by (rule bit_word_eqI; auto simp: bit_simps)+

lemma casts_16 [word_images]:
  fixes v :: u16
  shows "ucast (ucast v :: u64) = (ucast v :: u32)" "ucast (scast v :: u64) = (scast v :: u32)"
    "ucast (scast (ucast v :: u32) :: u64) = v" "ucast (scast (scast v :: u32) :: u64) = v"
    "ucast (ucast v :: u32) = v" "ucast (scast v :: u32) = v"
  by (rule bit_word_eqI; auto simp: bit_simps)+

lemma casts_8 [word_images]:
  fixes v :: byte
  shows "ucast (ucast v :: u64) = (ucast v :: u32)" "ucast (scast v :: u64) = (scast v :: u32)"
    "ucast (scast (ucast v :: u32) :: u64) = v" "ucast (scast (scast v :: u32) :: u64) = v"
    "ucast (ucast v :: u32) = v" "ucast (scast v :: u32) = v"
  by (rule bit_word_eqI; auto simp: bit_simps)+

lemma casts_64 [word_images]:
  fixes v :: u64
  shows "ucast (signed_drop_bit 32 v) = (ucast (drop_bit 32 v) :: u32)"
    "push_bit 32 (ucast (ucast (drop_bit 32 v) :: u32)) OR ucast (ucast v :: u32) = v"
    "push_bit 32 (scast (ucast (drop_bit 32 v) :: u32)) OR ucast (ucast v :: u32) = v"
  by (rule bit_word_eqI; auto simp: bit_simps)+

text \<open>The count of padding bytes, as \<open>xdr_opaque\<close> computes it.\<close>

definition opaque_rndup :: "u32 \<Rightarrow> u32" where
  "opaque_rndup cnt =
     (let rndup = cnt mod BYTES_PER_XDR_UNIT in if rndup > 0 then BYTES_PER_XDR_UNIT - rndup else rndup)"

lemma unat_opaque_rndup: "unat (opaque_rndup cnt) = xdr_padding (unat cnt)"
proof -
  have m: "unat (cnt mod 4) = unat cnt mod 4" by (simp add: unat_mod_distrib)
  have "unat (4 - cnt mod 4) = 4 - unat cnt mod 4"
    using m by (subst unat_sub) (auto simp: word_le_nat_alt)
  moreover have "cnt mod 4 > 0 \<longleftrightarrow> unat cnt mod 4 > 0"
    using m by (metis unat_0 unat_gt_0 word_gt_0)
  ultimately show ?thesis
    using m by (auto simp: opaque_rndup_def BYTES_PER_XDR_UNIT_def xdr_padding_def Let_def)
qed

lemma xdr_padding_less: "xdr_padding n < 4"
  by (simp add: xdr_padding_def)

lemma take_xdr_zero: "take (unat (opaque_rndup cnt)) xdr_zero = replicate (xdr_padding (unat cnt)) 0"
proof -
  have "xdr_padding (unat cnt) \<in> {0, 1, 2, 3}"
    using xdr_padding_less [of "unat cnt"] by auto
  then show ?thesis
    unfolding unat_opaque_rndup xdr_zero_def by (auto simp: numeral_eq_Suc)
qed

lemma xdr_opaque_alt:
  "xdr_opaque xdrs cp cnt =
     (if cnt = 0 then (True, xdrs, cp)
      else case x_op xdrs of
           XDR_DECODE \<Rightarrow>
             (let (r, bs, xdrs) = XDR_GETBYTES xdrs cnt; cp = store_at cp 0 bs
              in if \<not> r then (False, xdrs, cp)
                 else if opaque_rndup cnt = 0 then (True, xdrs, cp)
                 else (let (r, crud, xdrs) = XDR_GETBYTES xdrs (opaque_rndup cnt) in (r, xdrs, cp)))
         | XDR_ENCODE \<Rightarrow>
             (let (r, xdrs) = XDR_PUTBYTES xdrs cp cnt
              in if \<not> r then (False, xdrs, cp)
                 else if opaque_rndup cnt = 0 then (True, xdrs, cp)
                 else (let (r, xdrs) = XDR_PUTBYTES xdrs xdr_zero (opaque_rndup cnt) in (r, xdrs, cp)))
         | XDR_FREE \<Rightarrow> (True, xdrs, cp))"
  unfolding xdr_opaque_def opaque_rndup_def Let_def ..

lemmas int_filter_defs =
  xdr_int_def xdr_u_int_def xdr_short_def xdr_u_short_def xdr_enum_def xdr_bool_def
  xdr_int32_t_def xdr_uint32_t_def xdr_int16_t_def xdr_uint16_t_def xdr_int8_t_def xdr_uint8_t_def

section \<open>Streams that are written\<close>

text \<open>
  \<open>strm\<close> is the invariant of the stream, \<open>room s n\<close> that \<open>n\<close> more bytes can be written and \<open>emits s bs t\<close>
  that writing \<open>bs\<close> leads from \<open>s\<close> to \<open>t\<close>.
\<close>

locale xdr_encoder =
  fixes ops :: "'s xdr_ops"
    and strm :: "'s \<Rightarrow> bool"
    and room :: "'s \<Rightarrow> nat \<Rightarrow> bool"
    and emits :: "'s \<Rightarrow> byte list \<Rightarrow> 's \<Rightarrow> bool"
  assumes room_less: "room s n \<Longrightarrow> m \<le> n \<Longrightarrow> room s m"
    and room_none: "strm s \<Longrightarrow> room s 0"
    and emits_refl: "strm s \<Longrightarrow> emits s [] s"
    and emits_trans: "strm s \<Longrightarrow> emits s a t \<Longrightarrow> emits t b u \<Longrightarrow> emits s (a @ b) u"
    and emits_strm: "strm s \<Longrightarrow> emits s bs t \<Longrightarrow> strm t"
    and emits_room: "strm s \<Longrightarrow> emits s bs t \<Longrightarrow> room t n = room s (length bs + n)"
    and putlong_spec: "strm s \<Longrightarrow>
      if room s 4 then \<exists>t. x_putlong ops l s = (True, t) \<and> emits s (enc_u32 (ucast l)) t
      else \<not> fst (x_putlong ops l s)"
    and putint32_spec: "strm s \<Longrightarrow>
      if room s 4 then \<exists>t. x_putint32 ops i s = (True, t) \<and> emits s (enc_u32 i) t
      else \<not> fst (x_putint32 ops i s)"
    and putbytes_spec: "strm s \<Longrightarrow> unat k \<le> length bs \<Longrightarrow>
      if room s (unat k) then \<exists>t. x_putbytes ops bs k s = (True, t) \<and> emits s (take (unat k) bs) t
      else \<not> fst (x_putbytes ops bs k s)"
begin

definition writing :: "'s XDR \<Rightarrow> bool" where
  "writing x = (x_op x = XDR_ENCODE \<and> x_ops x = ops \<and> strm (x_str x))"

text \<open>\<open>writes x bs r y\<close>: from \<open>x\<close>, a routine that writes \<open>bs\<close> returns \<open>r\<close> and leaves the handle \<open>y\<close>.\<close>

definition writes :: "'s XDR \<Rightarrow> byte list \<Rightarrow> bool \<Rightarrow> 's XDR \<Rightarrow> bool" where
  "writes x bs r y =
     ((r = room (x_str x) (length bs)) \<and>
      x_op y = x_op x \<and> (r \<longrightarrow> x_ops y = x_ops x \<and> emits (x_str x) bs (x_str y)))"

definition encodes :: "('s XDR \<Rightarrow> 'a \<Rightarrow> bool \<times> 's XDR \<times> 'a) \<Rightarrow> 'a \<Rightarrow> byte list \<Rightarrow> bool" where
  "encodes f v bs = (\<forall>x r y v'. writing x \<longrightarrow> f x v = (r, y, v') \<longrightarrow> writes x bs r y \<and> v' = v)"

lemma encodesI:
  assumes "\<And>x r y v'. writing x \<Longrightarrow> f x v = (r, y, v') \<Longrightarrow> writes x bs r y \<and> v' = v"
  shows "encodes f v bs"
  using assms unfolding encodes_def by blast

lemma encodesD:
  "encodes f v bs \<Longrightarrow> writing x \<Longrightarrow> f x v = (r, y, v') \<Longrightarrow> writes x bs r y \<and> v' = v"
  unfolding encodes_def by blast

lemma encodes_ok:
  assumes "encodes f v bs" "writing x" "room (x_str x) (length bs)"
  shows "\<exists>y. f x v = (True, y, v) \<and> emits (x_str x) bs (x_str y)"
  using assms by (cases "f x v") (auto simp: writes_def dest!: encodesD)

lemma encodes_full:
  assumes "encodes f v bs" "writing x" "\<not> room (x_str x) (length bs)"
  shows "\<not> fst (f x v)"
  using assms by (cases "f x v") (auto simp: writes_def dest!: encodesD)

lemma writing_op: "writing x \<Longrightarrow> x_op x = XDR_ENCODE"
  by (simp add: writing_def)

lemma writes_op: "writes x bs r y \<Longrightarrow> x_op y = x_op x"
  by (simp add: writes_def)

lemma writes_writing: "writing x \<Longrightarrow> writes x bs True y \<Longrightarrow> writing y"
  using emits_strm by (auto simp: writing_def writes_def)

lemma encodes_op: "encodes f v bs \<Longrightarrow> writing x \<Longrightarrow> f x v = (r, y, v') \<Longrightarrow> x_op y = XDR_ENCODE"
  using writing_op by (auto dest!: encodesD writes_op)

lemma writes_nothing: "writing x \<Longrightarrow> writes x [] True x"
  by (simp add: writes_def writing_def emits_refl room_none)

lemma writes_append:
  assumes "writing x" "writes x a True y" "writes y b r z"
  shows "writes x (a @ b) r z"
  using assms emits_room [of "x_str x" a "x_str y" "length b"]
    emits_trans [of "x_str x" a "x_str y" b "x_str z"]
  by (auto simp: writes_def writing_def)

lemma writes_failed: "writes x a False y \<Longrightarrow> writes x (a @ b) False y"
  using room_less [of "x_str x" "length a + length b" "length a"] by (auto simp: writes_def)

lemma writes_PUTLONG:
  assumes "writing x" "XDR_PUTLONG x l = (r, y)" "ucast l = w"
  shows "writes x (enc_u32 w) r y"
  using assms putlong_spec [of "x_str x" l]
  by (auto simp: XDR_PUTLONG_def writes_def writing_def split: prod.splits if_splits)

lemma writes_PUTINT32:
  assumes "writing x" "XDR_PUTINT32 x i = (r, y)"
  shows "writes x (enc_u32 i) r y"
  using assms putint32_spec [of "x_str x" i]
  by (auto simp: XDR_PUTINT32_def writes_def writing_def split: prod.splits if_splits)

lemma writes_PUTBYTES:
  assumes "writing x" "XDR_PUTBYTES x bs n = (r, y)" "unat n \<le> length bs"
  shows "writes x (take (unat n) bs) r y"
  using assms putbytes_spec [of "x_str x" n bs]
  by (auto simp: XDR_PUTBYTES_def writes_def writing_def min_def split: prod.splits if_splits)

lemma writes_then:
  assumes "writing x" "writes x a True y" "writing y \<Longrightarrow> writes y b r z"
  shows "writes x (a @ b) r z"
  by (rule writes_append [OF assms(1,2) assms(3) [OF writes_writing [OF assms(1,2)]]])

text \<open>A write that comes first, when it succeeds and when it fails.\<close>

lemma writes_PUTLONG_then:
  assumes "writing x" "XDR_PUTLONG x l = (True, y)" "ucast l = w" "writing y \<Longrightarrow> writes y b r z"
  shows "writes x (enc_u32 w @ b) r z"
  by (rule writes_then [OF assms(1) writes_PUTLONG [OF assms(1-3)] assms(4)])

lemma writes_PUTLONG_stop:
  "writing x \<Longrightarrow> XDR_PUTLONG x l = (False, y) \<Longrightarrow> ucast l = w \<Longrightarrow> writes x (enc_u32 w @ b) False y"
  by (rule writes_failed [OF writes_PUTLONG])

lemma writes_PUTINT32_then:
  assumes "writing x" "XDR_PUTINT32 x i = (True, y)" "writing y \<Longrightarrow> writes y b r z"
  shows "writes x (enc_u32 i @ b) r z"
  by (rule writes_then [OF assms(1) writes_PUTINT32 [OF assms(1-2)] assms(3)])

lemma writes_PUTINT32_stop:
  "writing x \<Longrightarrow> XDR_PUTINT32 x i = (False, y) \<Longrightarrow> writes x (enc_u32 i @ b) False y"
  by (rule writes_failed [OF writes_PUTINT32])

lemma writes_PUTBYTES_then:
  assumes "writing x" "XDR_PUTBYTES x bs n = (True, y)" "unat n \<le> length bs" "writing y \<Longrightarrow> writes y b r z"
  shows "writes x (take (unat n) bs @ b) r z"
  by (rule writes_then [OF assms(1) writes_PUTBYTES [OF assms(1-3)] assms(4)])

lemma writes_PUTBYTES_stop:
  "writing x \<Longrightarrow> XDR_PUTBYTES x bs n = (False, y) \<Longrightarrow> unat n \<le> length bs \<Longrightarrow>
   writes x (take (unat n) bs @ b) False y"
  by (rule writes_failed [OF writes_PUTBYTES])

lemma encodes_then:
  assumes "encodes f v a" "writing x" "f x v = (True, y, v')" "writing y \<Longrightarrow> writes y b r z"
  shows "writes x (a @ b) r z"
  by (rule writes_then [OF assms(2) conjunct1 [OF encodesD [OF assms(1-3)]] assms(4)])

lemma encodes_stop:
  "encodes f v a \<Longrightarrow> writing x \<Longrightarrow> f x v = (False, y, v') \<Longrightarrow> writes x (a @ b) False y"
  by (rule writes_failed [OF conjunct1 [OF encodesD]])

lemmas writes_rules =
  writes_PUTLONG writes_PUTLONG_then writes_PUTLONG_stop writes_PUTINT32 writes_PUTINT32_then
  writes_PUTINT32_stop writes_PUTBYTES writes_PUTBYTES_then writes_PUTBYTES_stop

lemma encodes_ints:
  "encodes xdr_int v (enc_u32 v)" "encodes xdr_u_int v (enc_u32 v)" "encodes xdr_enum v (enc_u32 v)"
  "encodes xdr_int32_t v (enc_u32 v)" "encodes xdr_uint32_t v (enc_u32 v)"
  "encodes xdr_bool v (enc_bool v)"
  by (rule encodesI; auto simp: int_filter_defs enc_bool_def writing_op word_images
      split: prod.splits if_splits intro: writes_PUTLONG writes_PUTINT32)+

lemma encodes_shorts:
  "encodes xdr_short w (enc_u32 (scast w))" "encodes xdr_u_short w (enc_u32 (ucast w))"
  "encodes xdr_int16_t w (enc_u32 (scast w))" "encodes xdr_uint16_t w (enc_u32 (ucast w))"
  "encodes xdr_int8_t b (enc_u32 (scast b))" "encodes xdr_uint8_t b (enc_u32 (ucast b))"
  by (rule encodesI; auto simp: int_filter_defs writing_op word_images
      split: prod.splits if_splits intro: writes_PUTLONG writes_PUTINT32)+

lemma encodes_chars:
  "encodes xdr_char b (enc_u32 (scast b))" "encodes xdr_u_char b (enc_u32 (ucast b))"
  by (rule encodesI; auto simp: xdr_char_def xdr_u_char_def word_images
      split: prod.splits if_splits dest: encodesD [OF encodes_ints(1)] encodesD [OF encodes_ints(2)])+

lemma encodes_longs:
  "scast (ucast l :: u32) = l \<Longrightarrow> encodes xdr_long l (enc_u32 (ucast l))"
  "ucast (ucast l :: u32) = l \<Longrightarrow> encodes xdr_u_long l (enc_u32 (ucast l))"
  by (rule encodesI; auto simp: xdr_long_def xdr_u_long_def writing_op
      split: prod.splits if_splits intro: writes_PUTLONG)+

lemma encodes_hypers:
  "encodes xdr_hyper l (enc_u64 l)" "encodes xdr_u_hyper l (enc_u64 l)"
  "encodes xdr_int64_t l (enc_u64 l)" "encodes xdr_uint64_t l (enc_u64 l)"
  unfolding enc_u64_split
  by (rule encodesI; auto simp: xdr_hyper_def xdr_u_hyper_def xdr_int64_t_def xdr_uint64_t_def writing_op word_images
      split: prod.splits if_splits intro: writes_rules)+

lemma encodes_opaque:
  assumes "unat cnt \<le> length cp"
  shows "encodes (\<lambda>x b. xdr_opaque x b cnt) cp (enc_opaque (take (unat cnt) cp))"
proof (rule encodesI)
  fix x r y v assume w: "writing x" and f: "xdr_opaque x cp cnt = (r, y, v)"
  have enc: "enc_opaque (take (unat cnt) cp) = take (unat cnt) cp @ take (unat (opaque_rndup cnt)) xdr_zero"
    using assms by (simp add: enc_opaque_def take_xdr_zero min_def)
  have zero: "unat (opaque_rndup cnt) \<le> length xdr_zero"
    using xdr_padding_less [of "unat cnt"] by (simp add: unat_opaque_rndup xdr_zero_def)
  show "writes x (enc_opaque (take (unat cnt) cp)) r y \<and> v = cp"
  proof (cases "cnt = 0")
    case True
    then show ?thesis
      using w f by (auto simp: xdr_opaque_alt enc_opaque_def xdr_padding_def intro: writes_nothing)
  next
    case False
    obtain r1 y1 where p: "XDR_PUTBYTES x cp cnt = (r1, y1)" by fastforce
    obtain r2 y2 where q: "XDR_PUTBYTES y1 xdr_zero (opaque_rndup cnt) = (r2, y2)" by fastforce
    have f: "(if \<not> r1 then (False, y1, cp) else if opaque_rndup cnt = 0 then (True, y1, cp) else (r2, y2, cp)) = (r, y, v)"
      using f False p q by (simp add: xdr_opaque_alt writing_op [OF w] cong: if_cong)
    then have "v = cp" by (simp split: if_splits)
    moreover have "writes x (take (unat cnt) cp @ take (unat (opaque_rndup cnt)) xdr_zero) r y"
    proof (cases r1)
      case True
      then have "writes y1 (take (unat (opaque_rndup cnt)) xdr_zero) r y" if "writing y1"
        using f writes_PUTBYTES [OF that q zero] writes_nothing [OF that] by (simp split: if_splits)
      then show ?thesis using writes_PUTBYTES_then [OF w _ assms, of y1] p True by simp
    next
      case False
      then show ?thesis using f p writes_PUTBYTES_stop [OF w _ assms] by simp
    qed
    ultimately show ?thesis by (simp add: enc)
  qed
qed

lemma encodes_seq:
  assumes "encodes f u a" "encodes g v b"
    and "\<And>x r y. writing x \<Longrightarrow> f x u = (r, y, u) \<Longrightarrow> x_op y = XDR_ENCODE \<Longrightarrow> (r \<Longrightarrow> writing y) \<Longrightarrow>
      h x v = (if r then g y v else (False, y, v))"
  shows "encodes h v (a @ b)"
proof (rule encodesI)
  fix x r y v' assume w: "writing x" and h: "h x v = (r, y, v')"
  obtain r1 y1 where p: "f x u = (r1, y1, u)"
    using encodesD [OF assms(1) w] by (cases "f x u") auto
  have y1: "writing y1" if r1
    using encodesD [OF assms(1) w p] writes_writing [OF w] that by simp
  have h: "(if r1 then g y1 v else (False, y1, v)) = (r, y, v')"
    using assms(3) [OF w p encodes_op [OF assms(1) w p] y1] h by simp
  show "writes x (a @ b) r y \<and> v' = v"
  proof (cases r1)
    case True
    with p have p: "f x u = (True, y1, u)" by simp
    have g: "g y1 v = (r, y, v')" using h True by simp
    from encodesD [OF assms(2) y1 [OF True] g] show ?thesis
      using encodes_then [OF assms(1) w p] by blast
  next
    case False
    then show ?thesis using h p encodes_stop [OF assms(1) w] by auto
  qed
qed

lemma encodes_on:
  assumes "encodes f u b"
  shows "encodes (\<lambda>x v. let (r, y, u') = f x u in (r, y, v)) v b"
  by (rule encodesI) (auto split: prod.splits dest: encodesD [OF assms])

lemma encodes_bytes:
  assumes "unat k \<le> length buf" "k \<le> maxsize"
  shows "encodes (\<lambda>x obj. xdr_bytes mem_alloc x obj maxsize) (Some buf, k) (enc_bytes (take (unat k) buf))"
proof -
  have enc: "enc_bytes (take (unat k) buf) = enc_u32 k @ enc_opaque (take (unat k) buf)"
    using assms(1) by (simp add: enc_bytes_def min_def)
  show ?thesis
    unfolding enc
    by (intro encodes_seq [OF encodes_ints(2) encodes_on [OF encodes_opaque [OF assms(1)]]])
      (simp add: xdr_bytes_def leD [OF assms(2)])
qed

lemma encodes_netobj:
  assumes "unat k \<le> length buf" "k \<le> MAX_NETOBJ_SZ"
  shows "encodes (xdr_netobj mem_alloc) \<lparr>n_len = k, n_bytes = Some buf\<rparr> (enc_bytes (take (unat k) buf))"
  by (rule encodesI)
    (auto simp: xdr_netobj_def split: prod.splits dest: encodesD [OF encodes_bytes [OF assms]])

lemma encodes_string:
  assumes "length s < 2 ^ 32 - 1" "of_nat (length s) \<le> maxsize" "0 \<notin> set s"
  shows "encodes (\<lambda>x obj. xdr_string mem_alloc x obj maxsize) (Some (s @ 0 # rest)) (enc_bytes s)"
proof -
  define k :: u32 where "k = of_nat (length s)"
  have k: "unat k = length s" using assms(1) by (simp add: k_def unat_of_nat_small)
  have "takeWhile (\<lambda>c. c \<noteq> 0) (s @ 0 # rest) = s"
    using assms(3) by (induction s) auto
  then have len: "of_nat (c_strlen (s @ 0 # rest)) = k" by (simp add: c_strlen_def k_def)
  have "unat (k + 1) \<noteq> 0" using k assms(1) by (subst unat_add_lem [THEN iffD1]) auto
  then have over: "k + 1 \<noteq> 0" by auto
  have enc: "enc_bytes s = enc_u32 k @ enc_opaque (take (unat k) (s @ 0 # rest))"
    by (simp add: enc_bytes_def k_def [symmetric] k)
  show ?thesis
    unfolding enc using over leD [OF assms(2)]
    by (intro encodes_seq [OF encodes_ints(2) encodes_on [OF encodes_opaque]])
      (simp_all add: xdr_string_def len k k_def [symmetric] writing_op)
qed

lemma encodes_wrapstring:
  assumes "length s < 2 ^ 32 - 1" "0 \<notin> set s"
  shows "encodes (xdr_wrapstring mem_alloc) (Some (s @ 0 # rest)) (enc_bytes s)"
proof -
  have "of_nat (length s) \<le> LASTUNSIGNED" by (simp add: LASTUNSIGNED_def)
  from encodesD [OF encodes_string [OF assms(1) this assms(2)]] show ?thesis
    by (intro encodesI) (auto simp: xdr_wrapstring_def split: prod.splits if_splits)
qed

lemma encodes_elems:
  assumes "n \<le> length xs" "\<And>v. v \<in> set (take n xs) \<Longrightarrow> encodes elproc v (enc v)"
  shows "encodes (xdr_elems elproc n) xs (concat (map enc (take n xs)))"
  using assms
proof (induction n arbitrary: xs)
  case 0
  show ?case by (rule encodesI) (auto intro: writes_nothing)
next
  case (Suc n)
  then obtain v vs where xs: "xs = v # vs" by (cases xs) auto
  have "encodes (xdr_elems elproc n) vs (concat (map enc (take n vs)))"
    using Suc xs by auto
  then have "encodes (\<lambda>x u. let (r, y, t) = xdr_elems elproc n x vs in (r, y, v # t)) xs
      (concat (map enc (take n vs)))"
    unfolding xs by (intro encodesI) (auto split: prod.splits dest: encodesD)
  with Suc.prems have "encodes (xdr_elems elproc (Suc n)) xs (enc v @ concat (map enc (take n vs)))"
    by (intro encodes_seq [where f = elproc and u = v]) (auto simp: xs)
  then show ?case by (simp add: xs)
qed

lemma encodes_vector:
  assumes "unat n \<le> length xs" "\<And>v. v \<in> set (take (unat n) xs) \<Longrightarrow> encodes elproc v (enc v)"
  shows "encodes (xdr_vector n elemsize elproc) xs (concat (map enc (take (unat n) xs)))"
  using encodes_elems [OF assms] by (auto simp: encodes_def xdr_vector_def)

lemma encodes_array:
  assumes "unat c = length xs" "c \<le> maxsize" "c \<le> (0 - 1) div elsize"
    and "\<And>v. v \<in> set xs \<Longrightarrow> encodes elproc v (enc v)"
  shows "encodes (xdr_array calloc maxsize elsize elproc) (Some xs, c) (enc_array enc xs)"
proof -
  have "of_nat (length xs) = c" by (simp flip: assms(1))
  then have enc: "enc_array enc xs = enc_u32 c @ concat (map enc xs)" by (simp add: enc_array_def)
  have "encodes (xdr_elems elproc (unat c)) xs (concat (map enc xs))"
    using encodes_elems [of "unat c" xs elproc enc] assms by simp
  then have "encodes (\<lambda>x obj. let (r, y, t) = xdr_elems elproc (unat c) x xs in (r, y, Some t, c))
      (Some xs, c) (concat (map enc xs))" and op: "\<And>x r y t. writing x \<Longrightarrow>
      xdr_elems elproc (unat c) x xs = (r, y, t) \<Longrightarrow> x_op y = XDR_ENCODE"
    by (auto simp: encodes_def writing_op writes_op split: prod.splits)
  then show ?thesis
    unfolding enc using leD [OF assms(2)] leD [OF assms(3)]
    by (intro encodes_seq [OF encodes_ints(2)])
      (auto simp: xdr_array_def split: prod.splits dest: op)
qed

lemma encodes_string_array:
  assumes "length ss \<le> unat maxsize" "of_nat (length ss) \<le> (0 - 1 :: u32) div elsize"
    and "list_all (\<lambda>s. length s < 2 ^ 32 - 1 \<and> 0 \<notin> set s) ss"
  shows "encodes (xdr_array calloc maxsize elsize (xdr_wrapstring mem_alloc))
    (Some (map (\<lambda>s. Some (s @ [0])) ss), of_nat (length ss)) (enc_array enc_bytes ss)"
proof -
  let ?xs = "map (\<lambda>s. Some (s @ [0])) ss" and ?enc = "\<lambda>v. enc_bytes (butlast (the v))"
  have enc: "enc_array enc_bytes ss = enc_array ?enc ?xs" by (simp add: enc_array_def o_def)
  have len: "unat (of_nat (length ss) :: u32) = length ss"
    using assms(1) unat_lt2p [of maxsize] by (intro unat_of_nat_small) simp
  have max: "of_nat (length ss) \<le> maxsize" using assms(1) len by (simp add: word_le_nat_alt)
  have "encodes (xdr_wrapstring mem_alloc) v (?enc v)" if "v \<in> set ?xs" for v
    using that assms(3) encodes_wrapstring [where rest = "[]"] by (auto simp: list_all_iff)
  then show ?thesis unfolding enc using len max assms(2) by (intro encodes_array) auto
qed

lemma encodes_reference:
  assumes "encodes proc v bs"
  shows "encodes (xdr_reference calloc obj_size proc) (Some v) bs"
  using assms encodes_op [OF assms]
  by (intro encodesI) (auto simp: xdr_reference_def writing_op split: prod.splits if_splits dest: encodesD)

lemma encodes_pointer:
  assumes "\<And>v. pp = Some v \<Longrightarrow> encodes proc v (enc v)"
  shows "encodes (xdr_pointer calloc obj_size proc) pp (enc_pointer enc pp)"
proof (cases pp)
  case None
  then show ?thesis
    by (intro encodesI) (auto simp: xdr_pointer_def enc_bool_def split: prod.splits if_splits
        dest: encodesD [OF encodes_ints(6)])
next
  case (Some v)
  have "encodes (xdr_reference calloc obj_size proc) pp (enc v)"
    unfolding Some by (rule encodes_reference) (rule assms [OF Some])
  then have "encodes (xdr_pointer calloc obj_size proc) pp (enc_bool 1 @ enc v)"
    by (rule encodes_seq [OF encodes_ints(6)]) (simp add: xdr_pointer_def Some)
  then show ?thesis by (simp add: Some enc_bool_def)
qed

lemma encodes_union:
  assumes "xdr_union_search choices d = Some proc \<or>
      (xdr_union_search choices d = None \<and> dfault = Some proc)"
    and "encodes proc u bs"
  shows "encodes (xdr_union choices dfault) (d, u) (enc_u32 d @ bs)"
proof -
  have "encodes (\<lambda>x obj. let (r, y, u) = proc x u in (r, y, d, u)) (d, u) bs"
    by (rule encodesI) (auto split: prod.splits dest: encodesD [OF assms(2)])
  then show ?thesis
    by (rule encodes_seq [OF encodes_ints(3)]) (use assms(1) in \<open>auto simp: xdr_union_def\<close>)
qed

end

end
