(* ===== verification/Xdr_Decode.thy ===== *)
theory Xdr_Decode
  imports Xdr_Stream
begin

text \<open>
  What the filters do when they decode, for every stream that is read: from an input that starts with the
  encoding of a value they return that value and leave the rest of the input, and on an input that ends
  inside the encoding they return \<open>FALSE\<close>.
\<close>

text \<open>
  An allocator that always succeeds: \<open>mem_alloc\<close> gives a block of the size asked for.
\<close>

definition alloc_ok :: "(u32 \<Rightarrow> byte list option) \<Rightarrow> bool" where
  "alloc_ok mem_alloc = (\<forall>k. \<exists>buf. mem_alloc k = Some buf \<and> length buf = unat k)"

lemma alloc_okE:
  assumes "alloc_ok mem_alloc"
  obtains buf where "mem_alloc k = Some buf" "length buf = unat k"
  using assms unfolding alloc_ok_def by blast

lemma unat_of_nat_Suc_u32: "n < 2 ^ 32 - 1 \<Longrightarrow> unat (of_nat n + 1 :: u32) = Suc n"
  using unat_of_nat_small [of "Suc n", where 'a = 32] by (simp only: of_nat_Suc add.commute) simp

text \<open>\<open>strm\<close> is the invariant of the stream and \<open>input\<close> what is left to be read.\<close>

locale xdr_decoder =
  fixes ops :: "'s xdr_ops"
    and strm :: "'s \<Rightarrow> bool"
    and input :: "'s \<Rightarrow> byte list"
  assumes getlong_spec: "strm s \<Longrightarrow>
      if 4 \<le> length (input s)
      then \<exists>t. x_getlong ops s = (Some (scast (be_word (take 4 (input s)) :: u32)), t) \<and> strm t \<and>
        input t = drop 4 (input s)
      else fst (x_getlong ops s) = None"
    and getint32_spec: "strm s \<Longrightarrow>
      if 4 \<le> length (input s)
      then \<exists>t. x_getint32 ops s = (Some (be_word (take 4 (input s))), t) \<and> strm t \<and>
        input t = drop 4 (input s)
      else fst (x_getint32 ops s) = None"
    and getbytes_spec: "strm s \<Longrightarrow>
      if unat k \<le> length (input s)
      then \<exists>t. x_getbytes ops k s = (True, take (unat k) (input s), t) \<and> strm t \<and>
        input t = drop (unat k) (input s)
      else \<not> fst (x_getbytes ops k s)"
begin

definition reading :: "'s XDR \<Rightarrow> bool" where
  "reading x = (x_op x = XDR_DECODE \<and> x_ops x = ops \<and> strm (x_str x))"

definition consumes :: "'s XDR \<Rightarrow> byte list \<Rightarrow> 's XDR \<Rightarrow> bool" where
  "consumes x bs y = (reading y \<and> input (x_str x) = bs @ input (x_str y))"

definition decodes ::
  "('s XDR \<Rightarrow> 'a \<Rightarrow> bool \<times> 's XDR \<times> 'a) \<Rightarrow> ('a \<Rightarrow> bool) \<Rightarrow> byte list \<Rightarrow> ('a \<Rightarrow> 'a) \<Rightarrow> bool" where
  "decodes f P bs v =
     (\<forall>x old. reading x \<longrightarrow> P old \<longrightarrow>
        (prefix bs (input (x_str x)) \<longrightarrow> (\<exists>y. f x old = (True, y, v old) \<and> consumes x bs y)) \<and>
        (strict_prefix (input (x_str x)) bs \<longrightarrow> \<not> fst (f x old)))"

lemma decodesI:
  assumes "\<And>x old. reading x \<Longrightarrow> P old \<Longrightarrow> prefix bs (input (x_str x)) \<Longrightarrow>
      \<exists>y. f x old = (True, y, v old) \<and> consumes x bs y"
    and "\<And>x old. reading x \<Longrightarrow> P old \<Longrightarrow> strict_prefix (input (x_str x)) bs \<Longrightarrow> \<not> fst (f x old)"
  shows "decodes f P bs v"
  using assms unfolding decodes_def by blast

lemma decodes_ok:
  assumes "decodes f P bs v" "reading x" "P old" "input (x_str x) = bs @ rest"
  shows "\<exists>y. f x old = (True, y, v old) \<and> reading y \<and> input (x_str y) = rest"
  using assms unfolding decodes_def consumes_def by fastforce

lemma decodes_truncated:
  assumes "decodes f P bs v" "reading x" "P old" "strict_prefix (input (x_str x)) bs"
  shows "\<not> fst (f x old)"
  using assms unfolding decodes_def by blast

lemma reading_op: "reading x \<Longrightarrow> x_op x = XDR_DECODE"
  by (simp add: reading_def)

lemma strict_prefix_shorter: "strict_prefix xs ys \<Longrightarrow> length xs < length ys"
  by (auto simp: strict_prefix_def prefix_def)

lemma GETLONG_ok:
  assumes "reading x" "prefix (enc_u32 w) (input (x_str x))"
  shows "\<exists>y. XDR_GETLONG x = (Some (scast w), y) \<and> consumes x (enc_u32 w) y"
  using assms getlong_spec [of "x_str x"]
  by (auto simp: prefix_def XDR_GETLONG_def reading_def consumes_def enc_u32_def be_word_word_be
      split: prod.splits)

lemma GETINT32_ok:
  assumes "reading x" "prefix (enc_u32 w) (input (x_str x))"
  shows "\<exists>y. XDR_GETINT32 x = (Some w, y) \<and> consumes x (enc_u32 w) y"
  using assms getint32_spec [of "x_str x"]
  by (auto simp: prefix_def XDR_GETINT32_def reading_def consumes_def enc_u32_def be_word_word_be
      split: prod.splits)

lemma GETLONG_truncated:
  assumes "reading x" "length (input (x_str x)) < 4"
  shows "\<exists>y. XDR_GETLONG x = (None, y)"
  using assms getlong_spec [of "x_str x"]
  by (auto simp: XDR_GETLONG_def reading_def split: prod.splits)

lemma GETINT32_truncated:
  assumes "reading x" "length (input (x_str x)) < 4"
  shows "\<exists>y. XDR_GETINT32 x = (None, y)"
  using assms getint32_spec [of "x_str x"]
  by (auto simp: XDR_GETINT32_def reading_def split: prod.splits)

lemma GETBYTES_ok:
  assumes "reading x" "prefix bs (input (x_str x))" "unat k = length bs"
  shows "\<exists>y. XDR_GETBYTES x k = (True, bs, y) \<and> consumes x bs y"
  using assms getbytes_spec [of "x_str x" k]
  by (auto simp: prefix_def XDR_GETBYTES_def reading_def consumes_def split: prod.splits)

lemma GETBYTES_truncated:
  assumes "reading x" "length (input (x_str x)) < unat k"
  shows "\<exists>bs y. XDR_GETBYTES x k = (False, bs, y)"
  using assms getbytes_spec [of "x_str x" k]
  by (auto simp: XDR_GETBYTES_def reading_def split: prod.splits)

text \<open>A filter that reads one unit and returns a function of it.\<close>

lemma decodes_getlong:
  assumes "\<And>x y l old. reading x \<Longrightarrow> XDR_GETLONG x = (Some l, y) \<Longrightarrow> f x old = (True, y, c l)"
    and "\<And>x y old. reading x \<Longrightarrow> XDR_GETLONG x = (None, y) \<Longrightarrow> \<not> fst (f x old)"
    and v: "c (scast w) = v"
  shows "decodes f P (enc_u32 w) (\<lambda>_. v)"
  unfolding v [symmetric]
proof (rule decodesI)
  fix x old assume x: "reading x"
  show "\<exists>y. f x old = (True, y, c (scast w)) \<and> consumes x (enc_u32 w) y"
    if "prefix (enc_u32 w) (input (x_str x))"
    using GETLONG_ok [OF x that] assms(1) [OF x] by blast
  show "\<not> fst (f x old)" if "strict_prefix (input (x_str x)) (enc_u32 w)"
    using GETLONG_truncated [OF x] strict_prefix_shorter [OF that] assms(2) [OF x] by auto
qed

lemma decodes_getint32:
  assumes "\<And>x y i old. reading x \<Longrightarrow> XDR_GETINT32 x = (Some i, y) \<Longrightarrow> f x old = (True, y, c i)"
    and "\<And>x y old. reading x \<Longrightarrow> XDR_GETINT32 x = (None, y) \<Longrightarrow> \<not> fst (f x old)"
    and v: "c w = v"
  shows "decodes f P (enc_u32 w) (\<lambda>_. v)"
  unfolding v [symmetric]
proof (rule decodesI)
  fix x old assume x: "reading x"
  show "\<exists>y. f x old = (True, y, c w) \<and> consumes x (enc_u32 w) y"
    if "prefix (enc_u32 w) (input (x_str x))"
    using GETINT32_ok [OF x that] assms(1) [OF x] by blast
  show "\<not> fst (f x old)" if "strict_prefix (input (x_str x)) (enc_u32 w)"
    using GETINT32_truncated [OF x] strict_prefix_shorter [OF that] assms(2) [OF x] by auto
qed

text \<open>A filter that first reads \<open>u\<close> with \<open>f\<close> and goes on with \<open>g\<close>.\<close>

lemma decodes_seq:
  assumes f: "decodes f Q a (\<lambda>_. u)" and g: "decodes g P b v"
    and Q: "\<And>old. P old \<Longrightarrow> Q (p old)"
    and ok: "\<And>x y old. reading x \<Longrightarrow> P old \<Longrightarrow> f x (p old) = (True, y, u) \<Longrightarrow> reading y \<Longrightarrow> h x old = g y old"
    and bad: "\<And>x y old u'. reading x \<Longrightarrow> P old \<Longrightarrow> f x (p old) = (False, y, u') \<Longrightarrow> \<not> fst (h x old)"
  shows "decodes h P (a @ b) v"
proof (rule decodesI)
  fix x old assume x: "reading x" and P: "P old"
  have first: "\<exists>y. f x (p old) = (True, y, u) \<and> reading y \<and> input (x_str x) = a @ input (x_str y)"
    if "prefix a (input (x_str x))"
    using f x Q [OF P] that by (auto simp: decodes_def consumes_def)
  show "\<exists>y. h x old = (True, y, v old) \<and> consumes x (a @ b) y" if p: "prefix (a @ b) (input (x_str x))"
  proof -
    from p have "prefix a (input (x_str x))" by (rule append_prefixD)
    from first [OF this] obtain y where y: "f x (p old) = (True, y, u)" "reading y"
      "input (x_str x) = a @ input (x_str y)" by blast
    then have "prefix b (input (x_str y))" using p by (simp add: prefix_def)
    then obtain z where "g y old = (True, z, v old)" "consumes y b z"
      using g y(2) P by (auto simp: decodes_def)
    then show ?thesis using ok [OF x P y(1,2)] y(3) by (auto simp: consumes_def)
  qed
  show "\<not> fst (h x old)" if s: "strict_prefix (input (x_str x)) (a @ b)"
  proof (cases "prefix a (input (x_str x))")
    case True
    from first [OF this] obtain y where y: "f x (p old) = (True, y, u)" "reading y"
      "input (x_str x) = a @ input (x_str y)" by blast
    then have "strict_prefix (input (x_str y)) b" using s by (auto simp: strict_prefix_def prefix_def)
    then have "\<not> fst (g y old)" using g y(2) P by (auto simp: decodes_def)
    then show ?thesis using ok [OF x P y(1,2)] by simp
  next
    case False
    then have "strict_prefix (input (x_str x)) a"
      using s prefix_same_cases [of "input (x_str x)" "a @ b" a]
      by (auto simp: strict_prefix_def)
    then have "\<not> fst (f x (p old))" using f x Q [OF P] by (auto simp: decodes_def)
    then show ?thesis using bad [OF x P] by (cases "f x (p old)") auto
  qed
qed

lemma decodes_nothing: "decodes (\<lambda>x old. (True, x, v old)) P [] v"
  by (rule decodesI) (auto simp: consumes_def)

lemma decodes_ints:
  "decodes xdr_int P (enc_u32 v) (\<lambda>_. v)" "decodes xdr_u_int P (enc_u32 v) (\<lambda>_. v)"
  "decodes xdr_enum P (enc_u32 v) (\<lambda>_. v)"
  by (rule decodes_getlong [where c = ucast]; simp add: int_filter_defs reading_op word_images)+

lemma decodes_int32s:
  "decodes xdr_int32_t P (enc_u32 v) (\<lambda>_. v)" "decodes xdr_uint32_t P (enc_u32 v) (\<lambda>_. v)"
  by (rule decodes_getint32 [where c = "\<lambda>i. i"]; simp add: int_filter_defs reading_op)+

lemma decodes_bool: "decodes xdr_bool P (enc_bool v) (\<lambda>_. if v = 0 then 0 else 1)"
  unfolding enc_bool_def
  by (rule decodes_getlong [where c = "\<lambda>lb. if lb = 0 then 0 else 1"]; simp add: int_filter_defs reading_op)

lemma decodes_shorts:
  "decodes xdr_short P (enc_u32 (scast v)) (\<lambda>_. v)" "decodes xdr_u_short P (enc_u32 (ucast v)) (\<lambda>_. v)"
  by (rule decodes_getlong [where c = ucast]; simp add: int_filter_defs reading_op word_images)+

lemma decodes_int16s:
  "decodes xdr_int16_t P (enc_u32 (scast v)) (\<lambda>_. v)" "decodes xdr_uint16_t P (enc_u32 (ucast v)) (\<lambda>_. v)"
  "decodes xdr_int8_t Q (enc_u32 (scast b)) (\<lambda>_. b)" "decodes xdr_uint8_t Q (enc_u32 (ucast b)) (\<lambda>_. b)"
  by (rule decodes_getint32 [where c = ucast]; simp add: int_filter_defs reading_op word_images)+

lemma decodes_longs:
  "decodes xdr_long P (enc_u32 w) (\<lambda>_. scast w)" "decodes xdr_u_long P (enc_u32 w) (\<lambda>_. ucast w)"
  by (rule decodes_getlong [where c = "\<lambda>l. l"], simp_all add: xdr_long_def reading_op)
    (rule decodes_getlong [where c = "\<lambda>l. ucast (ucast l :: u32)"], simp_all add: xdr_u_long_def reading_op word_images)

lemma decodes_chars:
  "decodes xdr_char P (enc_u32 (scast v)) (\<lambda>_. v)" "decodes xdr_u_char P (enc_u32 (ucast v)) (\<lambda>_. v)"
  using decodes_seq [OF decodes_ints(1) decodes_nothing, where p = scast and h = xdr_char and v = "\<lambda>_. v" and P = P]
    decodes_seq [OF decodes_ints(2) decodes_nothing, where p = ucast and h = xdr_u_char and v = "\<lambda>_. v" and P = P]
  by (simp_all add: xdr_char_def xdr_u_char_def word_images)

lemma decodes_hypers:
  "decodes xdr_hyper P (enc_u64 v) (\<lambda>_. v)" "decodes xdr_u_hyper P (enc_u64 v) (\<lambda>_. v)"
proof -
  let ?c = "\<lambda>l :: u64. push_bit 32 (scast (ucast (drop_bit 32 v) :: u32)) OR ucast (ucast l :: u32)"
  have "decodes (\<lambda>x old. case XDR_GETLONG x of (None, y) \<Rightarrow> (False, y, old) | (Some l, y) \<Rightarrow> (True, y, ?c l))
      P (enc_u32 (ucast v)) (\<lambda>_. v)"
    by (rule decodes_getlong [where c = ?c]) (auto simp: word_images)
  note seq = decodes_seq [OF decodes_longs(1) [where P = "\<lambda>_. True"] this, where p = "\<lambda>old. old"]
  show "decodes xdr_hyper P (enc_u64 v) (\<lambda>_. v)" "decodes xdr_u_hyper P (enc_u64 v) (\<lambda>_. v)"
    unfolding enc_u64_split
    by (rule seq; auto simp: xdr_hyper_def xdr_u_hyper_def xdr_long_def reading_op
        split: prod.splits option.splits)+
qed

lemma decodes_int64:
  assumes "\<And>w :: u32. c w = scast w \<or> c w = ucast w"
    and f: "\<And>x y i old. reading x \<Longrightarrow> XDR_GETINT32 x = (Some i, y) \<Longrightarrow>
      f x old = (case XDR_GETINT32 y of (None, y) \<Rightarrow> (False, y, old)
        | (Some t2, y) \<Rightarrow> (True, y, push_bit 32 (c i) OR ucast t2))"
    and "\<And>x y old. reading x \<Longrightarrow> XDR_GETINT32 x = (None, y) \<Longrightarrow> \<not> fst (f x old)"
  shows "decodes f P (enc_u64 v) (\<lambda>_. v :: u64)"
proof -
  let ?c = "\<lambda>l :: u32. push_bit 32 (c (ucast (drop_bit 32 v))) OR ucast l"
  have c: "?c (ucast v) = v" using assms(1) [of "ucast (drop_bit 32 v)"] by (auto simp: word_images)
  have "decodes (\<lambda>x old. case XDR_GETINT32 x of (None, y) \<Rightarrow> (False, y, old) | (Some l, y) \<Rightarrow> (True, y, ?c l))
      P (enc_u32 (ucast v)) (\<lambda>_. v)"
    by (rule decodes_getint32 [where c = ?c]) (auto simp: c)
  then show ?thesis
    unfolding enc_u64_split
    by (rule decodes_seq [OF decodes_int32s(1) [where P = "\<lambda>_. True"], where p = "\<lambda>_. 0"])
      (auto simp: int_filter_defs reading_op f assms(3) split: prod.splits option.splits)
qed

lemma decodes_int64s:
  "decodes xdr_int64_t P (enc_u64 v) (\<lambda>_. v)" "decodes xdr_uint64_t P (enc_u64 v) (\<lambda>_. v)"
  by (rule decodes_int64 [where c = scast], simp_all add: xdr_int64_t_def reading_op)
    (rule decodes_int64 [where c = ucast], simp_all add: xdr_uint64_t_def reading_op)

lemma decodes_getbytes:
  assumes "unat k = length bs"
  shows "decodes (\<lambda>x (b :: byte list). let (r, bs, y) = XDR_GETBYTES x k in (r, y, bs)) P bs (\<lambda>_. bs)"
proof (rule decodesI)
  fix x :: "'s XDR" and old :: "byte list" assume x: "reading x"
  show "\<exists>y. (let (r, bs, y) = XDR_GETBYTES x k in (r, y, bs)) = (True, y, bs) \<and> consumes x bs y"
    if "prefix bs (input (x_str x))"
    using GETBYTES_ok [OF x that assms] by auto
  show "\<not> fst (let (r, bs, y) = XDR_GETBYTES x k in (r, y, bs))" if "strict_prefix (input (x_str x)) bs"
    using GETBYTES_truncated [OF x, of k] strict_prefix_shorter [OF that] assms by auto
qed

text \<open>The padding is skipped whatever it holds; what \<open>xdr_opaque\<close> writes there are zero bytes.\<close>

lemma decodes_opaque:
  assumes "unat cnt = length bs"
  shows "decodes (\<lambda>x b. xdr_opaque x b cnt) P (enc_opaque bs) (\<lambda>b. store_at b 0 bs)"
proof (cases "cnt = 0")
  case True
  then show ?thesis
    using assms decodes_nothing [where v = "\<lambda>b. b"]
    by (simp add: xdr_opaque_alt enc_opaque_def xdr_padding_def store_at_def)
next
  case False
  let ?pad = "replicate (xdr_padding (length bs)) (0 :: byte)"
  let ?g = "\<lambda>x b. if opaque_rndup cnt = 0 then (True, x, store_at b 0 bs)
      else let (r, crud, y) = XDR_GETBYTES x (opaque_rndup cnt) in (r, y, store_at b 0 bs)"
  have pad: "unat (opaque_rndup cnt) = length ?pad"
    by (simp add: unat_opaque_rndup assms)
  have g: "decodes ?g P ?pad (\<lambda>b. store_at b 0 bs)"
  proof (cases "opaque_rndup cnt = 0")
    case True
    then show ?thesis using pad decodes_nothing by simp
  next
    case False
    have "decodes ?g P (?pad @ []) (\<lambda>b. store_at b 0 bs)"
      by (rule decodes_seq [where p = "\<lambda>b. b", OF decodes_getbytes [OF pad, where P = "\<lambda>_. True"] decodes_nothing])
        (use False in \<open>auto split: prod.splits\<close>)
    then show ?thesis by simp
  qed
  show ?thesis
    unfolding enc_opaque_def using False
    by (intro decodes_seq [where p = "\<lambda>b. b", OF decodes_getbytes [OF assms, where P = "\<lambda>_. True"] g])
      (auto simp: xdr_opaque_alt reading_op split: prod.splits)
qed

text \<open>A filter that works on a part \<open>p old\<close> of the object and puts the result back with \<open>q old\<close>.\<close>

lemma decodes_part:
  assumes f: "decodes f Q bs u" and Q: "\<And>old. P old \<Longrightarrow> Q (p old)" and v: "\<And>old. P old \<Longrightarrow> q old (u (p old)) = v old"
  shows "decodes (\<lambda>x old. let (r, y, w) = f x (p old) in (r, y, q old w)) P bs v"
proof (rule decodesI)
  fix x old assume x: "reading x" and P: "P old"
  show "\<exists>y. (let (r, y, w) = f x (p old) in (r, y, q old w)) = (True, y, v old) \<and> consumes x bs y"
    if pre: "prefix bs (input (x_str x))"
  proof -
    obtain y where "f x (p old) = (True, y, u (p old))" "consumes x bs y"
      using f x Q [OF P] pre by (auto simp: decodes_def)
    then show ?thesis using v [OF P] by simp
  qed
  show "\<not> fst (let (r, y, w) = f x (p old) in (r, y, q old w))" if "strict_prefix (input (x_str x)) bs"
    using decodes_truncated [OF f x Q [OF P] that] by (cases "f x (p old)") simp
qed

lemma decodes_cong:
  assumes f: "decodes f P bs v"
    and ok: "\<And>x y old w. reading x \<Longrightarrow> P old \<Longrightarrow> f x old = (True, y, w) \<Longrightarrow> reading y \<Longrightarrow> g x old = (True, y, w)"
    and bad: "\<And>x old. reading x \<Longrightarrow> P old \<Longrightarrow> \<not> fst (f x old) \<Longrightarrow> \<not> fst (g x old)"
  shows "decodes g P bs v"
proof (rule decodesI)
  fix x old assume x: "reading x" and P: "P old"
  show "\<exists>y. g x old = (True, y, v old) \<and> consumes x bs y" if pre: "prefix bs (input (x_str x))"
  proof -
    obtain y where "f x old = (True, y, v old)" "consumes x bs y"
      using f x P pre by (auto simp: decodes_def)
    then show ?thesis using ok [OF x P] by (auto simp: consumes_def)
  qed
  show "\<not> fst (g x old)" if "strict_prefix (input (x_str x)) bs"
    using bad [OF x P decodes_truncated [OF f x P that]] .
qed

lemma decodes_bytes:
  assumes "length bs \<le> unat maxsize" and alloc: "bs \<noteq> [] \<Longrightarrow> mem_alloc (of_nat (length bs)) = Some buf"
    and "length buf = length bs"
  shows "decodes (\<lambda>x obj. xdr_bytes mem_alloc x obj maxsize) (\<lambda>old. fst old = None) (enc_bytes bs)
    (\<lambda>_. (if bs = [] then None else Some bs, of_nat (length bs)))"
proof -
  define k :: u32 where "k = of_nat (length bs)"
  have "length bs < 2 ^ LENGTH(32)" using assms(1) unat_lt2p [of maxsize] by simp
  then have k: "unat k = length bs" unfolding k_def by (rule unat_of_nat_small)
  have le: "\<not> maxsize < k" using assms(1) k by (simp add: word_less_nat_alt)
  have k0: "k = 0 \<longleftrightarrow> bs = []" using k by (auto simp: unat_eq_zero)
  let ?g = "\<lambda>x (old :: byte list option \<times> u32). if k = 0 then (True, x, None, k) else let (r, y, b) = xdr_opaque x buf k in (r, y, Some b, k)"
  have full: "store_at buf 0 bs = bs" using assms(3) by (simp add: store_at_def)
  have g: "decodes ?g (\<lambda>old. fst old = None) (enc_opaque bs) (\<lambda>_. (if bs = [] then None else Some bs, k))"
  proof (cases "k = 0")
    case True
    then show ?thesis using k0 decodes_nothing by (simp add: enc_opaque_def xdr_padding_def)
  next
    case False
    then show ?thesis
      using decodes_part [OF decodes_opaque [OF k], where p = "\<lambda>_. buf" and q = "\<lambda>_ b. (Some b, k)"] k0 full by simp
  qed
  have "decodes (\<lambda>x obj. xdr_bytes mem_alloc x obj maxsize) (\<lambda>old. fst old = None) (enc_u32 k @ enc_opaque bs)
    (\<lambda>_. (if bs = [] then None else Some bs, k))"
    by (rule decodes_seq [where p = snd, OF decodes_ints(2) [where P = "\<lambda>_. True"] g])
      (use alloc k0 le in \<open>auto simp: xdr_bytes_def reading_op k_def [symmetric] split: prod.splits\<close>)
  then show ?thesis by (simp add: enc_bytes_def k_def)
qed

lemma decodes_string:
  assumes "length s \<le> unat maxsize" "length s < 2 ^ 32 - 1"
    and alloc: "mem_alloc (of_nat (length s) + 1) = Some buf" "length buf = Suc (length s)"
  shows "decodes (\<lambda>x obj. xdr_string mem_alloc x obj maxsize) (\<lambda>old. old = None) (enc_bytes s) (\<lambda>_. Some (s @ [0]))"
proof -
  define k :: u32 where "k = of_nat (length s)"
  have k: "unat k = length s" unfolding k_def using assms(2) by (intro unat_of_nat_small) simp
  have le: "\<not> maxsize < k" using assms(1) k by (simp add: word_less_nat_alt)
  have "unat (k + 1) \<noteq> 0" using k assms(2) by (subst unat_add_lem [THEN iffD1]) auto
  then have over: "k + 1 \<noteq> 0" by auto
  have full: "store_at (store_at buf (length s) [0]) 0 s = s @ [0]"
    using alloc(2) by (simp add: store_at_def)
  have g: "decodes (\<lambda>x old. let (r, y, b) = xdr_opaque x (store_at buf (unat k) [0]) k in (r, y, Some b)) (\<lambda>old. old = None)
      (enc_opaque s) (\<lambda>_. Some (s @ [0]))"
    using decodes_part [OF decodes_opaque [OF k], where p = "\<lambda>_ :: byte list option. store_at buf (unat k) [0]" and q = "\<lambda>_ b. Some b"] full
    by (simp add: k)
  have "decodes (\<lambda>x obj. xdr_string mem_alloc x obj maxsize) (\<lambda>old. old = None) (enc_u32 k @ enc_opaque s)
    (\<lambda>_. Some (s @ [0]))"
    by (rule decodes_seq [where p = "\<lambda>_. 0", OF decodes_ints(2) [where P = "\<lambda>_. True"] g])
      (use alloc(1) le over in \<open>auto simp: xdr_string_def reading_op k_def [symmetric] split: prod.splits\<close>)
  then show ?thesis by (simp add: enc_bytes_def k_def)
qed

lemma decodes_wrapstring:
  assumes "length s < 2 ^ 32 - 1" "mem_alloc (of_nat (length s) + 1) = Some buf" "length buf = Suc (length s)"
  shows "decodes (xdr_wrapstring mem_alloc) (\<lambda>old. old = None) (enc_bytes s) (\<lambda>_. Some (s @ [0]))"
proof -
  have "unat LASTUNSIGNED = 2 ^ 32 - 1" by (simp add: LASTUNSIGNED_def unsigned_minus_1_eq_mask mask_eq_exp_minus_1)
  then have "length s \<le> unat LASTUNSIGNED" using assms(1) by simp
  from decodes_string [where mem_alloc = mem_alloc, OF this assms] show ?thesis
    by (rule decodes_cong) (auto simp: xdr_wrapstring_def split: prod.splits)
qed

lemma decodes_elems:
  assumes "\<And>v. v \<in> set xs \<Longrightarrow> decodes elproc Q (enc v) (\<lambda>_. v)"
  shows "decodes (xdr_elems elproc (length xs)) (\<lambda>t. length t = length xs \<and> (\<forall>z \<in> set t. Q z))
    (concat (map enc xs)) (\<lambda>_. xs)"
  using assms
proof (induction xs)
  case Nil
  then show ?case by (auto intro!: decodesI simp: consumes_def)
next
  case (Cons v xs)
  let ?P = "\<lambda>t. length t = length (v # xs) \<and> (\<forall>z \<in> set t. Q z)"
  have "decodes (\<lambda>x t. let (r, y, t) = xdr_elems elproc (length xs) x (tl t) in (r, y, v # t)) ?P
      (concat (map enc xs)) (\<lambda>_. v # xs)"
    using Cons by (intro decodes_part [OF Cons.IH, where q = "\<lambda>_ t. v # t"]) (auto dest: list.set_sel(2) [rotated])
  with Cons.prems have "decodes (xdr_elems elproc (Suc (length xs))) ?P (enc v @ concat (map enc xs)) (\<lambda>_. v # xs)"
    by (intro decodes_seq [where p = hd and Q = Q and f = elproc and u = v])
      (auto simp: length_Suc_conv split: prod.splits)
  then show ?case by simp
qed

lemma decodes_vector:
  assumes "unat n = length xs" "\<And>v. v \<in> set xs \<Longrightarrow> decodes elproc Q (enc v) (\<lambda>_. v)"
  shows "decodes (xdr_vector n elemsize elproc) (\<lambda>t. length t = length xs \<and> (\<forall>z \<in> set t. Q z))
    (concat (map enc xs)) (\<lambda>_. xs)"
  using decodes_elems [OF assms(2)] by (simp add: xdr_vector_def [abs_def] assms(1))

lemma xdr_array_decode:
  assumes "xdr_u_int x n = (True, y, c)" "x_op y = XDR_DECODE" "\<not> maxsize < c" "\<not> (0 - 1) div elsize < c"
  shows "xdr_array calloc maxsize elsize elproc x (None, n) =
    (if c = 0 then (True, y, None, c)
     else case calloc c elsize of
         None \<Rightarrow> (False, y, None, c)
       | Some zs \<Rightarrow>
           (let (r, z, t) = xdr_elems elproc (unat c) y zs
            in if x_op z = XDR_FREE then (r, z, None, c) else (r, z, Some t, c)))"
  using assms by (cases "calloc c elsize") (simp_all add: xdr_array_def split: prod.split)

lemma decodes_array:
  assumes "length xs \<le> unat maxsize" "of_nat (length xs) \<le> (0 - 1 :: u32) div elsize"
    and alloc: "xs \<noteq> [] \<Longrightarrow> calloc (of_nat (length xs)) elsize = Some zs" "length zs = length xs"
    and "\<And>z. z \<in> set zs \<Longrightarrow> Q z" "\<And>v. v \<in> set xs \<Longrightarrow> decodes elproc Q (enc v) (\<lambda>_. v)"
  shows "decodes (xdr_array calloc maxsize elsize elproc) (\<lambda>old. fst old = None) (enc_array enc xs)
    (\<lambda>_. (if xs = [] then None else Some xs, of_nat (length xs)))"
proof -
  define c :: u32 where "c = of_nat (length xs)"
  have "length xs < 2 ^ LENGTH(32)" using assms(1) unat_lt2p [of maxsize] by simp
  then have c: "unat c = length xs" unfolding c_def by (rule unat_of_nat_small)
  have le: "\<not> maxsize < c" "\<not> (0 - 1) div elsize < c"
    using assms(1) c leD [OF assms(2)] by (simp_all add: word_less_nat_alt [of maxsize] c_def)
  have c0: "c = 0 \<longleftrightarrow> xs = []" using c by (auto simp: unat_eq_zero)
  let ?g = "\<lambda>x (old :: 'a list option \<times> u32). if c = 0 then (True, x, None, c)
    else let (r, y, t) = xdr_elems elproc (length xs) x zs in (r, y, Some t, c)"
  let ?h = "\<lambda>x (old :: 'a list option \<times> u32). if c = 0 then (True, x, None, c)
    else let (r, y, t) = xdr_elems elproc (length xs) x zs
      in if x_op y = XDR_FREE then (r, y, None, c) else (r, y, Some t, c)"
  have elems: "decodes (xdr_elems elproc (length xs)) (\<lambda>t. length t = length xs \<and> (\<forall>z \<in> set t. Q z))
      (concat (map enc xs)) (\<lambda>_. xs)"
    using assms(6) by (rule decodes_elems)
  have g: "decodes ?g (\<lambda>old. fst old = None) (concat (map enc xs)) (\<lambda>_. (if xs = [] then None else Some xs, c))"
  proof (cases "c = 0")
    case True
    then show ?thesis using c0 decodes_nothing by simp
  next
    case False
    then show ?thesis
      using decodes_part [OF elems, where p = "\<lambda>_. zs" and q = "\<lambda>_ t. (Some t, c)"] c0 alloc(2) assms(5) by simp
  qed
  then have h: "decodes ?h (\<lambda>old. fst old = None) (concat (map enc xs)) (\<lambda>_. (if xs = [] then None else Some xs, c))"
    by (rule decodes_cong) (auto dest: reading_op split: prod.splits if_splits)
  have "decodes (xdr_array calloc maxsize elsize elproc) (\<lambda>old. fst old = None) (enc_u32 c @ concat (map enc xs))
    (\<lambda>_. (if xs = [] then None else Some xs, c))"
  proof (rule decodes_seq [where p = snd, OF decodes_ints(2) [where P = "\<lambda>_. True"] h])
    fix x y :: "'s XDR" and old :: "'a list option \<times> u32"
    assume "fst old = None"
    then have old: "old = (None, snd old)" by (cases old) simp
    show "xdr_array calloc maxsize elsize elproc x old = ?h y old"
      if "xdr_u_int x (snd old) = (True, y, c)" "reading y"
      using xdr_array_decode [OF that(1) reading_op [OF that(2)] le, of calloc elproc] alloc(1) c0 c
      by (subst old) (auto simp: c_def [symmetric])
    show "\<not> fst (xdr_array calloc maxsize elsize elproc x old)" if "xdr_u_int x (snd old) = (False, y, u')" for u'
      using that by (subst old) (simp add: xdr_array_def)
  qed simp
  then show ?thesis by (simp add: enc_array_def c_def)
qed

lemma decodes_string_array:
  assumes "alloc_ok mem_alloc" "ss \<noteq> []" "length ss \<le> unat maxsize" "of_nat (length ss) \<le> (0 - 1 :: u32) div elsize"
    and "list_all (\<lambda>s. length s < 2 ^ 32 - 1 \<and> 0 \<notin> set s) ss"
    and "calloc (of_nat (length ss)) elsize = Some (replicate (length ss) None)"
  shows "decodes (xdr_array calloc maxsize elsize (xdr_wrapstring mem_alloc)) (\<lambda>old. fst old = None)
    (enc_array enc_bytes ss) (\<lambda>_. (Some (map (\<lambda>s. Some (s @ [0])) ss), of_nat (length ss)))"
proof -
  let ?xs = "map (\<lambda>s. Some (s @ [0])) ss" and ?enc = "\<lambda>v. enc_bytes (butlast (the v))"
  have enc: "enc_array enc_bytes ss = enc_array ?enc ?xs" by (simp add: enc_array_def o_def)
  have "decodes (xdr_wrapstring mem_alloc) (\<lambda>old. old = None) (?enc v) (\<lambda>_. v)" if v: "v \<in> set ?xs" for v
  proof -
    obtain s where s: "v = Some (s @ [0])" "length s < 2 ^ 32 - 1" using v assms(5) by (auto simp: list_all_iff)
    obtain buf where "mem_alloc (of_nat (length s) + 1) = Some buf" "length buf = Suc (length s)"
      using alloc_okE [OF assms(1)] unat_of_nat_Suc_u32 [OF s(2)] by metis
    then show ?thesis using decodes_wrapstring [OF s(2), of mem_alloc buf] s(1) by simp
  qed
  then have "decodes (xdr_array calloc maxsize elsize (xdr_wrapstring mem_alloc)) (\<lambda>old. fst old = None)
      (enc_array ?enc ?xs) (\<lambda>_. (if ?xs = [] then None else Some ?xs, of_nat (length ?xs)))"
    using assms(3,4,6)
    by (intro decodes_array [where zs = "replicate (length ss) None" and Q = "\<lambda>old. old = None"]) auto
  then show ?thesis unfolding enc using assms(2) by simp
qed

lemma decodes_reference:
  assumes "calloc obj_size = Some z" "Q z" "decodes proc Q bs (\<lambda>_. v)"
  shows "decodes (xdr_reference calloc obj_size proc) (\<lambda>old. old = None) bs (\<lambda>_. Some v)"
proof -
  have "decodes (\<lambda>x (old :: 'a option). let (r, y, w) = proc x z in (r, y, Some w)) (\<lambda>old. old = None) bs (\<lambda>_. Some v)"
    using assms(2) by (intro decodes_part [OF assms(3), where q = "\<lambda>_. Some"]) auto
  then show ?thesis
    by (rule decodes_cong)
      (auto simp: xdr_reference_def assms(1) reading_op split: prod.splits if_splits)
qed

lemma decodes_pointer:
  assumes "calloc obj_size = Some z" "Q z" "\<And>v. pp = Some v \<Longrightarrow> decodes proc Q (enc v) (\<lambda>_. v)"
  shows "decodes (xdr_pointer calloc obj_size proc) (\<lambda>old. old = None) (enc_pointer enc pp) (\<lambda>_. pp)"
proof (cases pp)
  case None
  have "decodes (xdr_pointer calloc obj_size proc) (\<lambda>old. old = None) (enc_bool 0 @ []) (\<lambda>_. None)"
    by (rule decodes_seq [where p = "\<lambda>_. 0", OF decodes_bool [where P = "\<lambda>_. True"] decodes_nothing])
      (auto simp: xdr_pointer_def split: prod.splits)
  then show ?thesis by (simp add: None enc_bool_def)
next
  case (Some v)
  have "decodes (xdr_reference calloc obj_size proc) (\<lambda>old. old = None) (enc v) (\<lambda>_. Some v)"
    using assms Some by (intro decodes_reference)
  then have "decodes (xdr_pointer calloc obj_size proc) (\<lambda>old. old = None) (enc_bool 1 @ enc v) (\<lambda>_. Some v)"
    by (intro decodes_seq [where p = "\<lambda>_. 0", OF decodes_bool [where P = "\<lambda>_. True"]])
      (auto simp: xdr_pointer_def split: prod.splits)
  then show ?thesis by (simp add: Some enc_bool_def)
qed

lemma decodes_union:
  assumes "xdr_union_search choices d = Some proc \<or>
      (xdr_union_search choices d = None \<and> dfault = Some proc)"
    and "decodes proc Q bs (\<lambda>_. u)"
  shows "decodes (xdr_union choices dfault) (\<lambda>old. Q (snd old)) (enc_u32 d @ bs) (\<lambda>_. (d, u))"
proof -
  have "decodes (\<lambda>x old. let (r, y, w) = proc x (snd old) in (r, y, d, w)) (\<lambda>old. Q (snd old)) bs (\<lambda>_. (d, u))"
    by (rule decodes_part [OF assms(2)]) auto
  then show ?thesis
    by (rule decodes_seq [where p = fst, OF decodes_ints(3) [where P = "\<lambda>_. True"]])
      (use assms(1) in \<open>auto simp: xdr_union_def split: prod.splits\<close>)
qed

end

end
