(* ===== verification/Xdr_Mem.thy ===== *)
theory Xdr_Mem
  imports Xdr_Decode
begin

text \<open>
  The memory stream of \<open>sunrpc/xdr_mem.c\<close>.  The state is the memory, as a list of bytes indexed by the
  address, and the fields \<open>x_private\<close>, \<open>x_base\<close> and \<open>x_handy\<close> of the handle.  The two stream interfaces are
  interpreted on it, which gives the round trip of every filter through a buffer.
\<close>

section \<open>The stream\<close>

record xdrmem =
  m_mem :: "byte list"
  m_private :: nat
  m_base :: nat
  m_handy :: u32

definition load32 :: "byte list \<Rightarrow> nat \<Rightarrow> u32" where
  "load32 m a = le_word (take 4 (drop a m))"

definition xdrmem_destroy :: "xdrmem \<Rightarrow> xdrmem" where
  "xdrmem_destroy s = s"

definition xdrmem_getlong :: "xdrmem \<Rightarrow> u64 option \<times> xdrmem" where
  "xdrmem_getlong s =
     (if m_handy s < 4 then (None, s)
      else let s = s\<lparr>m_handy := m_handy s - 4\<rparr>;
               l = scast (htonl (load32 (m_mem s) (m_private s)))
           in (Some l, s\<lparr>m_private := m_private s + 4\<rparr>))"

definition xdrmem_putlong :: "u64 \<Rightarrow> xdrmem \<Rightarrow> bool \<times> xdrmem" where
  "xdrmem_putlong l s =
     (if m_handy s < 4 then (False, s)
      else let s = s\<lparr>m_handy := m_handy s - 4\<rparr>;
               s = s\<lparr>m_mem := store_at (m_mem s) (m_private s) (word_le 4 (htonl (ucast l)))\<rparr>
           in (True, s\<lparr>m_private := m_private s + 4\<rparr>))"

definition xdrmem_getbytes :: "u32 \<Rightarrow> xdrmem \<Rightarrow> bool \<times> byte list \<times> xdrmem" where
  "xdrmem_getbytes len s =
     (if m_handy s < len then (False, [], s)
      else let s = s\<lparr>m_handy := m_handy s - len\<rparr>;
               bs = take (unat len) (drop (m_private s) (m_mem s))
           in (True, bs, s\<lparr>m_private := m_private s + unat len\<rparr>))"

definition xdrmem_putbytes :: "byte list \<Rightarrow> u32 \<Rightarrow> xdrmem \<Rightarrow> bool \<times> xdrmem" where
  "xdrmem_putbytes addr len s =
     (if m_handy s < len then (False, s)
      else let s = s\<lparr>m_handy := m_handy s - len\<rparr>;
               s = s\<lparr>m_mem := store_at (m_mem s) (m_private s) (take (unat len) addr)\<rparr>
           in (True, s\<lparr>m_private := m_private s + unat len\<rparr>))"

definition xdrmem_getpos :: "xdr_op \<Rightarrow> xdrmem \<Rightarrow> u32" where
  "xdrmem_getpos op s = ucast ((of_nat (m_private s) :: u64) - of_nat (m_base s))"

text \<open>Addresses do not wrap around here; \<open>handy\<close> is the pointer difference as a \<open>size_t\<close>.\<close>

definition xdrmem_setpos :: "xdr_op \<Rightarrow> u32 \<Rightarrow> xdrmem \<Rightarrow> bool \<times> xdrmem" where
  "xdrmem_setpos op pos s =
     (let newaddr = m_base s + unat pos;
          lastaddr = m_private s + unat (m_handy s);
          handy = (of_nat lastaddr :: u64) - of_nat newaddr
      in if newaddr > lastaddr \<or> newaddr < m_base s \<or> handy \<noteq> ucast (ucast handy :: u32)
         then (False, s)
         else (True, s\<lparr>m_private := newaddr, m_handy := ucast handy\<rparr>))"

definition xdrmem_inline :: "xdr_op \<Rightarrow> u32 \<Rightarrow> xdrmem \<Rightarrow> nat option \<times> xdrmem" where
  "xdrmem_inline op len s =
     (if m_handy s \<ge> len
      then (Some (m_private s), s\<lparr>m_handy := m_handy s - len, m_private := m_private s + unat len\<rparr>)
      else (None, s))"

definition xdrmem_getint32 :: "xdrmem \<Rightarrow> u32 option \<times> xdrmem" where
  "xdrmem_getint32 s =
     (if m_handy s < 4 then (None, s)
      else let s = s\<lparr>m_handy := m_handy s - 4\<rparr>;
               i = htonl (load32 (m_mem s) (m_private s))
           in (Some i, s\<lparr>m_private := m_private s + 4\<rparr>))"

definition xdrmem_putint32 :: "u32 \<Rightarrow> xdrmem \<Rightarrow> bool \<times> xdrmem" where
  "xdrmem_putint32 i s =
     (if m_handy s < 4 then (False, s)
      else let s = s\<lparr>m_handy := m_handy s - 4\<rparr>;
               s = s\<lparr>m_mem := store_at (m_mem s) (m_private s) (word_le 4 (htonl i))\<rparr>
           in (True, s\<lparr>m_private := m_private s + 4\<rparr>))"

definition xdrmem_ops :: "xdrmem xdr_ops" where
  "xdrmem_ops =
     \<lparr>x_getlong = xdrmem_getlong, x_putlong = xdrmem_putlong, x_getbytes = xdrmem_getbytes,
      x_putbytes = xdrmem_putbytes, x_getpostn = xdrmem_getpos, x_setpostn = xdrmem_setpos,
      x_inline = xdrmem_inline, x_destroy = xdrmem_destroy, x_getint32 = xdrmem_getint32,
      x_putint32 = xdrmem_putint32\<rparr>"

definition xdrmem_create :: "byte list \<Rightarrow> nat \<Rightarrow> u32 \<Rightarrow> xdr_op \<Rightarrow> xdrmem XDR" where
  "xdrmem_create mem addr bufsize op =
     \<lparr>x_op = op, x_ops = xdrmem_ops,
      x_str = \<lparr>m_mem = mem, m_private = addr, m_base = addr, m_handy = bufsize\<rparr>\<rparr>"

section \<open>Invariant and interpretation\<close>

text \<open>The buffer lies in the memory, and what is left of it starts at \<open>x_private\<close>.\<close>

definition xdrmem_ok :: "xdrmem \<Rightarrow> bool" where
  "xdrmem_ok s = (m_base s \<le> m_private s \<and> m_private s + unat (m_handy s) \<le> length (m_mem s))"

definition xdrmem_room :: "xdrmem \<Rightarrow> nat \<Rightarrow> bool" where
  "xdrmem_room s n = (n \<le> unat (m_handy s))"

definition xdrmem_emits :: "xdrmem \<Rightarrow> byte list \<Rightarrow> xdrmem \<Rightarrow> bool" where
  "xdrmem_emits s bs t =
     (length bs \<le> unat (m_handy s) \<and>
      t = s\<lparr>m_mem := store_at (m_mem s) (m_private s) bs, m_private := m_private s + length bs,
            m_handy := m_handy s - of_nat (length bs)\<rparr>)"

definition xdrmem_input :: "xdrmem \<Rightarrow> byte list" where
  "xdrmem_input s = take (unat (m_handy s)) (drop (m_private s) (m_mem s))"

lemma unat_minus_of_nat: "n \<le> unat w \<Longrightarrow> unat (w - of_nat n) = unat w - n"
  by (metis le_unat_uoi unat_sub word_le_nat_alt)

lemma ucast_of_nat_u64: "ucast (of_nat n :: u64) = (of_nat n :: u32)"
  by (rule bit_word_eqI) (auto simp: bit_simps)

lemma htonl_store: "word_le 4 (htonl w) = enc_u32 w"
  by (simp add: htonl_def word_images enc_u32_def)

lemma htonl_load: "length bs = 4 \<Longrightarrow> htonl (le_word bs) = be_word bs"
  by (simp add: htonl_def word_images)

interpretation mem_enc: xdr_encoder xdrmem_ops xdrmem_ok xdrmem_room xdrmem_emits
proof unfold_locales
  fix s t u :: xdrmem and a b bs :: "byte list" and n m :: nat and l :: u64 and i k :: u32
  show "xdrmem_room s n \<Longrightarrow> m \<le> n \<Longrightarrow> xdrmem_room s m"
    and "xdrmem_ok s \<Longrightarrow> xdrmem_room s 0"
    by (simp_all add: xdrmem_room_def)
  show "xdrmem_ok s \<Longrightarrow> xdrmem_emits s [] s"
    by (simp add: xdrmem_emits_def xdrmem_ok_def store_at_def)
  show "xdrmem_emits s (a @ b) u" if "xdrmem_ok s" "xdrmem_emits s a t" "xdrmem_emits t b u"
    using that by (auto simp: xdrmem_emits_def xdrmem_ok_def unat_minus_of_nat store_at_append algebra_simps)
  show "xdrmem_ok t" if "xdrmem_ok s" "xdrmem_emits s bs t"
    using that by (auto simp: xdrmem_emits_def xdrmem_ok_def unat_minus_of_nat)
  show "xdrmem_room t n = xdrmem_room s (length bs + n)" if "xdrmem_ok s" "xdrmem_emits s bs t"
    using that by (auto simp: xdrmem_emits_def xdrmem_room_def unat_minus_of_nat)
  show "if xdrmem_room s 4 then \<exists>t. x_putlong xdrmem_ops l s = (True, t) \<and> xdrmem_emits s (enc_u32 (ucast l)) t
      else \<not> fst (x_putlong xdrmem_ops l s)"
    by (auto simp: xdrmem_ops_def xdrmem_putlong_def xdrmem_room_def xdrmem_emits_def htonl_store word_less_nat_alt)
  show "if xdrmem_room s 4 then \<exists>t. x_putint32 xdrmem_ops i s = (True, t) \<and> xdrmem_emits s (enc_u32 i) t
      else \<not> fst (x_putint32 xdrmem_ops i s)"
    by (auto simp: xdrmem_ops_def xdrmem_putint32_def xdrmem_room_def xdrmem_emits_def htonl_store word_less_nat_alt)
  show "if xdrmem_room s (unat k) then \<exists>t. x_putbytes xdrmem_ops bs k s = (True, t) \<and> xdrmem_emits s (take (unat k) bs) t
      else \<not> fst (x_putbytes xdrmem_ops bs k s)" if "unat k \<le> length bs"
    using that
    by (auto simp: xdrmem_ops_def xdrmem_putbytes_def xdrmem_room_def xdrmem_emits_def word_less_nat_alt min_def)
qed

interpretation mem_dec: xdr_decoder xdrmem_ops xdrmem_ok xdrmem_input
proof unfold_locales
  fix s :: xdrmem and k :: u32 assume s: "xdrmem_ok s"
  then have len: "length (xdrmem_input s) = unat (m_handy s)" by (auto simp: xdrmem_input_def xdrmem_ok_def)
  have w: "load32 (m_mem s) (m_private s) = le_word (take 4 (xdrmem_input s))" if "4 \<le> unat (m_handy s)"
    using that by (simp add: load32_def xdrmem_input_def min_def)
  have ok: "xdrmem_ok (s\<lparr>m_handy := m_handy s - of_nat n, m_private := m_private s + n\<rparr>)"
    and inp: "xdrmem_input (s\<lparr>m_handy := m_handy s - of_nat n, m_private := m_private s + n\<rparr>) = drop n (xdrmem_input s)"
    if "n \<le> unat (m_handy s)" for n
    using s that by (auto simp: xdrmem_ok_def xdrmem_input_def unat_minus_of_nat drop_take algebra_simps)
  show "if 4 \<le> length (xdrmem_input s)
      then \<exists>t. x_getlong xdrmem_ops s = (Some (scast (be_word (take 4 (xdrmem_input s)) :: u32)), t) \<and> xdrmem_ok t \<and>
        xdrmem_input t = drop 4 (xdrmem_input s)
      else fst (x_getlong xdrmem_ops s) = None"
    using ok [of 4] inp [of 4] w len
    by (auto simp: xdrmem_ops_def xdrmem_getlong_def htonl_load word_less_nat_alt)
  show "if 4 \<le> length (xdrmem_input s)
      then \<exists>t. x_getint32 xdrmem_ops s = (Some (be_word (take 4 (xdrmem_input s))), t) \<and> xdrmem_ok t \<and>
        xdrmem_input t = drop 4 (xdrmem_input s)
      else fst (x_getint32 xdrmem_ops s) = None"
    using ok [of 4] inp [of 4] w len
    by (auto simp: xdrmem_ops_def xdrmem_getint32_def htonl_load word_less_nat_alt)
  show "if unat k \<le> length (xdrmem_input s)
      then \<exists>t. x_getbytes xdrmem_ops k s = (True, take (unat k) (xdrmem_input s), t) \<and> xdrmem_ok t \<and>
        xdrmem_input t = drop (unat k) (xdrmem_input s)
      else \<not> fst (x_getbytes xdrmem_ops k s)"
    using ok [of "unat k"] inp [of "unat k"] len
    by (auto simp: xdrmem_ops_def xdrmem_getbytes_def word_less_nat_alt xdrmem_input_def min_def)
qed

section \<open>Round trips\<close>

text \<open>
  \<open>mem_roundtrips f v old bs u\<close>: in a buffer of \<open>n\<close> bytes at \<open>addr\<close>, the filter \<open>f\<close> encodes \<open>v\<close> as \<open>bs\<close>
  when they fit, and then decodes \<open>u\<close> from that buffer into \<open>old\<close>; when they do not fit it fails to encode,
  and it fails to decode from a buffer that holds only a part of them.
\<close>

definition mem_roundtrips ::
  "(xdrmem, 'a) xdrproc_t \<Rightarrow> 'a \<Rightarrow> 'a \<Rightarrow> byte list \<Rightarrow> 'a \<Rightarrow> bool" where
  "mem_roundtrips f v old bs u =
     (\<forall>mem addr n. addr + unat n \<le> length mem \<longrightarrow>
        (if length bs \<le> unat n
         then \<exists>x y. f (xdrmem_create mem addr n XDR_ENCODE) v = (True, x, v) \<and>
                m_mem (x_str x) = store_at mem addr bs \<and>
                xdrmem_getpos XDR_ENCODE (x_str x) = of_nat (length bs) \<and>
                f (xdrmem_create (m_mem (x_str x)) addr n XDR_DECODE) old = (True, y, u)
         else \<not> fst (f (xdrmem_create mem addr n XDR_ENCODE) v) \<and>
              (prefix (take (unat n) (drop addr mem)) bs \<longrightarrow>
               \<not> fst (f (xdrmem_create mem addr n XDR_DECODE) old))))"

lemma xdrmem_create_ok:
  assumes "addr + unat n \<le> length mem"
  shows "mem_enc.writing (xdrmem_create mem addr n XDR_ENCODE)" "mem_dec.reading (xdrmem_create mem addr n XDR_DECODE)"
  using assms by (simp_all add: mem_enc.writing_def mem_dec.reading_def xdrmem_create_def xdrmem_ok_def)

lemma xdrmem_create_simps:
  "xdrmem_room (x_str (xdrmem_create mem addr n op)) k = (k \<le> unat n)"
  "xdrmem_input (x_str (xdrmem_create mem addr n op)) = take (unat n) (drop addr mem)"
  by (simp_all add: xdrmem_create_def xdrmem_room_def xdrmem_input_def)

lemma mem_roundtripsI:
  assumes enc: "mem_enc.encodes f v bs" and dec: "mem_dec.decodes f P bs (\<lambda>_. u)" and "P old"
  shows "mem_roundtrips f v old bs u"
  unfolding mem_roundtrips_def
proof (intro allI impI)
  fix mem :: "byte list" and addr and n :: u32 assume n: "addr + unat n \<le> length mem"
  let ?e = "xdrmem_create mem addr n XDR_ENCODE"
  show "if length bs \<le> unat n
       then \<exists>x y. f ?e v = (True, x, v) \<and> m_mem (x_str x) = store_at mem addr bs \<and>
                xdrmem_getpos XDR_ENCODE (x_str x) = of_nat (length bs) \<and>
                f (xdrmem_create (m_mem (x_str x)) addr n XDR_DECODE) old = (True, y, u)
       else \<not> fst (f ?e v) \<and> (prefix (take (unat n) (drop addr mem)) bs \<longrightarrow>
               \<not> fst (f (xdrmem_create mem addr n XDR_DECODE) old))"
  proof (cases "length bs \<le> unat n")
    case True
    then obtain x where x: "f ?e v = (True, x, v)" "xdrmem_emits (x_str ?e) bs (x_str x)"
      using mem_enc.encodes_ok [OF enc xdrmem_create_ok(1) [OF n]] xdrmem_create_simps by blast
    then have m: "m_mem (x_str x) = store_at mem addr bs" "m_base (x_str x) = addr"
      "m_private (x_str x) = addr + length bs"
      by (simp_all add: xdrmem_emits_def xdrmem_create_def)
    let ?d = "xdrmem_create (m_mem (x_str x)) addr n XDR_DECODE"
    have d: "mem_dec.reading ?d" using n True m by (intro xdrmem_create_ok) simp
    have "xdrmem_input (x_str ?d) = bs @ drop (length bs) (take (unat n) (drop addr mem))"
      using m n True by (simp add: xdrmem_create_simps store_at_def drop_take algebra_simps)
    then obtain y where "f ?d old = (True, y, u)"
      using mem_dec.decodes_ok [where P = P, OF dec d \<open>P old\<close>] by blast
    then show ?thesis using x(1) m True by (auto simp: xdrmem_getpos_def ucast_of_nat_u64)
  next
    case False
    have "\<not> fst (f ?e v)"
      using mem_enc.encodes_full [OF enc xdrmem_create_ok(1) [OF n]] False by (simp add: xdrmem_create_simps)
    moreover have "\<not> fst (f (xdrmem_create mem addr n XDR_DECODE) old)" if "prefix (take (unat n) (drop addr mem)) bs"
    proof -
      have "length (take (unat n) (drop addr mem)) = unat n" using n by simp
      then have "take (unat n) (drop addr mem) \<noteq> bs" using False by auto
      then show ?thesis
        using mem_dec.decodes_truncated [where P = P, OF dec xdrmem_create_ok(2) [OF n] \<open>P old\<close>] that
        by (simp add: xdrmem_create_simps strict_prefix_def)
    qed
    ultimately show ?thesis using False by simp
  qed
qed

lemma ucast_u32_id_iff: "ucast (ucast (w :: u64) :: u32) = w \<longleftrightarrow> unat w < 2 ^ 32"
proof -
  have "ucast (ucast w :: u32) = take_bit 32 w" by (rule bit_word_eqI) (auto simp: bit_simps)
  moreover have "take_bit 32 w = w \<longleftrightarrow> unat (take_bit 32 w) = unat w" by (metis word_unat_eq_iff)
  moreover have "unat (take_bit 32 w) = take_bit 32 (unat w)" by (simp add: unsigned_take_bit_eq)
  ultimately show ?thesis by (simp add: take_bit_nat_eq_self_iff)
qed

lemma scast_u32_id_iff: "scast (ucast (w :: u64) :: u32) = w \<longleftrightarrow> - (2 ^ 31) \<le> sint w \<and> sint w < 2 ^ 31"
proof -
  have "sint (scast (ucast w :: u32) :: u64) = signed_take_bit 31 (sint w)"
    by (rule bit_eqI) (auto simp: signed_scast_eq signed_ucast_eq bit_signed_iff bit_signed_take_bit_iff min_def)
  moreover have "scast (ucast w :: u32) = w \<longleftrightarrow> sint (scast (ucast w :: u32) :: u64) = sint w" by (metis signed_word_eqI)
  ultimately show ?thesis by (simp add: signed_take_bit_int_eq_self_iff)
qed

text \<open>
  C5: every integer filter writes the big-endian encoding of RFC 4506 to a memory stream and reads it back: 4 bytes for the
  types of up to 32 bits, sign- or zero-extended, and 8 bytes for the 64-bit types of fixed width.  The value comes back
  as it was, except that \<open>xdr_bool\<close> writes 0 or 1 and reads back 1 for every value that is not 0.  The filters for
  \<open>long\<close>, which has 64 bits here, write 4 bytes: \<open>xdr_long\<close> round-trips the values of a signed, \<open>xdr_u_long\<close> those of an
  unsigned number of 32 bits, and both refuse to encode any other value and leave the stream as it was.  A buffer that is
  too small makes both directions fail.
\<close>

theorem xdr_integers_mem:
  "(\<forall>f \<in> set [xdr_int, xdr_u_int, xdr_enum, xdr_int32_t, xdr_uint32_t]. mem_roundtrips f v old (enc_u32 v) v) \<and>
   mem_roundtrips xdr_bool v old (enc_bool v) (if v = 0 then 0 else 1) \<and>
   (\<forall>f \<in> set [xdr_hyper, xdr_u_hyper, xdr_longlong_t, xdr_u_longlong_t, xdr_int64_t, xdr_uint64_t,
       xdr_quad_t, xdr_u_quad_t]. mem_roundtrips f l lold (enc_u64 l) l) \<and>
   (\<forall>f \<in> set [xdr_short, xdr_int16_t]. mem_roundtrips f h hold (enc_u32 (scast h)) h) \<and>
   (\<forall>f \<in> set [xdr_u_short, xdr_uint16_t]. mem_roundtrips f h hold (enc_u32 (ucast h)) h) \<and>
   (\<forall>f \<in> set [xdr_char, xdr_int8_t]. mem_roundtrips f b bold (enc_u32 (scast b)) b) \<and>
   (\<forall>f \<in> set [xdr_u_char, xdr_uint8_t]. mem_roundtrips f b bold (enc_u32 (ucast b)) b) \<and>
   mem_roundtrips xdr_long (scast v) lold (enc_u32 v) (scast v) \<and>
   mem_roundtrips xdr_u_long (ucast v) lold (enc_u32 v) (ucast v) \<and>
   (let x = xdrmem_create mem addr n XDR_ENCODE
    in (sint l < - (2 ^ 31) \<or> 2 ^ 31 \<le> sint l \<longrightarrow> xdr_long x l = (False, x, l)) \<and>
       (2 ^ 32 \<le> unat l \<longrightarrow> xdr_u_long x l = (False, x, l)))"
proof -
  have same: "xdr_longlong_t = xdr_hyper" "xdr_u_longlong_t = xdr_u_hyper" "xdr_quad_t = xdr_int64_t"
    "xdr_u_quad_t = xdr_uint64_t"
    by (simp_all add: fun_eq_iff xdr_longlong_t_def xdr_u_longlong_t_def xdr_quad_t_def xdr_u_quad_t_def)
  note I = mem_roundtripsI [where P = "\<lambda>_. True", OF _ _ TrueI]
  have "mem_roundtrips f v old (enc_u32 v) v" if "f \<in> {xdr_int, xdr_u_int, xdr_enum, xdr_int32_t, xdr_uint32_t}" for f
    using that mem_enc.encodes_ints mem_dec.decodes_ints mem_dec.decodes_int32s by (intro I) auto
  moreover have "mem_roundtrips xdr_bool v old (enc_bool v) (if v = 0 then 0 else 1)"
    by (rule I [OF mem_enc.encodes_ints(6) mem_dec.decodes_bool])
  moreover have "mem_roundtrips f l lold (enc_u64 l) l" if "f \<in> {xdr_hyper, xdr_u_hyper, xdr_int64_t, xdr_uint64_t}" for f
    using that mem_enc.encodes_hypers mem_dec.decodes_hypers mem_dec.decodes_int64s by (intro I) auto
  moreover have "mem_roundtrips f h hold (enc_u32 (scast h)) h" if "f \<in> {xdr_short, xdr_int16_t}" for f
    using that mem_enc.encodes_shorts mem_dec.decodes_shorts mem_dec.decodes_int16s by (intro I) auto
  moreover have "mem_roundtrips f h hold (enc_u32 (ucast h)) h" if "f \<in> {xdr_u_short, xdr_uint16_t}" for f
    using that mem_enc.encodes_shorts mem_dec.decodes_shorts mem_dec.decodes_int16s by (intro I) auto
  moreover have "mem_roundtrips f b bold (enc_u32 (scast b)) b" if "f \<in> {xdr_char, xdr_int8_t}" for f
    using that mem_enc.encodes_chars mem_enc.encodes_shorts mem_dec.decodes_chars mem_dec.decodes_int16s by (intro I) auto
  moreover have "mem_roundtrips f b bold (enc_u32 (ucast b)) b" if "f \<in> {xdr_u_char, xdr_uint8_t}" for f
    using that mem_enc.encodes_chars mem_enc.encodes_shorts mem_dec.decodes_chars mem_dec.decodes_int16s by (intro I) auto
  moreover have "mem_roundtrips xdr_long (scast v) lold (enc_u32 v) (scast v)"
    using mem_enc.encodes_longs(1) [of "scast v"] mem_dec.decodes_longs(1) by (intro I) (simp_all add: casts_32)
  moreover have "mem_roundtrips xdr_u_long (ucast v) lold (enc_u32 v) (ucast v)"
    using mem_enc.encodes_longs(2) [of "ucast v"] mem_dec.decodes_longs(2) by (intro I) (simp_all add: casts_32)
  moreover have "xdr_long x l = (False, x, l)" if "sint l < - (2 ^ 31) \<or> 2 ^ 31 \<le> sint l" "x_op x = XDR_ENCODE" for x :: "xdrmem XDR"
    using that scast_u32_id_iff [of l] by (simp add: xdr_long_def) linarith
  moreover have "xdr_u_long x l = (False, x, l)" if "2 ^ 32 \<le> unat l" "x_op x = XDR_ENCODE" for x :: "xdrmem XDR"
    using that ucast_u32_id_iff [of l] by (simp add: xdr_u_long_def)
  moreover have "x_op (xdrmem_create mem addr n XDR_ENCODE) = XDR_ENCODE" by (simp add: xdrmem_create_def)
  ultimately show ?thesis unfolding same Let_def by (simp del: if_split)
qed

theorem xdr_integers_mem_witness:
  "mem_roundtrips xdr_hyper 0x123456789abcdef0 0 [0x12, 0x34, 0x56, 0x78, 0x9a, 0xbc, 0xde, 0xf0] 0x123456789abcdef0 \<and>
   fst (xdr_u_long (xdrmem_create [0, 0, 0, 0] 0 4 XDR_ENCODE) 0x123456789abcdef0) = False"
proof -
  have "enc_u64 0x123456789abcdef0 = [0x12, 0x34, 0x56, 0x78, 0x9a, 0xbc, 0xde, 0xf0]"
    by (simp add: enc_u64_def word_be_def word_le_numeral)
  with xdr_integers_mem [of 0 0 "0x123456789abcdef0" 0 0 0 0 0 "[0, 0, 0, 0]" 0 4] show ?thesis by (simp add: Let_def)
qed

text \<open>
  C6: a C string without its terminator, and a counted byte string of any contents, zero bytes included, go through a memory
  stream as RFC 4506 has it: the length in 4 bytes, the bytes, and zero bytes up to a multiple of 4.  Decoding into a null
  pointer allocates the object and gives back the same bytes, with the terminator for strings; for a byte string of
  length 0 nothing is allocated and the pointer stays null.
\<close>

theorem xdr_strings_mem:
  assumes "alloc_ok mem_alloc" "length s \<le> unat maxsize" "length s < 2 ^ 32 - 1" "0 \<notin> set s" "length bs \<le> unat maxsize"
  shows "mem_roundtrips (\<lambda>x obj. xdr_string mem_alloc x obj maxsize)
      (Some (s @ [0])) None (enc_bytes s) (Some (s @ [0])) \<and>
    mem_roundtrips (\<lambda>x obj. xdr_bytes mem_alloc x obj maxsize)
      (Some bs, of_nat (length bs)) (None, k) (enc_bytes bs) (if bs = [] then None else Some bs, of_nat (length bs))"
proof
  have len: "unat (of_nat (length s) :: u32) = length s"
    using assms(3) by (intro unat_of_nat_small) simp
  have max: "of_nat (length s) \<le> maxsize" using assms(2) len by (simp add: word_le_nat_alt)
  obtain buf where "mem_alloc (of_nat (length s) + 1) = Some buf" "length buf = Suc (length s)"
    using alloc_okE [OF assms(1)] unat_of_nat_Suc_u32 [OF assms(3)] by metis
  then show "mem_roundtrips (\<lambda>x obj. xdr_string mem_alloc x obj maxsize)
      (Some (s @ [0])) None (enc_bytes s) (Some (s @ [0]))"
    using assms max
    by (intro mem_roundtripsI [where P = "\<lambda>old. old = None"] mem_enc.encodes_string mem_dec.decodes_string) auto
next
  have len: "unat (of_nat (length bs) :: u32) = length bs"
    using assms(5) unat_lt2p [of maxsize] by (intro unat_of_nat_small) simp
  then have max: "of_nat (length bs) \<le> maxsize" using assms(5) by (simp add: word_le_nat_alt)
  obtain buf where buf: "bs \<noteq> [] \<Longrightarrow> mem_alloc (of_nat (length bs)) = Some buf" "length buf = length bs"
    using alloc_okE [OF assms(1)] len by metis
  have "mem_enc.encodes (\<lambda>x obj. xdr_bytes mem_alloc x obj maxsize) (Some bs, of_nat (length bs)) (enc_bytes bs)"
    using mem_enc.encodes_bytes [of "of_nat (length bs)" bs maxsize] max len by simp
  then show "mem_roundtrips (\<lambda>x obj. xdr_bytes mem_alloc x obj maxsize)
      (Some bs, of_nat (length bs)) (None, k) (enc_bytes bs) (if bs = [] then None else Some bs, of_nat (length bs))"
    using mem_dec.decodes_bytes [where mem_alloc = mem_alloc, OF assms(5) buf]
    by (intro mem_roundtripsI [where P = "\<lambda>old. fst old = None"]) auto
qed

theorem xdr_strings_mem_witness:
  "mem_roundtrips (\<lambda>x obj. xdr_string (\<lambda>k. Some (replicate (unat k) 7)) x obj 16)
      (Some [104, 105, 0]) None [0, 0, 0, 2, 104, 105, 0, 0] (Some [104, 105, 0]) \<and>
   mem_roundtrips (\<lambda>x obj. xdr_bytes (\<lambda>k. Some (replicate (unat k) 7)) x obj 16)
      (Some [0, 1, 0], 3) (None, 0) [0, 0, 0, 3, 0, 1, 0, 0] (Some [0, 1, 0], 3)"
proof -
  have "alloc_ok (\<lambda>k. Some (replicate (unat k) 7))" by (simp add: alloc_ok_def)
  moreover have "enc_bytes [104, 105] = [0, 0, 0, 2, 104, 105, 0, 0]" "enc_bytes [0, 1, 0] = [0, 0, 0, 3, 0, 1, 0, 0]"
    by (simp_all add: enc_bytes_def enc_opaque_def xdr_padding_def enc_u32_def word_be_def word_le_numeral replicate_numeral)
  ultimately show ?thesis
    using xdr_strings_mem [of "\<lambda>k. Some (replicate (unat k) 7)" "[104, 105]" 16 "[0, 1, 0]" 0] by simp
qed

text \<open>
  C7: an array of strings (\<open>xdr_array\<close> with \<open>xdr_wrapstring\<close> as its element procedure) goes through a
  memory stream as the count and the encodings of the strings in order; decoding into a null pointer
  allocates the array and every string of it.
\<close>

theorem xdr_string_array_mem:
  assumes "alloc_ok mem_alloc" "ss \<noteq> []" "length ss \<le> unat maxsize" "of_nat (length ss) \<le> (0 - 1 :: u32) div elsize"
    and "list_all (\<lambda>s. length s < 2 ^ 32 - 1 \<and> 0 \<notin> set s) ss"
    and "calloc (of_nat (length ss)) elsize = Some (replicate (length ss) None)"
  shows "mem_roundtrips (xdr_array calloc maxsize elsize (xdr_wrapstring mem_alloc))
    (Some (map (\<lambda>s. Some (s @ [0])) ss), of_nat (length ss)) (None, k) (enc_array enc_bytes ss)
    (Some (map (\<lambda>s. Some (s @ [0])) ss), of_nat (length ss))"
proof -
  let ?f = "xdr_array calloc maxsize elsize (xdr_wrapstring mem_alloc)"
  have "mem_enc.encodes ?f (Some (map (\<lambda>s. Some (s @ [0])) ss), of_nat (length ss)) (enc_array enc_bytes ss)"
    using assms(3-5) by (rule mem_enc.encodes_string_array)
  moreover have "mem_dec.decodes ?f (\<lambda>old. fst old = None) (enc_array enc_bytes ss)
      (\<lambda>_. (Some (map (\<lambda>s. Some (s @ [0])) ss), of_nat (length ss)))"
    using assms by (rule mem_dec.decodes_string_array)
  ultimately show ?thesis by (intro mem_roundtripsI [where P = "\<lambda>old. fst old = None"]) auto
qed

theorem xdr_string_array_mem_witness:
  "mem_roundtrips (xdr_array (\<lambda>c elsize. Some (replicate (unat c) None)) 16 8 (xdr_wrapstring (\<lambda>k. Some (replicate (unat k) 7))))
    (Some [Some [104, 105, 0], Some [0]], 2) (None, 0)
    [0, 0, 0, 2, 0, 0, 0, 2, 104, 105, 0, 0, 0, 0, 0, 0] (Some [Some [104, 105, 0], Some [0]], 2)"
proof -
  have "alloc_ok (\<lambda>k. Some (replicate (unat k) 7))" by (simp add: alloc_ok_def)
  moreover have "enc_array enc_bytes [[104, 105], []] = [0, 0, 0, 2, 0, 0, 0, 2, 104, 105, 0, 0, 0, 0, 0, 0]"
    by (simp add: enc_array_def enc_bytes_def enc_opaque_def xdr_padding_def enc_u32_def word_be_def
        word_le_numeral replicate_numeral)
  ultimately show ?thesis
    using xdr_string_array_mem [of "\<lambda>k. Some (replicate (unat k) 7)" "[[104, 105], []]" 16 8
        "\<lambda>c elsize. Some (replicate (unat c) None)" 0]
    by (simp add: replicate_numeral)
qed

section \<open>Memory safety and position\<close>

text \<open>
  From \<open>s\<close> to \<open>t\<close> the buffer stays the same part of the memory and nothing outside of it changes.
\<close>

definition xdrmem_keeps :: "xdrmem \<Rightarrow> xdrmem \<Rightarrow> bool" where
  "xdrmem_keeps s t =
     (let fin = m_private s + unat (m_handy s)
      in xdrmem_ok t \<and> m_base t = m_base s \<and> m_private t + unat (m_handy t) = fin \<and>
         length (m_mem t) = length (m_mem s) \<and> take (m_base s) (m_mem t) = take (m_base s) (m_mem s) \<and>
         drop fin (m_mem t) = drop fin (m_mem s))"

lemma xdrmem_keeps_store:
  assumes "xdrmem_ok s" "length bs \<le> unat (m_handy s)"
  shows "xdrmem_keeps s (s\<lparr>m_handy := m_handy s - of_nat (length bs),
    m_mem := store_at (m_mem s) (m_private s) bs, m_private := m_private s + length bs\<rparr>)"
  using assms
  by (auto simp: xdrmem_keeps_def xdrmem_ok_def unat_minus_of_nat store_at_def min_def Let_def add.commute
      simp flip: length_0_conv)

lemma xdrmem_keeps_skip:
  assumes "xdrmem_ok s" "n \<le> unat (m_handy s)"
  shows "xdrmem_keeps s (s\<lparr>m_handy := m_handy s - of_nat n, m_private := m_private s + n\<rparr>)"
  using assms by (auto simp: xdrmem_keeps_def xdrmem_ok_def unat_minus_of_nat Let_def)

lemma xdrmem_keeps_seek:
  assumes "xdrmem_ok s" "m_base s \<le> a" "a + d = m_private s + unat (m_handy s)" "d < 2 ^ 32"
  shows "xdrmem_keeps s (s\<lparr>m_private := a, m_handy := of_nat d\<rparr>)"
proof -
  have "unat (of_nat d :: u32) = d" using assms(4) by (intro unat_of_nat_small) simp
  then show ?thesis using assms(1-3) by (simp add: xdrmem_keeps_def xdrmem_ok_def)
qed

lemma xdrmem_keeps_refl: "xdrmem_ok s \<Longrightarrow> xdrmem_keeps s s"
  by (simp add: xdrmem_keeps_def)

text \<open>The pointer difference of \<open>xdrmem_setpos\<close> for addresses below \<open>2 ^ 64\<close>.\<close>

lemma unat_pointer_diff:
  assumes "a \<le> b" "b < 2 ^ 64"
  shows "unat ((of_nat b :: u64) - of_nat a) = b - a"
proof -
  have "(of_nat b :: u64) - of_nat a = of_nat (b - a)" using assms(1) by simp
  moreover have "b - a < 2 ^ LENGTH(64)" using assms by simp
  ultimately show ?thesis by (simp only: unat_of_nat_small)
qed

lemma xdrmem_setpos_eq:
  assumes "xdrmem_ok s" "length (m_mem s) < 2 ^ 64"
  defines "fin \<equiv> m_private s + unat (m_handy s)"
  shows "xdrmem_setpos op pos s =
    (if m_base s + unat pos \<le> fin \<and> fin - (m_base s + unat pos) < 2 ^ 32
     then (True, s\<lparr>m_private := m_base s + unat pos, m_handy := of_nat (fin - (m_base s + unat pos))\<rparr>)
     else (False, s))"
proof -
  have fin: "fin < 2 ^ 64" using assms(1,2) by (simp add: fin_def xdrmem_ok_def)
  let ?new = "m_base s + unat pos" and ?h = "(of_nat fin :: u64) - of_nat (m_base s + unat pos)"
  have "(?h = ucast (ucast ?h :: u32)) = (fin - ?new < 2 ^ 32)" "(ucast ?h :: u32) = of_nat (fin - ?new)"
    if "?new \<le> fin"
  proof -
    have "(ucast (ucast ?h :: u32) = ?h) = (fin - ?new < 2 ^ 32)"
      unfolding ucast_u32_id_iff unat_pointer_diff [OF that fin] ..
    then show "(?h = ucast (ucast ?h :: u32)) = (fin - ?new < 2 ^ 32)" by (subst eq_commute)
    show "(ucast ?h :: u32) = of_nat (fin - ?new)"
      using that by (simp only: of_nat_diff [symmetric] ucast_of_nat_u64)
  qed
  then show ?thesis by (auto simp: xdrmem_setpos_def Let_def fin_def [symmetric] not_less)
qed

text \<open>
  C8: every operation of the memory stream keeps the stream inside its buffer: the invariant holds after
  it, the end of the buffer stays where it is, and no byte before the start or from the end of the buffer
  on is written, for every argument and also when the operation fails.
\<close>

theorem xdrmem_ops_safe:
  assumes "xdrmem_ok s" "length (m_mem s) < 2 ^ 64" "unat len \<le> length addr"
  shows "xdrmem_keeps s (snd (xdrmem_getlong s)) \<and> xdrmem_keeps s (snd (xdrmem_putlong l s)) \<and>
    xdrmem_keeps s (snd (snd (xdrmem_getbytes len s))) \<and> xdrmem_keeps s (snd (xdrmem_putbytes addr len s)) \<and>
    xdrmem_keeps s (snd (xdrmem_setpos op pos s)) \<and> xdrmem_keeps s (snd (xdrmem_inline op len s)) \<and>
    xdrmem_keeps s (snd (xdrmem_getint32 s)) \<and> xdrmem_keeps s (snd (xdrmem_putint32 i s)) \<and>
    xdrmem_keeps s (xdrmem_destroy s)"
proof (intro conjI)
  note keep = xdrmem_keeps_refl [OF assms(1)] xdrmem_keeps_skip [OF assms(1)] xdrmem_keeps_store [OF assms(1)]
  have four: "\<not> m_handy s < 4 \<Longrightarrow> 4 \<le> unat (m_handy s)" by (simp add: word_less_nat_alt)
  show "xdrmem_keeps s (snd (xdrmem_getlong s))" "xdrmem_keeps s (snd (xdrmem_getint32 s))"
    using keep(1) keep(2) [of 4] four by (simp_all add: xdrmem_getlong_def xdrmem_getint32_def Let_def)
  show "xdrmem_keeps s (snd (xdrmem_putlong l s))" "xdrmem_keeps s (snd (xdrmem_putint32 i s))"
    using keep(1) keep(3) [of "word_le 4 (htonl _)"] four by (simp_all add: xdrmem_putlong_def xdrmem_putint32_def Let_def)
  show "xdrmem_keeps s (snd (snd (xdrmem_getbytes len s)))" "xdrmem_keeps s (snd (xdrmem_inline op len s))"
    using keep(1) keep(2) [of "unat len"]
    by (simp_all add: xdrmem_getbytes_def xdrmem_inline_def Let_def word_less_nat_alt word_le_nat_alt)
  show "xdrmem_keeps s (snd (xdrmem_putbytes addr len s))"
    using keep(1) keep(3) [of "take (unat len) addr"]
    by (simp add: xdrmem_putbytes_def Let_def word_less_nat_alt min_absorb2 [OF assms(3)])
  show "xdrmem_keeps s (snd (xdrmem_setpos op pos s))"
    using keep(1) unfolding xdrmem_setpos_eq [OF assms(1,2)]
    by (auto intro!: xdrmem_keeps_seek [OF assms(1)] simp del: of_nat_add of_nat_diff)
  show "xdrmem_keeps s (xdrmem_destroy s)" using keep(1) by (simp add: xdrmem_destroy_def)
qed

text \<open>
  C9: \<open>xdrmem_setpos\<close> succeeds exactly for the positions up to the end of the buffer from which less than
  \<open>2 ^ 32\<close> bytes are left, \<open>xdrmem_getpos\<close> then returns that position, and a refused position leaves the
  stream as it was.
\<close>

theorem xdrmem_setpos_getpos:
  assumes "xdrmem_ok s" "length (m_mem s) < 2 ^ 64"
  shows "let fin = m_private s + unat (m_handy s); (r, t) = xdrmem_setpos op pos s
    in r = (m_base s + unat pos \<le> fin \<and> fin - (m_base s + unat pos) < 2 ^ 32) \<and>
       (if r then xdrmem_getpos op t = pos else t = s)"
proof -
  have "(of_nat (m_base s + unat pos) :: u64) - of_nat (m_base s) = of_nat (unat pos)" by simp
  then have "ucast ((of_nat (m_base s + unat pos) :: u64) - of_nat (m_base s)) = pos"
    by (simp add: casts_32)
  then show ?thesis unfolding xdrmem_setpos_eq [OF assms] by (simp add: Let_def xdrmem_getpos_def)
qed

theorem xdrmem_ops_safe_witness:
  "xdrmem_keeps \<lparr>m_mem = [9, 9, 9, 9, 9, 9, 9], m_private = 1, m_base = 1, m_handy = 5\<rparr>
    \<lparr>m_mem = [9, 0, 0, 1, 2, 9, 9], m_private = 5, m_base = 1, m_handy = 1\<rparr>"
proof -
  let ?s = "\<lparr>m_mem = [9, 9, 9, 9, 9, 9, 9], m_private = 1, m_base = 1, m_handy = 5\<rparr> :: xdrmem"
  have "xdrmem_keeps ?s (snd (xdrmem_putlong 258 ?s))"
    using xdrmem_ops_safe [of ?s 0 "[]" 258 XDR_ENCODE 0 0] by (simp add: xdrmem_ok_def)
  moreover have "word_le 4 (htonl 258) = [0, 0, 1, 2]"
    unfolding htonl_store by (simp add: enc_u32_def word_be_def word_le_numeral)
  ultimately show ?thesis by (simp add: xdrmem_putlong_def store_at_def Let_def)
qed

theorem xdrmem_setpos_getpos_witness:
  "xdrmem_getpos XDR_DECODE (snd (xdrmem_setpos XDR_DECODE 3
     \<lparr>m_mem = [9, 9, 9, 9, 9, 9, 9], m_private = 1, m_base = 1, m_handy = 5\<rparr>)) = 3"
  using xdrmem_setpos_getpos [of "\<lparr>m_mem = [9, 9, 9, 9, 9, 9, 9], m_private = 1, m_base = 1, m_handy = 5\<rparr>" XDR_DECODE 3]
  by (simp add: xdrmem_ok_def split: prod.splits)

section \<open>Refused input\<close>

text \<open>
  C10: a byte string, a string or an array whose count in the input is larger than the maximum the caller
  gives is refused before anything is allocated: the pointer of the object stays null, and the stream has
  only gone past the count.
\<close>

theorem xdr_oversize_refused:
  assumes "addr + unat n \<le> length mem" "take 4 (drop addr mem) = enc_u32 c" "4 \<le> unat n" "maxsize < c"
  shows "let x = xdrmem_create mem addr n XDR_DECODE; y = x\<lparr>x_str := snd (xdrmem_getlong (x_str x))\<rparr>
    in xdr_bytes mem_alloc x (None, k) maxsize = (False, y, None, c) \<and>
       xdr_string mem_alloc x None maxsize = (False, y, None) \<and>
       xdr_array calloc maxsize elsize elproc x (None, k) = (False, y, None, c)"
proof -
  let ?x = "xdrmem_create mem addr n XDR_DECODE"
  have x: "mem_dec.reading ?x" by (rule xdrmem_create_ok(2) [OF assms(1)])
  have "prefix (enc_u32 c) (xdrmem_input (x_str ?x))"
    using assms(1,3) by (simp add: xdrmem_create_simps prefix_def assms(2) [symmetric])
      (metis append_take_drop_id min.absorb1 take_take)
  from mem_dec.GETLONG_ok [OF x this] obtain y where y: "XDR_GETLONG ?x = (Some (scast c), y)" by blast
  then have "y = ?x\<lparr>x_str := snd (xdrmem_getlong (x_str ?x))\<rparr>" and "x_op y = XDR_DECODE"
    by (auto simp: XDR_GETLONG_def xdrmem_create_def xdrmem_ops_def split: prod.splits)
  moreover have "xdr_u_int ?x u = (True, y, c)" for u
    using y by (simp add: xdr_u_int_def mem_dec.reading_op [OF x] casts_32)
  ultimately show ?thesis
    using assms(4) by (simp add: Let_def xdr_bytes_def xdr_string_def xdr_array_def mem_dec.reading_op [OF x])
qed

theorem xdr_oversize_refused_witness:
  "fst (xdr_string (\<lambda>k. Some []) (xdrmem_create [0, 0, 0, 9, 65, 66, 67, 0] 0 8 XDR_DECODE) None 8) = False"
  using xdr_oversize_refused [of 0 8 "[0, 0, 0, 9, 65, 66, 67, 0]" 9 8 "\<lambda>k. Some []" 0 "\<lambda>c e. Some [] :: unit list option" 1 "\<lambda>x u. (True, x, u)"]
  by (simp add: enc_u32_def word_be_def word_le_numeral Let_def)

end
