(* ===== verification/Xdr_Sizeof.thy ===== *)
theory Xdr_Sizeof
  imports Xdr_Mem
begin

text \<open>
  \<open>sunrpc/xdr_sizeof.c\<close>: a stream that only counts what is written to it.  Its count is the length of the
  encoding, so that it is the size of the smallest memory stream the object can be written to.
\<close>

section \<open>The counting stream\<close>

text \<open>
  \<open>x_private\<close> is the address of the scratch block of \<open>x_inline\<close>, \<open>x_base\<close> its size stored as a pointer.
  \<open>malloc\<close> returns an address or \<open>None\<close>.
\<close>

record xdrsize =
  z_private :: "nat option"
  z_base :: u64
  z_handy :: u32

definition x_putlong_size :: "u64 \<Rightarrow> xdrsize \<Rightarrow> bool \<times> xdrsize" where
  "x_putlong_size l s = (True, s\<lparr>z_handy := z_handy s + BYTES_PER_XDR_UNIT\<rparr>)"

definition x_putbytes_size :: "byte list \<Rightarrow> u32 \<Rightarrow> xdrsize \<Rightarrow> bool \<times> xdrsize" where
  "x_putbytes_size bp len s = (True, s\<lparr>z_handy := z_handy s + len\<rparr>)"

definition x_getpostn_size :: "xdr_op \<Rightarrow> xdrsize \<Rightarrow> u32" where
  "x_getpostn_size op s = z_handy s"

definition x_setpostn_size :: "xdr_op \<Rightarrow> u32 \<Rightarrow> xdrsize \<Rightarrow> bool \<times> xdrsize" where
  "x_setpostn_size op len s = (False, s)"

definition x_inline_size :: "(u32 \<Rightarrow> nat option) \<Rightarrow> xdr_op \<Rightarrow> u32 \<Rightarrow> xdrsize \<Rightarrow> nat option \<times> xdrsize" where
  "x_inline_size malloc op len s =
     (if len = 0 then (None, s)
      else if op \<noteq> XDR_ENCODE then (None, s)
      else if len < ucast (z_base s) then (z_private s, s\<lparr>z_handy := z_handy s + len\<rparr>)
      else case malloc len of
             None \<Rightarrow> (None, s\<lparr>z_private := None, z_base := 0\<rparr>)
           | Some p \<Rightarrow> (Some p, s\<lparr>z_private := Some p, z_base := ucast len, z_handy := z_handy s + len\<rparr>))"

definition harmless_long :: "xdrsize \<Rightarrow> u64 option \<times> xdrsize" where
  "harmless_long s = (None, s)"

definition harmless_bytes :: "u32 \<Rightarrow> xdrsize \<Rightarrow> bool \<times> byte list \<times> xdrsize" where
  "harmless_bytes len s = (False, [], s)"

definition harmless_int32 :: "xdrsize \<Rightarrow> u32 option \<times> xdrsize" where
  "harmless_int32 s = (None, s)"

definition x_destroy_size :: "xdrsize \<Rightarrow> xdrsize" where
  "x_destroy_size s = s\<lparr>z_handy := 0, z_base := 0, z_private := None\<rparr>"

definition x_putint32_size :: "u32 \<Rightarrow> xdrsize \<Rightarrow> bool \<times> xdrsize" where
  "x_putint32_size i s = (True, s\<lparr>z_handy := z_handy s + BYTES_PER_XDR_UNIT\<rparr>)"

definition sizeof_ops :: "(u32 \<Rightarrow> nat option) \<Rightarrow> xdrsize xdr_ops" where
  "sizeof_ops malloc =
     \<lparr>x_getlong = harmless_long, x_putlong = x_putlong_size, x_getbytes = harmless_bytes,
      x_putbytes = x_putbytes_size, x_getpostn = x_getpostn_size, x_setpostn = x_setpostn_size,
      x_inline = x_inline_size malloc, x_destroy = x_destroy_size, x_getint32 = harmless_int32,
      x_putint32 = x_putint32_size\<rparr>"

definition xdr_sizeof :: "(u32 \<Rightarrow> nat option) \<Rightarrow> (xdrsize, 'a) xdrproc_t \<Rightarrow> 'a \<Rightarrow> u64" where
  "xdr_sizeof malloc func data =
     (let x = \<lparr>x_op = XDR_ENCODE, x_ops = sizeof_ops malloc,
               x_str = \<lparr>z_private = None, z_base = 0, z_handy = 0\<rparr>\<rparr>;
          (stat, x, data) = func x data
      in if stat then ucast (z_handy (x_str x)) else 0)"

section \<open>What it counts\<close>

definition sizeof_emits :: "xdrsize \<Rightarrow> byte list \<Rightarrow> xdrsize \<Rightarrow> bool" where
  "sizeof_emits s bs t = (z_handy t = z_handy s + of_nat (length bs))"

interpretation size_enc: xdr_encoder "sizeof_ops malloc" "\<lambda>_. True" "\<lambda>_ _. True" sizeof_emits for malloc
  by unfold_locales (auto simp: sizeof_ops_def sizeof_emits_def x_putlong_size_def x_putint32_size_def
      x_putbytes_size_def BYTES_PER_XDR_UNIT_def min_def)

lemma xdr_sizeof_encodes:
  assumes "size_enc.encodes malloc func v bs"
  shows "xdr_sizeof malloc func v = of_nat (length bs mod 2 ^ 32)"
proof -
  let ?x = "\<lparr>x_op = XDR_ENCODE, x_ops = sizeof_ops malloc, x_str = \<lparr>z_private = None, z_base = 0, z_handy = 0\<rparr>\<rparr>"
  have "size_enc.writing malloc ?x" by (simp add: size_enc.writing_def)
  from size_enc.encodes_ok [OF assms this] obtain y where "func ?x v = (True, y, v)" "z_handy (x_str y) = of_nat (length bs)"
    by (auto simp: sizeof_emits_def)
  moreover have "ucast (of_nat (length bs) :: u32) = (of_nat (length bs mod 2 ^ 32) :: u64)"
    unfolding take_bit_eq_mod [symmetric] by (rule bit_word_eqI) (auto simp: bit_simps)
  ultimately show ?thesis by (simp add: xdr_sizeof_def)
qed

lemma unat_ucast_u64: "unat (ucast (w :: u32) :: u64) = unat w"
  using unat_lt2p [of w] by (simp add: unsigned_ucast_eq take_bit_nat_eq_self)

text \<open>
  C15: for an array of strings, \<open>xdr_sizeof\<close> is the length of the encoding modulo \<open>2 ^ 32\<close> (the count is kept
  in an \<open>u_int\<close>); when that length is below \<open>2 ^ 32\<close>, encoding to a memory stream succeeds exactly when the
  buffer has at least \<open>xdr_sizeof\<close> bytes.
\<close>

theorem xdr_sizeof_string_array:
  fixes ss :: "byte list list"
  defines "obj \<equiv> (Some (map (\<lambda>s. Some (s @ [0])) ss), of_nat (length ss) :: u32)"
  assumes "length ss \<le> unat maxsize" "of_nat (length ss) \<le> (0 - 1 :: u32) div elsize"
    and "list_all (\<lambda>s. length s < 2 ^ 32 - 1 \<and> 0 \<notin> set s) ss" "addr + unat n \<le> length mem"
  shows "xdr_sizeof malloc (xdr_array calloc maxsize elsize (xdr_wrapstring mem_alloc)) obj =
      of_nat (length (enc_array enc_bytes ss) mod 2 ^ 32) \<and>
    (length (enc_array enc_bytes ss) < 2 ^ 32 \<longrightarrow>
      fst (xdr_array calloc maxsize elsize (xdr_wrapstring mem_alloc) (xdrmem_create mem addr n XDR_ENCODE) obj) =
      (xdr_sizeof malloc (xdr_array calloc maxsize elsize (xdr_wrapstring mem_alloc)) obj \<le> ucast n))"
proof -
  have e: "size_enc.encodes malloc (xdr_array calloc maxsize elsize (xdr_wrapstring mem_alloc)) obj (enc_array enc_bytes ss)"
    "mem_enc.encodes (xdr_array calloc maxsize elsize (xdr_wrapstring mem_alloc)) obj (enc_array enc_bytes ss)"
    using size_enc.encodes_string_array [OF assms(2-4)] mem_enc.encodes_string_array [OF assms(2-4)]
    by (simp_all add: obj_def)
  have "fst (xdr_array calloc maxsize elsize (xdr_wrapstring mem_alloc) (xdrmem_create mem addr n XDR_ENCODE) obj) =
      (length (enc_array enc_bytes ss) \<le> unat n)"
    using mem_enc.encodes_ok [OF e(2) xdrmem_create_ok(1) [OF assms(5)]]
      mem_enc.encodes_full [OF e(2) xdrmem_create_ok(1) [OF assms(5)]]
    by (fastforce simp: xdrmem_create_simps)
  then show ?thesis
    using xdr_sizeof_encodes [OF e(1)] by (simp add: word_le_nat_alt unat_of_nat_small unat_ucast_u64)
qed

theorem xdr_sizeof_string_array_witness:
  "xdr_sizeof (\<lambda>_. None) (xdr_array (\<lambda>c elsize. None) 16 8 (xdr_wrapstring (\<lambda>k. None)))
     (Some [Some [104, 105, 0], Some [0]], 2) = 16"
  using xdr_sizeof_string_array [of "[[104, 105], []]" 16 8 0 0 "[]" "\<lambda>_. None" "\<lambda>c elsize. None" "\<lambda>k. None"]
  by (simp add: enc_array_def enc_bytes_def enc_opaque_def xdr_padding_def)

end
