(* ===== verification/Xdr_Rec.thy ===== *)
theory Xdr_Rec
  imports Xdr_Decode
begin

text \<open>
  The record stream of \<open>sunrpc/xdr_rec.c\<close>, which XDR uses on TCP connections: records are sent as fragments
  with a 4-byte header that has the length and the mark of the last fragment.

  The state is \<open>RECSTREAM\<close> with the memory that holds its two buffers, indexed by the address.  A pointer difference
  is an integer; where the code assigns a number to an \<open>int\<close> or a \<open>u_int\<close>, it is converted with \<open>to_int\<close> or
  \<open>to_uint\<close>, which keep its low 32 bits.  The handle of the connection has the type \<open>'n\<close>, and
  \<open>readit\<close> and \<open>writeit\<close> are the callbacks of the caller, which take their count as an \<open>int\<close>: \<open>readit\<close> returns the
  bytes read, of which there are at most as many as asked for, or \<open>None\<close> for \<open>-1\<close>; \<open>writeit\<close> is given the bytes at the
  address, as many as the count says, and the count, and returns the count it has written.

  The loops of the code end when every successful \<open>readit\<close> returns at least one byte.  They are given a
  number of rounds that is enough in this case; a loop that is cut off fails and sets \<open>r_stuck\<close>, as does the copy of a
  negative number of bytes, from which the code does not return.
\<close>

section \<open>Conversions\<close>

definition to_int :: "int \<Rightarrow> int" where
  "to_int x = sint (of_int x :: u32)"

definition to_uint :: "int \<Rightarrow> nat" where
  "to_uint x = unat (of_int x :: u32)"

lemma to_int_id [simp]: "- (2 ^ 31) \<le> x \<Longrightarrow> x < 2 ^ 31 \<Longrightarrow> to_int x = x"
  by (simp add: to_int_def signed_of_int signed_take_bit_int_eq_self)

lemma to_uint_id [simp]: "0 \<le> x \<Longrightarrow> x < 2 ^ 32 \<Longrightarrow> to_uint x = nat x"
  using unat_of_nat_small [of "nat x", where 'a = 32] by (simp add: to_uint_def)

section \<open>The stream\<close>

definition LAST_FRAG :: u64 where
  "LAST_FRAG = push_bit 31 1"

record 'n rec_strm =
  r_mem :: "byte list"
  tcp_handle :: 'n
  the_buffer :: nat
  writeit :: "'n \<Rightarrow> byte list \<Rightarrow> int \<Rightarrow> int \<times> 'n"
  out_base :: nat
  out_finger :: nat
  out_boundry :: nat
  frag_header :: nat
  frag_sent :: bool
  readit :: "'n \<Rightarrow> int \<Rightarrow> byte list option \<times> 'n"
  in_size :: nat
  in_base :: nat
  in_finger :: nat
  in_boundry :: nat
  fbtbc :: int
  last_frag :: bool
  sendsize :: u32
  recvsize :: u32
  r_stuck :: bool

definition fix_buf_size :: "u32 \<Rightarrow> u32" where
  "fix_buf_size s = (let s = if s < 100 then 4000 else s in RNDUP s)"

text \<open>
  \<open>rstrm_ok\<close> is whether there is memory for the structure itself, and \<open>mem_alloc n\<close> the block of \<open>n\<close> bytes in the memory
  \<open>mem\<close> that is given for the buffers, or \<open>None\<close>; the sum of the sizes is one of unsigned integers and wraps around.  When one
  of the two allocations fails the handle stays as it was, which is the value \<open>None\<close>.
\<close>

definition xdrrec_create ::
  "bool \<Rightarrow> (nat \<Rightarrow> nat option) \<Rightarrow> byte list \<Rightarrow> u32 \<Rightarrow> u32 \<Rightarrow> 'n \<Rightarrow> ('n \<Rightarrow> int \<Rightarrow> byte list option \<times> 'n) \<Rightarrow>
   ('n \<Rightarrow> byte list \<Rightarrow> int \<Rightarrow> int \<times> 'n) \<Rightarrow> 'n rec_strm option" where
  "xdrrec_create rstrm_ok mem_alloc mem ssize rsize handle reader writer =
     (let ssize = fix_buf_size ssize; rsize = fix_buf_size rsize
      in case mem_alloc (unat (ssize + rsize + BYTES_PER_XDR_UNIT)) of
           None \<Rightarrow> None
         | Some buf \<Rightarrow>
             if \<not> rstrm_ok then None
             else let tmp = if buf mod 4 \<noteq> 0 then buf + (4 - buf mod 4) else buf
             in Some \<lparr>r_mem = mem, tcp_handle = handle, the_buffer = buf, writeit = writer, out_base = tmp,
                      out_finger = tmp + 4, out_boundry = tmp + unat ssize, frag_header = tmp, frag_sent = False,
                      readit = reader, in_size = unat rsize, in_base = tmp + unat ssize,
                      in_finger = tmp + unat ssize + unat rsize, in_boundry = tmp + unat ssize + unat rsize,
                      fbtbc = 0, last_frag = True, sendsize = ssize, recvsize = rsize, r_stuck = False\<rparr>)"

section \<open>Output\<close>

definition flush_out :: "'n rec_strm \<Rightarrow> bool \<Rightarrow> bool \<times> 'n rec_strm" where
  "flush_out rstrm eor =
     (let eormask = if eor then LAST_FRAG else 0;
          len = of_int (int (out_finger rstrm) - int (frag_header rstrm) - 4) :: u64;
          rstrm = rstrm\<lparr>r_mem := store_at (r_mem rstrm) (frag_header rstrm)
                          (word_le 4 (htonl (ucast (len OR eormask))))\<rparr>;
          len = int (out_finger rstrm) - int (out_base rstrm);
          (n, h) = writeit rstrm (tcp_handle rstrm) (take (nat (to_int len)) (drop (out_base rstrm) (r_mem rstrm))) (to_int len);
          rstrm = rstrm\<lparr>tcp_handle := h\<rparr>
      in if n \<noteq> to_int len then (False, rstrm)
         else (True, rstrm\<lparr>frag_header := out_base rstrm, out_finger := out_base rstrm + 4\<rparr>))"

definition xdrrec_putlong :: "u64 \<Rightarrow> 'n rec_strm \<Rightarrow> bool \<times> 'n rec_strm" where
  "xdrrec_putlong l rstrm =
     (let (ok, rstrm) =
            (if out_finger rstrm + 4 > out_boundry rstrm then flush_out (rstrm\<lparr>frag_sent := True\<rparr>) False
             else (True, rstrm))
      in if \<not> ok then (False, rstrm)
         else let dest = out_finger rstrm; rstrm = rstrm\<lparr>out_finger := out_finger rstrm + 4\<rparr>
         in (True, rstrm\<lparr>r_mem := store_at (r_mem rstrm) dest (word_le 4 (htonl (ucast l)))\<rparr>))"

definition xdrrec_putint32 :: "u32 \<Rightarrow> 'n rec_strm \<Rightarrow> bool \<times> 'n rec_strm" where
  "xdrrec_putint32 i rstrm =
     (let (ok, rstrm) =
            (if out_finger rstrm + 4 > out_boundry rstrm then flush_out (rstrm\<lparr>frag_sent := True\<rparr>) False
             else (True, rstrm))
      in if \<not> ok then (False, rstrm)
         else let dest = out_finger rstrm; rstrm = rstrm\<lparr>out_finger := out_finger rstrm + 4\<rparr>
         in (True, rstrm\<lparr>r_mem := store_at (r_mem rstrm) dest (word_le 4 (htonl i))\<rparr>))"

text \<open>The loop of \<open>xdrrec_putbytes\<close>, with the bytes that are left as \<open>addr\<close>.\<close>

fun putbytes_loop :: "nat \<Rightarrow> byte list \<Rightarrow> 'n rec_strm \<Rightarrow> bool \<times> 'n rec_strm" where
  "putbytes_loop 0 addr rstrm = (if addr = [] then (True, rstrm) else (False, rstrm\<lparr>r_stuck := True\<rparr>))"
| "putbytes_loop (Suc fuel) addr rstrm =
     (if addr = [] then (True, rstrm)
      else let current = to_uint (int (out_boundry rstrm) - int (out_finger rstrm));
               current = if length addr < current then length addr else current;
               rstrm = rstrm\<lparr>r_mem := store_at (r_mem rstrm) (out_finger rstrm) (take current addr)\<rparr>;
               rstrm = rstrm\<lparr>out_finger := out_finger rstrm + current\<rparr>;
               addr = drop current addr
      in if out_finger rstrm = out_boundry rstrm \<and> addr \<noteq> []
         then (let (ok, rstrm) = flush_out (rstrm\<lparr>frag_sent := True\<rparr>) False
               in if \<not> ok then (False, rstrm) else putbytes_loop fuel addr rstrm)
         else putbytes_loop fuel addr rstrm)"

definition xdrrec_putbytes :: "byte list \<Rightarrow> u32 \<Rightarrow> 'n rec_strm \<Rightarrow> bool \<times> 'n rec_strm" where
  "xdrrec_putbytes addr len rstrm = putbytes_loop (2 * unat len + 1) (take (unat len) addr) rstrm"

definition xdrrec_endofrecord :: "bool \<Rightarrow> 'n rec_strm \<Rightarrow> bool \<times> 'n rec_strm" where
  "xdrrec_endofrecord sendnow rstrm =
     (if sendnow \<or> frag_sent rstrm \<or> out_finger rstrm + 4 \<ge> out_boundry rstrm
      then flush_out (rstrm\<lparr>frag_sent := False\<rparr>) True
      else let len = of_int (int (out_finger rstrm) - int (frag_header rstrm) - 4) :: u64;
               rstrm = rstrm\<lparr>r_mem := store_at (r_mem rstrm) (frag_header rstrm)
                               (word_le 4 (htonl (ucast (len OR LAST_FRAG))))\<rparr>
           in (True, rstrm\<lparr>frag_header := out_finger rstrm, out_finger := out_finger rstrm + 4\<rparr>))"

section \<open>Input\<close>

definition fill_input_buf :: "'n rec_strm \<Rightarrow> bool \<times> 'n rec_strm" where
  "fill_input_buf rstrm =
     (let i = in_boundry rstrm mod 4;
          where0 = in_base rstrm + i;
          len = to_int (int (in_size rstrm) - int i)
      in case readit rstrm (tcp_handle rstrm) len of
           (None, h) \<Rightarrow> (False, rstrm\<lparr>tcp_handle := h\<rparr>)
         | (Some bs, h) \<Rightarrow>
             (True, rstrm\<lparr>tcp_handle := h, r_mem := store_at (r_mem rstrm) where0 bs,
                          in_finger := where0, in_boundry := where0 + length bs\<rparr>))"

text \<open>The loop of \<open>get_input_bytes\<close>; the bytes copied so far come back with the result.\<close>

fun get_input_loop :: "nat \<Rightarrow> int \<Rightarrow> byte list \<Rightarrow> 'n rec_strm \<Rightarrow> bool \<times> byte list \<times> 'n rec_strm" where
  "get_input_loop 0 len acc rstrm =
     (if len \<le> 0 then (True, acc, rstrm) else (False, acc, rstrm\<lparr>r_stuck := True\<rparr>))"
| "get_input_loop (Suc fuel) len acc rstrm =
     (if len \<le> 0 then (True, acc, rstrm)
      else let current = to_int (int (in_boundry rstrm) - int (in_finger rstrm))
      in if current = 0
         then (let (ok, rstrm) = fill_input_buf rstrm
               in if \<not> ok then (False, acc, rstrm) else get_input_loop fuel len acc rstrm)
         else let current = if len < current then len else current
         in if current < 0 then (False, acc, rstrm\<lparr>r_stuck := True\<rparr>)
         else let bs = take (nat current) (drop (in_finger rstrm) (r_mem rstrm))
         in get_input_loop fuel (len - current) (acc @ bs) (rstrm\<lparr>in_finger := in_finger rstrm + nat current\<rparr>))"

definition get_input_bytes :: "int \<Rightarrow> 'n rec_strm \<Rightarrow> bool \<times> byte list \<times> 'n rec_strm" where
  "get_input_bytes len rstrm = get_input_loop (2 * nat len) len [] rstrm"

fun skip_input_loop :: "nat \<Rightarrow> int \<Rightarrow> 'n rec_strm \<Rightarrow> bool \<times> 'n rec_strm" where
  "skip_input_loop 0 cnt rstrm = (if cnt \<le> 0 then (True, rstrm) else (False, rstrm\<lparr>r_stuck := True\<rparr>))"
| "skip_input_loop (Suc fuel) cnt rstrm =
     (if cnt \<le> 0 then (True, rstrm)
      else let current = to_int (int (in_boundry rstrm) - int (in_finger rstrm))
      in if current = 0
         then (let (ok, rstrm) = fill_input_buf rstrm
               in if \<not> ok then (False, rstrm) else skip_input_loop fuel cnt rstrm)
         else let current = if cnt < current then cnt else current
         in skip_input_loop fuel (cnt - current) (rstrm\<lparr>in_finger := nat (int (in_finger rstrm) + current)\<rparr>))"

definition skip_input_bytes :: "int \<Rightarrow> 'n rec_strm \<Rightarrow> bool \<times> 'n rec_strm" where
  "skip_input_bytes cnt rstrm = skip_input_loop (2 * nat cnt) cnt rstrm"

definition set_input_fragment :: "'n rec_strm \<Rightarrow> bool \<times> 'n rec_strm" where
  "set_input_fragment rstrm =
     (let (ok, bs, rstrm) = get_input_bytes 4 rstrm
      in if \<not> ok then (False, rstrm)
         else let header = htonl (le_word bs);
                  rstrm = rstrm\<lparr>last_frag := ucast header AND LAST_FRAG \<noteq> 0\<rparr>
         in if header = 0 then (False, rstrm)
            else (True, rstrm\<lparr>fbtbc := uint (ucast header AND NOT LAST_FRAG)\<rparr>))"

text \<open>The loop of \<open>xdrrec_getbytes\<close>.\<close>

fun getbytes_loop :: "nat \<Rightarrow> nat \<Rightarrow> byte list \<Rightarrow> 'n rec_strm \<Rightarrow> bool \<times> byte list \<times> 'n rec_strm" where
  "getbytes_loop 0 len acc rstrm =
     (if len = 0 then (True, acc, rstrm) else (False, acc, rstrm\<lparr>r_stuck := True\<rparr>))"
| "getbytes_loop (Suc fuel) len acc rstrm =
     (if len = 0 then (True, acc, rstrm)
      else let current = to_uint (fbtbc rstrm)
      in if current = 0
         then if last_frag rstrm then (False, acc, rstrm)
              else (let (ok, rstrm) = set_input_fragment rstrm
                    in if \<not> ok then (False, acc, rstrm) else getbytes_loop fuel len acc rstrm)
         else let current = if len < current then len else current;
                  (ok, bs, rstrm) = get_input_bytes (to_int (int current)) rstrm
         in if \<not> ok then (False, acc @ bs, rstrm)
            else getbytes_loop fuel (len - current) (acc @ bs) (rstrm\<lparr>fbtbc := fbtbc rstrm - int current\<rparr>))"

definition xdrrec_getbytes :: "u32 \<Rightarrow> 'n rec_strm \<Rightarrow> bool \<times> byte list \<times> 'n rec_strm" where
  "xdrrec_getbytes len rstrm = getbytes_loop (2 * unat len + 1) (unat len) [] rstrm"

definition rec_word :: "'n rec_strm \<Rightarrow> u32 option \<times> 'n rec_strm" where
  "rec_word rstrm =
     (if fbtbc rstrm \<ge> 4 \<and> int (in_boundry rstrm) - int (in_finger rstrm) \<ge> 4
      then (Some (htonl (le_word (take 4 (drop (in_finger rstrm) (r_mem rstrm))))),
            rstrm\<lparr>fbtbc := fbtbc rstrm - 4, in_finger := in_finger rstrm + 4\<rparr>)
      else let (ok, mylong, rstrm) = xdrrec_getbytes 4 rstrm
           in if \<not> ok then (None, rstrm) else (Some (htonl (le_word mylong)), rstrm))"

definition xdrrec_getlong :: "'n rec_strm \<Rightarrow> u64 option \<times> 'n rec_strm" where
  "xdrrec_getlong rstrm = (let (w, rstrm) = rec_word rstrm in (map_option scast w, rstrm))"

definition xdrrec_getint32 :: "'n rec_strm \<Rightarrow> u32 option \<times> 'n rec_strm" where
  "xdrrec_getint32 rstrm = rec_word rstrm"

text \<open>
  \<open>xdrrec_skiprecord\<close> and \<open>xdrrec_eof\<close> go over the fragments of the record, of which there may be any
  number: \<open>None\<close> means that the given number of rounds was not enough.
\<close>

fun xdrrec_skiprecord :: "nat \<Rightarrow> 'n rec_strm \<Rightarrow> (bool \<times> 'n rec_strm) option" where
  "xdrrec_skiprecord 0 rstrm = None"
| "xdrrec_skiprecord (Suc fuel) rstrm =
     (if fbtbc rstrm > 0 \<or> \<not> last_frag rstrm
      then let (ok, rstrm) = skip_input_bytes (fbtbc rstrm) rstrm
           in if \<not> ok then Some (False, rstrm)
              else let rstrm = rstrm\<lparr>fbtbc := 0\<rparr>
              in if \<not> last_frag rstrm
                 then (let (ok, rstrm) = set_input_fragment rstrm
                       in if \<not> ok then Some (False, rstrm) else xdrrec_skiprecord fuel rstrm)
                 else xdrrec_skiprecord fuel rstrm
      else Some (True, rstrm\<lparr>last_frag := False\<rparr>))"

fun xdrrec_eof :: "nat \<Rightarrow> 'n rec_strm \<Rightarrow> (bool \<times> 'n rec_strm) option" where
  "xdrrec_eof 0 rstrm = None"
| "xdrrec_eof (Suc fuel) rstrm =
     (if fbtbc rstrm > 0 \<or> \<not> last_frag rstrm
      then let (ok, rstrm) = skip_input_bytes (fbtbc rstrm) rstrm
           in if \<not> ok then Some (True, rstrm)
              else let rstrm = rstrm\<lparr>fbtbc := 0\<rparr>
              in if \<not> last_frag rstrm
                 then (let (ok, rstrm) = set_input_fragment rstrm
                       in if \<not> ok then Some (True, rstrm) else xdrrec_eof fuel rstrm)
                 else xdrrec_eof fuel rstrm
      else Some (in_finger rstrm = in_boundry rstrm, rstrm))"

section \<open>Position and inline buffer\<close>

text \<open>\<open>lseek\<close> is the position of the descriptor, or \<open>-1\<close>.\<close>

definition xdrrec_getpos :: "('n \<Rightarrow> int) \<Rightarrow> xdr_op \<Rightarrow> 'n rec_strm \<Rightarrow> u32" where
  "xdrrec_getpos lseek op rstrm =
     (let pos = lseek (tcp_handle rstrm)
      in if pos \<noteq> -1
         then case op of
                XDR_ENCODE \<Rightarrow> of_int (pos + (int (out_finger rstrm) - int (out_base rstrm)))
              | XDR_DECODE \<Rightarrow> of_int (pos - (int (in_boundry rstrm) - int (in_finger rstrm)))
              | XDR_FREE \<Rightarrow> 0 - 1
         else of_int pos)"

definition xdrrec_setpos :: "('n \<Rightarrow> int) \<Rightarrow> xdr_op \<Rightarrow> u32 \<Rightarrow> 'n rec_strm \<Rightarrow> bool \<times> 'n rec_strm" where
  "xdrrec_setpos lseek op pos rstrm =
     (let currpos = xdrrec_getpos lseek op rstrm;
          delta = sint (currpos - pos)
      in if sint currpos \<noteq> -1
         then case op of
                XDR_ENCODE \<Rightarrow>
                  (let newpos = int (out_finger rstrm) - delta
                   in if newpos > int (frag_header rstrm) \<and> newpos < int (out_boundry rstrm)
                      then (True, rstrm\<lparr>out_finger := nat newpos\<rparr>) else (False, rstrm))
              | XDR_DECODE \<Rightarrow>
                  (let newpos = int (in_finger rstrm) - delta
                   in if delta < to_int (fbtbc rstrm) \<and> newpos \<le> int (in_boundry rstrm) \<and> newpos \<ge> int (in_base rstrm)
                      then (True, rstrm\<lparr>in_finger := nat newpos, fbtbc := fbtbc rstrm - delta\<rparr>)
                      else (False, rstrm))
              | XDR_FREE \<Rightarrow> (False, rstrm)
         else (False, rstrm))"

definition xdrrec_inline :: "xdr_op \<Rightarrow> u32 \<Rightarrow> 'n rec_strm \<Rightarrow> nat option \<times> 'n rec_strm" where
  "xdrrec_inline op len rstrm =
     (case op of
        XDR_ENCODE \<Rightarrow>
          if out_finger rstrm + unat len \<le> out_boundry rstrm
          then (Some (out_finger rstrm), rstrm\<lparr>out_finger := out_finger rstrm + unat len\<rparr>)
          else (None, rstrm)
      | XDR_DECODE \<Rightarrow>
          if uint len \<le> fbtbc rstrm \<and> in_finger rstrm + unat len \<le> in_boundry rstrm
          then (Some (in_finger rstrm), rstrm\<lparr>fbtbc := fbtbc rstrm - uint len, in_finger := in_finger rstrm + unat len\<rparr>)
          else (None, rstrm)
      | XDR_FREE \<Rightarrow> (None, rstrm))"

text \<open>Both blocks are given back to the allocator; the state itself is no longer used.\<close>

definition xdrrec_destroy :: "'n rec_strm \<Rightarrow> 'n rec_strm" where
  "xdrrec_destroy rstrm = rstrm"

definition xdrrec_ops :: "('n \<Rightarrow> int) \<Rightarrow> 'n rec_strm xdr_ops" where
  "xdrrec_ops lseek =
     \<lparr>x_getlong = xdrrec_getlong, x_putlong = xdrrec_putlong, x_getbytes = xdrrec_getbytes,
      x_putbytes = xdrrec_putbytes, x_getpostn = xdrrec_getpos lseek, x_setpostn = xdrrec_setpos lseek,
      x_inline = xdrrec_inline, x_destroy = xdrrec_destroy, x_getint32 = xdrrec_getint32,
      x_putint32 = xdrrec_putint32\<rparr>"

end
