(* ===== verification/Xdr_Rec_In.thy ===== *)
theory Xdr_Rec_In
  imports Xdr_Rec
begin

text \<open>
  The input side of the record stream: from a connection that delivers bytes in pieces of any size, the
  operations read the data of the fragments of the current record and nothing beyond its end.

  \<open>reader_ok reader pending\<close> is the contract of \<open>readit\<close>: \<open>pending\<close> is what the connection will still deliver;
  a successful call returns a non-empty prefix of it and a failure means that nothing is left.
\<close>

definition reader_ok :: "('n \<Rightarrow> int \<Rightarrow> byte list option \<times> 'n) \<Rightarrow> ('n \<Rightarrow> byte list) \<Rightarrow> bool" where
  "reader_ok reader pending =
     (\<forall>h len. 0 < len \<and> len < 2 ^ 31 \<longrightarrow>
        (case reader h len of
           (None, h') \<Rightarrow> pending h = []
         | (Some bs, h') \<Rightarrow> bs \<noteq> [] \<and> int (length bs) \<le> len \<and> pending h = bs @ pending h'))"

lemma reader_okD:
  assumes "reader_ok reader pending" "0 < len" "len < 2 ^ 31" "reader h len = (x, h')"
  shows "x = None \<Longrightarrow> pending h = []"
    and "x = Some bs \<Longrightarrow> bs \<noteq> [] \<and> int (length bs) \<le> len \<and> pending h = bs @ pending h'"
  using assms unfolding reader_ok_def by (auto dest!: spec [of _ h] spec [of _ len])

text \<open>The bytes of the connection that are not consumed yet: the rest of the buffer and what is pending.\<close>

definition rec_raw :: "('n \<Rightarrow> byte list) \<Rightarrow> 'n rec_strm \<Rightarrow> byte list" where
  "rec_raw pending s =
     take (in_boundry s - in_finger s) (drop (in_finger s) (r_mem s)) @ pending (tcp_handle s)"

definition rec_in_ok :: "('n \<Rightarrow> byte list) \<Rightarrow> 'n rec_strm \<Rightarrow> bool" where
  "rec_in_ok pending s =
     (reader_ok (readit s) pending \<and> in_base s \<le> in_finger s \<and> in_finger s \<le> in_boundry s \<and>
      in_boundry s \<le> in_base s + in_size s \<and> in_base s + in_size s \<le> length (r_mem s) \<and> 4 \<le> in_size s \<and> in_size s < 2 ^ 31 \<and>
      0 \<le> fbtbc s \<and> fbtbc s < 2 ^ 31)"

lemma rec_in_room:
  assumes "rec_in_ok pending s"
  shows "to_int (int (in_boundry s) - int (in_finger s)) = int (in_boundry s - in_finger s)"
  using assms by (subst to_int_id) (auto simp: rec_in_ok_def of_nat_diff)

lemma fill_input_buf_ok:
  assumes s: "rec_in_ok pending s" "in_finger s = in_boundry s"
  shows "case fill_input_buf s of (ok, t) \<Rightarrow>
    ok = (rec_raw pending s \<noteq> []) \<and> r_stuck t = r_stuck s \<and>
    (ok \<longrightarrow> rec_in_ok pending t \<and> rec_raw pending t = rec_raw pending s \<and> in_finger t < in_boundry t \<and>
      fbtbc t = fbtbc s \<and> last_frag t = last_frag s)"
proof -
  define i where "i = in_boundry s mod 4"
  have i: "i < in_size s" using s by (simp add: i_def rec_in_ok_def) (meson mod_less_divisor order_less_le_trans zero_less_numeral)
  have raw: "rec_raw pending s = pending (tcp_handle s)" using s(2) by (simp add: rec_raw_def)
  have r: "reader_ok (readit s) pending" using s by (simp add: rec_in_ok_def)
  have small: "in_size s < 2 ^ 31" using s by (simp add: rec_in_ok_def)
  then have len: "to_int (int (in_size s) - int i) = int (in_size s - i)" using i by (subst to_int_id) (auto simp: of_nat_diff)
  obtain bs h where e: "readit s (tcp_handle s) (int (in_size s - i)) = (bs, h)" by fastforce
  show ?thesis
  proof (cases bs)
    case None
    have "pending (tcp_handle s) = []" using reader_okD(1) [OF r _ _ e None] i small by simp
    then show ?thesis using e None raw len by (simp add: fill_input_buf_def i_def [symmetric])
  next
    case (Some b)
    then have b: "b \<noteq> []" "length b \<le> in_size s - i" "pending (tcp_handle s) = b @ pending h"
      using reader_okD(2) [OF r _ _ e Some, unfolded of_nat_le_iff] i small by simp_all
    then show ?thesis
      using e Some raw s i len by (auto simp: fill_input_buf_def i_def [symmetric] rec_in_ok_def rec_raw_def store_at_def Let_def)
  qed
qed

lemma rec_raw_advance:
  assumes "rec_in_ok pending s" "n \<le> in_boundry s - in_finger s"
  shows "rec_raw pending (s\<lparr>in_finger := in_finger s + n\<rparr>) = drop n (rec_raw pending s)"
    "rec_in_ok pending (s\<lparr>in_finger := in_finger s + n\<rparr>)"
    "take n (drop (in_finger s) (r_mem s)) = take n (rec_raw pending s)"
  using assms by (auto simp: rec_in_ok_def rec_raw_def drop_take algebra_simps min_def)

definition rounds_needed :: "nat \<Rightarrow> 'n rec_strm \<Rightarrow> nat" where
  "rounds_needed len s = (if len = 0 then 0 else if in_finger s < in_boundry s then 2 * len - 1 else 2 * len)"

text \<open>One round of the loops when there are bytes in the buffer.\<close>

lemma input_loop_step:
  assumes "rec_in_ok pending s" "0 < len" "in_finger s < in_boundry s"
  defines "n \<equiv> min len (in_boundry s - in_finger s)"
  shows "get_input_loop (Suc fuel) (int len) acc s =
      get_input_loop fuel (int (len - n)) (acc @ take n (drop (in_finger s) (r_mem s))) (s\<lparr>in_finger := in_finger s + n\<rparr>)"
    "skip_input_loop (Suc fuel) (int len) s = skip_input_loop fuel (int (len - n)) (s\<lparr>in_finger := in_finger s + n\<rparr>)"
proof -
  have cur: "(if int len < int (in_boundry s - in_finger s) then int len else int (in_boundry s - in_finger s)) = int n"
    by (simp add: n_def min_def)
  have diff: "int len - int n = int (len - n)" by (simp add: n_def of_nat_diff)
  have "\<not> int len \<le> 0" "int (in_boundry s - in_finger s) \<noteq> 0" "\<not> int n < 0" "nat (int (in_finger s) + int n) = in_finger s + n"
    using assms(2,3) by simp_all
  then show "get_input_loop (Suc fuel) (int len) acc s =
      get_input_loop fuel (int (len - n)) (acc @ take n (drop (in_finger s) (r_mem s))) (s\<lparr>in_finger := in_finger s + n\<rparr>)"
    "skip_input_loop (Suc fuel) (int len) s = skip_input_loop fuel (int (len - n)) (s\<lparr>in_finger := in_finger s + n\<rparr>)"
    unfolding get_input_loop.simps skip_input_loop.simps rec_in_room [OF assms(1)] Let_def cur diff
    by (simp_all only: if_False nat_int)
qed

lemma get_input_loop_ok:
  assumes "rec_in_ok pending s" "rounds_needed len s \<le> fuel"
  shows "case get_input_loop fuel (int len) acc s of (ok, bs, t) \<Rightarrow>
    ok = (len \<le> length (rec_raw pending s)) \<and> r_stuck t = r_stuck s \<and>
    (ok \<longrightarrow> bs = acc @ take len (rec_raw pending s) \<and> rec_in_ok pending t \<and>
      rec_raw pending t = drop len (rec_raw pending s) \<and> fbtbc t = fbtbc s \<and> last_frag t = last_frag s)"
  using assms
proof (induction fuel arbitrary: len acc s)
  case 0
  then have "len = 0" by (auto simp: rounds_needed_def split: if_splits)
  then show ?case using 0 by simp
next
  case (Suc fuel)
  consider "len = 0" | "0 < len" "in_finger s = in_boundry s" | "0 < len" "in_finger s < in_boundry s"
    using Suc.prems(1) by (fastforce simp: rec_in_ok_def)
  then show ?case
  proof cases
    case 1
    then show ?thesis using Suc.prems by simp
  next
    case 2
    obtain ok t where e: "fill_input_buf s = (ok, t)" by fastforce
    with fill_input_buf_ok [OF Suc.prems(1) 2(2)] have f:
      "ok = (rec_raw pending s \<noteq> [])" "r_stuck t = r_stuck s"
      "ok \<Longrightarrow> rec_in_ok pending t \<and> rec_raw pending t = rec_raw pending s \<and> in_finger t < in_boundry t \<and>
        fbtbc t = fbtbc s \<and> last_frag t = last_frag s" by auto
    show ?thesis
    proof (cases ok)
      case False
      then show ?thesis using e f(1,2) 2 by (simp add: rec_in_room [OF Suc.prems(1)])
    next
      case True
      then have t: "rec_in_ok pending t" "rounds_needed len t \<le> fuel"
        using f(3) Suc.prems(2) 2 by (auto simp: rounds_needed_def)
      show ?thesis using Suc.IH [OF t, of acc] e f True 2 by (auto simp: rec_in_room [OF Suc.prems(1)])
    qed
  next
    case 3
    define n where "n = min len (in_boundry s - in_finger s)"
    let ?t = "s\<lparr>in_finger := in_finger s + n\<rparr>"
    have n: "n \<le> in_boundry s - in_finger s" "0 < n" "n \<le> len" using 3 by (auto simp: n_def)
    note adv = rec_raw_advance [OF Suc.prems(1) n(1)]
    have "rounds_needed (len - n) ?t \<le> fuel"
      using Suc.prems(2) 3 n by (auto simp: rounds_needed_def n_def split: if_splits)
    from Suc.IH [OF adv(2) this, of "acc @ take n (rec_raw pending s)"]
    have IH: "case get_input_loop fuel (int (len - n)) (acc @ take n (rec_raw pending s)) ?t of (ok, bs, t) \<Rightarrow>
      ok = (len - n \<le> length (drop n (rec_raw pending s))) \<and> r_stuck t = r_stuck s \<and>
      (ok \<longrightarrow> bs = (acc @ take n (rec_raw pending s)) @ take (len - n) (drop n (rec_raw pending s)) \<and>
        rec_in_ok pending t \<and> rec_raw pending t = drop (len - n) (drop n (rec_raw pending s)) \<and>
        fbtbc t = fbtbc s \<and> last_frag t = last_frag s)"
      by (simp add: adv(1))
    have "get_input_loop (Suc fuel) (int len) acc s =
        get_input_loop fuel (int (len - n)) (acc @ take n (drop (in_finger s) (r_mem s))) ?t"
      unfolding n_def by (rule input_loop_step(1) [OF Suc.prems(1) 3])
    then have "get_input_loop (Suc fuel) (int len) acc s = get_input_loop fuel (int (len - n)) (acc @ take n (rec_raw pending s)) ?t"
      by (simp only: adv(3))
    moreover have "take n (rec_raw pending s) @ take (len - n) (drop n (rec_raw pending s)) = take len (rec_raw pending s)"
      using n by (metis le_add_diff_inverse take_add)
    moreover have "n \<le> length (rec_raw pending s)" using n Suc.prems(1) by (auto simp: rec_raw_def rec_in_ok_def)
    ultimately show ?thesis using IH n(3) by (auto simp: split: prod.splits)
  qed
qed

lemma skip_input_loop_eq:
  "rec_in_ok pending s \<Longrightarrow> skip_input_loop fuel (int cnt) s = (let (ok, bs, t) = get_input_loop fuel (int cnt) acc s in (ok, t))"
proof (induction fuel arbitrary: cnt s acc)
  case (Suc fuel)
  note room = rec_in_room [OF Suc.prems]
  consider "cnt = 0" | "0 < cnt" "in_finger s = in_boundry s" | "0 < cnt" "in_finger s < in_boundry s"
    using Suc.prems by (fastforce simp: rec_in_ok_def)
  then show ?case
  proof cases
    case 1
    then show ?thesis by simp
  next
    case 2
    obtain ok t where e: "fill_input_buf s = (ok, t)" by fastforce
    with fill_input_buf_ok [OF Suc.prems] 2 have "ok \<Longrightarrow> rec_in_ok pending t" by auto
    then show ?thesis using Suc.IH [of t cnt acc] 2 e room by (auto simp: Let_def)
  next
    case 3
    show ?thesis
      unfolding input_loop_step [OF Suc.prems 3] by (rule Suc.IH) (rule rec_raw_advance(2) [OF Suc.prems], simp)
  qed
qed simp

lemma get_input_bytes_ok:
  assumes "rec_in_ok pending s"
  shows "case get_input_bytes (int len) s of (ok, bs, t) \<Rightarrow>
    ok = (len \<le> length (rec_raw pending s)) \<and> r_stuck t = r_stuck s \<and>
    (ok \<longrightarrow> bs = take len (rec_raw pending s) \<and> rec_in_ok pending t \<and>
      rec_raw pending t = drop len (rec_raw pending s) \<and> fbtbc t = fbtbc s \<and> last_frag t = last_frag s)"
  using get_input_loop_ok [OF assms, of len "2 * len" "[]"] by (simp add: get_input_bytes_def rounds_needed_def)

definition header_last :: "u32 \<Rightarrow> bool" where
  "header_last w = bit w 31"

definition header_size :: "u32 \<Rightarrow> nat" where
  "header_size w = unat (take_bit 31 w)"

lemma header_size_less: "header_size w < 2 ^ 31"
  using take_bit_nat_less_exp [of 31 "unat w"] by (simp add: header_size_def unsigned_take_bit_eq)

lemma bit_LAST_FRAG: "bit LAST_FRAG n \<longleftrightarrow> n = 31"
  unfolding LAST_FRAG_def bit_push_bit_iff bit_1_iff by auto

lemma header_fields:
  "(ucast w AND LAST_FRAG \<noteq> 0) = header_last w" "uint (ucast w AND NOT LAST_FRAG) = int (header_size w)"
proof -
  have "ucast w AND LAST_FRAG = (if bit w 31 then LAST_FRAG else 0)"
    by (rule bit_word_eqI) (auto simp: bit_LAST_FRAG bit_simps)
  moreover have "LAST_FRAG \<noteq> 0" by (simp add: LAST_FRAG_def)
  ultimately show "(ucast w AND LAST_FRAG \<noteq> 0) = header_last w" by (simp add: header_last_def)
  have "ucast w AND NOT LAST_FRAG = (ucast (take_bit 31 w) :: u64)"
    by (rule bit_word_eqI) (auto simp: bit_LAST_FRAG bit_simps dest: bit_imp_le_length)
  then show "uint (ucast w AND NOT LAST_FRAG) = int (header_size w)"
    by (simp add: header_size_def unsigned_take_bit_eq of_nat_take_bit unsigned_ucast_eq)
qed

lemma header_zero:
  assumes "header_size w = 0" "\<not> header_last w"
  shows "w = 0"
proof (rule bit_word_eqI)
  fix n assume "n < LENGTH(32)"
  then have "n < 31 \<or> n = 31" by auto
  moreover have "take_bit 31 w = 0" using assms(1) by (simp add: header_size_def unat_eq_zero)
  then have "\<not> bit (take_bit 31 w) n" by simp
  ultimately show "bit w n = bit 0 n" using assms(2) by (auto simp: header_last_def bit_simps)
qed

lemma set_input_fragment_ok:
  assumes "rec_in_ok pending s"
  defines "w \<equiv> be_word (take 4 (rec_raw pending s)) :: u32"
  shows "case set_input_fragment s of (ok, t) \<Rightarrow>
    ok = (4 \<le> length (rec_raw pending s) \<and> w \<noteq> 0) \<and> r_stuck t = r_stuck s \<and>
    (ok \<longrightarrow> rec_in_ok pending t \<and> rec_raw pending t = drop 4 (rec_raw pending s) \<and>
      fbtbc t = int (header_size w) \<and> last_frag t = header_last w)"
proof -
  obtain ok bs t where e: "get_input_bytes 4 s = (ok, bs, t)" by (cases "get_input_bytes 4 s")
  have g: "ok = (4 \<le> length (rec_raw pending s))" "r_stuck t = r_stuck s"
    "ok \<Longrightarrow> bs = take 4 (rec_raw pending s) \<and> rec_in_ok pending t \<and> rec_raw pending t = drop 4 (rec_raw pending s)"
    using get_input_bytes_ok [OF assms(1), of 4] e by simp_all
  show ?thesis
  proof (cases ok)
    case True
    then have "htonl (le_word bs) = w" using g(1,3) by (simp add: w_def htonl_def word_images)
    then show ?thesis
      using True e g header_size_less [of w]
      by (auto simp: set_input_fragment_def header_fields rec_in_ok_def rec_raw_def Let_def)
  qed (use e g in \<open>simp add: set_input_fragment_def\<close>)
qed

text \<open>The data of the fragments of a record, from the header of a fragment on.\<close>

function rec_frags :: "byte list \<Rightarrow> byte list" where
  "rec_frags raw =
     (if length raw < 4 then []
      else let w = be_word (take 4 raw) in
        if w = 0 then []
        else take (header_size w) (drop 4 raw) @
          (if header_last w then [] else rec_frags (drop (header_size w) (drop 4 raw))))"
  by pat_completeness auto
termination by (relation "measure length") auto

declare rec_frags.simps [simp del]

definition rec_input :: "('n \<Rightarrow> byte list) \<Rightarrow> 'n rec_strm \<Rightarrow> byte list" where
  "rec_input pending s =
     take (nat (fbtbc s)) (rec_raw pending s) @
     (if last_frag s then [] else rec_frags (drop (nat (fbtbc s)) (rec_raw pending s)))"

text \<open>Where the record stream skips to: the bytes after the last fragment of the record.\<close>

function rec_skip :: "byte list \<Rightarrow> byte list option" where
  "rec_skip raw =
     (if length raw < 4 then None
      else let w = be_word (take 4 raw); rest = drop 4 raw in
        if w = 0 \<or> length rest < header_size w then None
        else if header_last w then Some (drop (header_size w) rest)
        else rec_skip (drop (header_size w) rest))"
  by pat_completeness auto
termination by (relation "measure length") auto

declare rec_skip.simps [simp del]

definition rec_end :: "('n \<Rightarrow> byte list) \<Rightarrow> 'n rec_strm \<Rightarrow> byte list option" where
  "rec_end pending s =
     (let raw = rec_raw pending s
      in if length raw < nat (fbtbc s) then None
         else if last_frag s then Some (drop (nat (fbtbc s)) raw) else rec_skip (drop (nat (fbtbc s)) raw))"

lemma rec_frags_Nil [simp]: "rec_frags [] = []"
  by (simp add: rec_frags.simps)

lemma rec_input_advance:
  assumes "n \<le> nat (fbtbc s)" "n \<le> length (rec_raw pending s)" "rec_raw pending t = drop n (rec_raw pending s)"
    "fbtbc t = fbtbc s - int n" "last_frag t = last_frag s"
  shows "rec_input pending t = drop n (rec_input pending s)" "take n (rec_input pending s) = take n (rec_raw pending s)"
    "rec_end pending t = rec_end pending s"
proof -
  have "nat (fbtbc t) = nat (fbtbc s) - n" using assms(1,4) by simp
  then show "rec_input pending t = drop n (rec_input pending s)" "take n (rec_input pending s) = take n (rec_raw pending s)"
    "rec_end pending t = rec_end pending s"
    using assms by (auto simp: rec_input_def rec_end_def drop_take min_def Let_def)
qed

lemma rec_input_truncated:
  "length (rec_raw pending s) < nat (fbtbc s) \<Longrightarrow> rec_input pending s = rec_raw pending s"
  by (simp add: rec_input_def)

lemma rec_input_next:
  assumes "fbtbc s = 0" "\<not> last_frag s" "set_input_fragment s = (ok, t)" "rec_in_ok pending s"
  shows "if ok then rec_input pending t = rec_input pending s else rec_input pending s = []"
    and "if ok then rec_end pending t = rec_end pending s else rec_end pending s = None"
  using set_input_fragment_ok [OF assms(4)] assms(1-3)
  by (auto simp: rec_input_def rec_frags.simps [of "rec_raw pending s"] rec_end_def rec_skip.simps [of "rec_raw pending s"] Let_def)

text \<open>A stream that has at most \<open>n\<close> bytes, in a record after which the bytes \<open>after\<close> are left.\<close>

definition rec_at :: "('n \<Rightarrow> byte list) \<Rightarrow> byte list option \<Rightarrow> nat \<Rightarrow> 'n rec_strm \<Rightarrow> bool" where
  "rec_at pending after n s = (rec_in_ok pending s \<and> rec_end pending s = after \<and> length (rec_raw pending s) \<le> n)"

lemma rec_at_mono: "rec_at pending after n s \<Longrightarrow> n \<le> m \<Longrightarrow> rec_at pending after m s"
  by (simp add: rec_at_def)

definition getbytes_rounds :: "nat \<Rightarrow> 'n rec_strm \<Rightarrow> nat" where
  "getbytes_rounds len s =
     (if len = 0 then 0 else if fbtbc s > 0 then 2 * len else if last_frag s then 1 else 2 * len + 1)"

lemma getbytes_loop_ok:
  assumes "rec_in_ok pending s" "getbytes_rounds len s \<le> fuel"
  shows "case getbytes_loop fuel len acc s of (ok, bs, t) \<Rightarrow>
    ok = (len \<le> length (rec_input pending s)) \<and> r_stuck t = r_stuck s \<and>
    (ok \<longrightarrow> bs = acc @ take len (rec_input pending s) \<and> rec_at pending (rec_end pending s) (length (rec_raw pending s)) t \<and>
      rec_input pending t = drop len (rec_input pending s))"
  using assms
proof (induction fuel arbitrary: len acc s)
  case 0
  then have "len = 0" by (auto simp: getbytes_rounds_def split: if_splits)
  then show ?case using 0 by (simp add: rec_at_def)
next
  case (Suc fuel)
  have f: "0 \<le> fbtbc s" "fbtbc s < 2 ^ 31" using Suc.prems(1) by (simp_all add: rec_in_ok_def)
  then have cur: "to_uint (fbtbc s) = nat (fbtbc s)" by simp
  consider "len = 0" | "0 < len" "fbtbc s = 0" "last_frag s" | "0 < len" "fbtbc s = 0" "\<not> last_frag s"
    | "0 < len" "0 < fbtbc s" using f(1) by fastforce
  then show ?case
  proof cases
    case 1
    then show ?thesis using Suc.prems by (simp add: rec_at_def)
  next
    case 2
    then show ?thesis by (simp add: cur rec_input_def)
  next
    case 3
    obtain ok t where e: "set_input_fragment s = (ok, t)" by fastforce
    note set = set_input_fragment_ok [OF Suc.prems(1), unfolded e, simplified]
    note inp = rec_input_next [OF 3(2,3) e Suc.prems(1)]
    show ?thesis
    proof (cases ok)
      case False
      then show ?thesis using 3 e set inp by (simp add: cur)
    next
      case True
      then have t: "rec_in_ok pending t" "rec_input pending t = rec_input pending s" "r_stuck t = r_stuck s"
        "rec_end pending t = rec_end pending s" "length (rec_raw pending t) \<le> length (rec_raw pending s)"
        using set inp by auto
      have "0 < fbtbc t \<or> last_frag t" using set True header_zero by (auto simp: int_eq_iff)
      then have "getbytes_rounds len t \<le> fuel" using Suc.prems(2) 3 by (auto simp: getbytes_rounds_def)
      from Suc.IH [OF t(1) this, of acc] show ?thesis
        using 3 e True t(2-4) rec_at_mono [OF _ t(5)] by (auto simp: cur split: prod.splits)
    qed
  next
    case 4
    define n where "n = min len (nat (fbtbc s))"
    have n: "0 < n" "n \<le> len" "n \<le> nat (fbtbc s)" using 4 by (auto simp: n_def)
    obtain ok bs t where e: "get_input_bytes (int n) s = (ok, bs, t)" by (cases "get_input_bytes (int n) s")
    have g: "ok = (n \<le> length (rec_raw pending s))" "r_stuck t = r_stuck s"
      "ok \<Longrightarrow> bs = take n (rec_raw pending s) \<and> rec_in_ok pending t \<and> rec_raw pending t = drop n (rec_raw pending s) \<and>
        fbtbc t = fbtbc s \<and> last_frag t = last_frag s"
      using get_input_bytes_ok [OF Suc.prems(1), of n] e by simp_all
    have m: "(if len < nat (fbtbc s) then len else nat (fbtbc s)) = n" by (simp add: n_def)
    have i: "to_int (int n) = int n" using n(3) f(2) by (subst to_int_id) auto
    have step: "getbytes_loop (Suc fuel) len acc s = (if \<not> ok then (False, acc @ bs, t)
        else getbytes_loop fuel (len - n) (acc @ bs) (t\<lparr>fbtbc := fbtbc t - int n\<rparr>))"
      using 4 e by (simp add: cur m i Let_def)
    show ?thesis
    proof (cases ok)
      case False
      then have "length (rec_raw pending s) < nat (fbtbc s)" using g(1) n by simp
      from rec_input_truncated [OF this] show ?thesis using step False g(1,2) n(2) by simp
    next
      case True
      let ?t = "t\<lparr>fbtbc := fbtbc t - int n\<rparr>"
      have t: "rec_in_ok pending ?t" "rec_raw pending ?t = drop n (rec_raw pending s)"
        using g(3) True n f by (auto simp: rec_in_ok_def rec_raw_def)
      have adv: "rec_input pending ?t = drop n (rec_input pending s)" "take n (rec_input pending s) = bs"
        "rec_end pending ?t = rec_end pending s"
        using rec_input_advance [of n s pending ?t] n g(1,3) t(2) True by auto
      have len: "n \<le> length (rec_input pending s)" using g(1) True n by (simp add: rec_input_def)
      have "getbytes_rounds (len - n) ?t \<le> fuel"
        using Suc.prems(2) 4 n by (auto simp: getbytes_rounds_def split: if_splits)
      from Suc.IH [OF t(1) this, of "acc @ bs"] have
        "case getbytes_loop fuel (len - n) (acc @ bs) ?t of (ok, b, u) \<Rightarrow>
          ok = (len \<le> length (rec_input pending s)) \<and> r_stuck u = r_stuck s \<and>
          (ok \<longrightarrow> b = acc @ take n (rec_input pending s) @ take (len - n) (drop n (rec_input pending s)) \<and>
            rec_at pending (rec_end pending s) (length (rec_raw pending s)) u \<and> rec_input pending u = drop len (rec_input pending s))"
        using adv g(2) n(2) len rec_at_mono [of pending _ "length (rec_raw pending ?t)"] by (auto simp: t(2))
      moreover have "take n (rec_input pending s) @ take (len - n) (drop n (rec_input pending s)) = take len (rec_input pending s)"
        using n by (metis le_add_diff_inverse take_add)
      ultimately show ?thesis using step True by (auto split: prod.splits)
    qed
  qed
qed

lemma xdrrec_getbytes_ok:
  assumes "rec_in_ok pending s"
  shows "case xdrrec_getbytes len s of (ok, bs, t) \<Rightarrow>
    ok = (unat len \<le> length (rec_input pending s)) \<and> r_stuck t = r_stuck s \<and>
    (ok \<longrightarrow> bs = take (unat len) (rec_input pending s) \<and> rec_at pending (rec_end pending s) (length (rec_raw pending s)) t \<and>
      rec_input pending t = drop (unat len) (rec_input pending s))"
  using getbytes_loop_ok [OF assms, of "unat len" "2 * unat len + 1" "[]"]
  by (simp add: xdrrec_getbytes_def getbytes_rounds_def)

lemma rec_word_ok:
  assumes "rec_in_ok pending s"
  shows "case rec_word s of (w, t) \<Rightarrow>
    if 4 \<le> length (rec_input pending s)
    then w = Some (be_word (take 4 (rec_input pending s))) \<and> rec_at pending (rec_end pending s) (length (rec_raw pending s)) t \<and>
      rec_input pending t = drop 4 (rec_input pending s)
    else w = None"
proof (cases "fbtbc s \<ge> 4 \<and> int (in_boundry s) - int (in_finger s) \<ge> 4")
  case cond: True
  then have True: "4 \<le> fbtbc s \<and> 4 \<le> in_boundry s - in_finger s" by auto
  let ?t = "s\<lparr>fbtbc := fbtbc s - 4, in_finger := in_finger s + 4\<rparr>"
  note adv = rec_raw_advance [OF assms, of 4]
  have raw: "rec_raw pending ?t = drop 4 (rec_raw pending s)" "rec_in_ok pending ?t"
    using adv(1,2) True assms by (auto simp: rec_raw_def rec_in_ok_def)
  have long: "4 \<le> length (rec_raw pending s)" using True assms by (auto simp: rec_raw_def rec_in_ok_def)
  then have inp: "rec_input pending ?t = drop 4 (rec_input pending s)"
    "take 4 (rec_input pending s) = take 4 (rec_raw pending s)"
    "rec_end pending ?t = rec_end pending s"
    using rec_input_advance [of 4 s pending ?t] raw(1) True by auto
  have "take 4 (drop (in_finger s) (r_mem s)) = take 4 (rec_input pending s)"
    using adv(3) True inp(2) by simp
  moreover have "4 \<le> length (rec_input pending s)" using inp(2) long by (metis length_take min.absorb_iff2 min.cobounded2)
  ultimately show ?thesis using cond raw inp(1,3) by (simp add: rec_word_def rec_at_def htonl_def word_images)
next
  case False
  obtain ok bs t where e: "xdrrec_getbytes 4 s = (ok, bs, t)" by (cases "xdrrec_getbytes 4 s")
  with xdrrec_getbytes_ok [OF assms, of 4] have g: "ok = (4 \<le> length (rec_input pending s))"
    "ok \<Longrightarrow> bs = take 4 (rec_input pending s) \<and> rec_at pending (rec_end pending s) (length (rec_raw pending s)) t \<and> rec_input pending t = drop 4 (rec_input pending s)"
    by simp_all
  have "rec_word s = (if \<not> ok then (None, t) else (Some (htonl (le_word bs)), t))"
    using False e by (auto simp: rec_word_def)
  then show ?thesis using g by (auto simp: htonl_def word_images)
qed

interpretation rec_dec: xdr_decoder "xdrrec_ops lseek" "rec_at pending after n" "rec_input pending" for lseek pending after n
proof unfold_locales
  fix s :: "'a rec_strm" and k :: u32 assume s: "rec_at pending after n s"
  then have ok: "rec_in_ok pending s" and after: "after = rec_end pending s"
    and n: "length (rec_raw pending s) \<le> n" by (auto simp: rec_at_def)
  note w = rec_word_ok [OF ok]
  show "if 4 \<le> length (rec_input pending s)
      then \<exists>t. x_getlong (xdrrec_ops lseek) s = (Some (scast (be_word (take 4 (rec_input pending s)) :: u32)), t) \<and>
        rec_at pending after n t \<and> rec_input pending t = drop 4 (rec_input pending s)
      else fst (x_getlong (xdrrec_ops lseek) s) = None"
    using w rec_at_mono [OF _ n] by (auto simp: after xdrrec_ops_def xdrrec_getlong_def split: prod.splits)
  show "if 4 \<le> length (rec_input pending s)
      then \<exists>t. x_getint32 (xdrrec_ops lseek) s = (Some (be_word (take 4 (rec_input pending s))), t) \<and>
        rec_at pending after n t \<and> rec_input pending t = drop 4 (rec_input pending s)
      else fst (x_getint32 (xdrrec_ops lseek) s) = None"
    using w rec_at_mono [OF _ n] by (auto simp: after xdrrec_ops_def xdrrec_getint32_def split: prod.splits)
  show "if unat k \<le> length (rec_input pending s)
      then \<exists>t. x_getbytes (xdrrec_ops lseek) k s = (True, take (unat k) (rec_input pending s), t) \<and>
        rec_at pending after n t \<and> rec_input pending t = drop (unat k) (rec_input pending s)
      else \<not> fst (x_getbytes (xdrrec_ops lseek) k s)"
    using xdrrec_getbytes_ok [OF ok, of k] rec_at_mono [OF _ n] by (auto simp: after xdrrec_ops_def split: prod.splits)
qed

section \<open>Going to the next record\<close>

lemma skip_input_bytes_ok:
  assumes "rec_in_ok pending s"
  shows "case skip_input_bytes cnt s of (ok, t) \<Rightarrow>
    ok = (nat cnt \<le> length (rec_raw pending s)) \<and> r_stuck t = r_stuck s \<and>
    (ok \<longrightarrow> rec_in_ok pending t \<and> rec_raw pending t = drop (nat cnt) (rec_raw pending s) \<and>
      fbtbc t = fbtbc s \<and> last_frag t = last_frag s)"
proof -
  have "skip_input_bytes cnt s = (let (ok, bs, t) = get_input_bytes (int (nat cnt)) s in (ok, t))"
  proof (cases "0 \<le> cnt")
    case True
    then show ?thesis
      using skip_input_loop_eq [OF assms, of "2 * nat cnt" "nat cnt" "[]"] by (simp add: skip_input_bytes_def get_input_bytes_def)
  qed (simp add: skip_input_bytes_def get_input_bytes_def)
  then show ?thesis using get_input_bytes_ok [OF assms, of "nat cnt"] by (auto split: prod.splits)
qed

definition skip_rounds :: "('n \<Rightarrow> byte list) \<Rightarrow> 'n rec_strm \<Rightarrow> nat" where
  "skip_rounds pending s = (if last_frag s then (if fbtbc s > 0 then 2 else 1) else length (rec_raw pending s) + 3)"

lemma xdrrec_skiprecord_ok:
  assumes "rec_in_ok pending s" "skip_rounds pending s \<le> fuel"
  shows "\<exists>ok t. xdrrec_skiprecord fuel s = Some (ok, t) \<and> ok = (rec_end pending s \<noteq> None) \<and> r_stuck t = r_stuck s \<and>
    (ok \<longrightarrow> rec_in_ok pending t \<and> Some (rec_raw pending t) = rec_end pending s \<and> fbtbc t = 0 \<and> \<not> last_frag t)"
  using assms
proof (induction fuel arbitrary: s)
  case 0
  then show ?case by (simp add: skip_rounds_def split: if_splits)
next
  case (Suc fuel)
  show ?case
  proof (cases "fbtbc s > 0 \<or> \<not> last_frag s")
    case False
    then have "fbtbc s = 0" "last_frag s" using Suc.prems(1) by (auto simp: rec_in_ok_def)
    then show ?thesis using Suc.prems(1) by (auto simp: rec_end_def rec_in_ok_def rec_raw_def)
  next
    case True
    obtain ok t where e: "skip_input_bytes (fbtbc s) s = (ok, t)" by fastforce
    note skip = skip_input_bytes_ok [OF Suc.prems(1), of "fbtbc s", unfolded e, simplified]
    show ?thesis
    proof (cases ok)
      case False
      then show ?thesis using True e skip by (auto simp: rec_end_def Let_def)
    next
      case ok: True
      let ?t = "t\<lparr>fbtbc := 0\<rparr>"
      have t: "rec_in_ok pending ?t" "rec_raw pending ?t = drop (nat (fbtbc s)) (rec_raw pending s)"
        "rec_end pending ?t = rec_end pending s" "r_stuck ?t = r_stuck s" "last_frag ?t = last_frag s"
        using skip ok by (auto simp: rec_in_ok_def rec_raw_def rec_end_def Let_def)
      show ?thesis
      proof (cases "last_frag s")
        case True
        then have "skip_rounds pending ?t \<le> fuel" using Suc.prems(2) \<open>fbtbc s > 0 \<or> \<not> last_frag s\<close> t(5)
          by (simp add: skip_rounds_def)
        from Suc.IH [OF t(1) this] show ?thesis
          using \<open>fbtbc s > 0 \<or> \<not> last_frag s\<close> e ok True t by (simp add: Let_def)
      next
        case False
        obtain ok2 u where e2: "set_input_fragment ?t = (ok2, u)" by fastforce
        note frag = set_input_fragment_ok [OF t(1), unfolded e2 t(2), simplified]
        have "fbtbc ?t = 0" "\<not> last_frag ?t" using False t(5) by simp_all
        note nx = rec_input_next(2) [OF this e2 t(1), unfolded t(3)]
        have eq: "xdrrec_skiprecord (Suc fuel) s = (if \<not> ok2 then Some (False, u) else xdrrec_skiprecord fuel u)"
          using False e ok e2 t(5) by (simp add: Let_def)
        show ?thesis
        proof (cases ok2)
          case False
          then show ?thesis unfolding eq using nx frag t(4) by auto
        next
          case True
          then have "skip_rounds pending u \<le> fuel"
            using Suc.prems(2) \<open>\<not> last_frag s\<close> frag by (auto simp: skip_rounds_def)
          from Suc.IH [OF _ this] show ?thesis unfolding eq using True nx frag t(4) by simp
        qed
      qed
    qed
  qed
qed

end
