(* ===== verification/Xdr_Rec_Out.thy ===== *)
theory Xdr_Rec_Out
  imports Xdr_Rec_In
begin

text \<open>
  The output side of the record stream: what the operations have put since the last record was ended,
  together with the records before it, is on the wire and in the buffer as complete fragments and one that
  is still open.

  \<open>writer_ok writer sent\<close> is the contract of \<open>writeit\<close>: \<open>sent\<close> is what the connection has taken so far; a call with a count
  that an \<open>int\<close> can hold takes all bytes it is given and returns their number.
\<close>

definition writer_ok :: "('n \<Rightarrow> byte list \<Rightarrow> int \<Rightarrow> int \<times> 'n) \<Rightarrow> ('n \<Rightarrow> byte list) \<Rightarrow> bool" where
  "writer_ok writer sent =
     (\<forall>h bs. length bs < 2 ^ 31 \<longrightarrow> (case writer h bs (int (length bs)) of (n, h') \<Rightarrow> n = int (length bs) \<and> sent h' = sent h @ bs))"

definition frag_bytes :: "bool \<Rightarrow> byte list \<Rightarrow> byte list" where
  "frag_bytes eor d = enc_u32 (of_nat (length d) OR (if eor then ucast LAST_FRAG else 0)) @ d"

text \<open>
  \<open>framed recs p w\<close>: the bytes \<open>w\<close> are complete fragments that hold the finished records \<open>recs\<close> and the
  beginning \<open>p\<close> of another one.
\<close>

inductive framed :: "byte list list \<Rightarrow> byte list \<Rightarrow> byte list \<Rightarrow> bool" where
  framed_start: "framed [] [] []"
| framed_part: "framed recs p w \<Longrightarrow> d \<noteq> [] \<Longrightarrow> length d < 2 ^ 31 \<Longrightarrow> framed recs (p @ d) (w @ frag_bytes False d)"
| framed_last: "framed recs p w \<Longrightarrow> length d < 2 ^ 31 \<Longrightarrow> framed (recs @ [p @ d]) [] (w @ frag_bytes True d)"

definition rec_cur :: "'n rec_strm \<Rightarrow> byte list" where
  "rec_cur s = take (out_finger s - (frag_header s + 4)) (drop (frag_header s + 4) (r_mem s))"

definition rec_wire :: "('n \<Rightarrow> byte list) \<Rightarrow> 'n rec_strm \<Rightarrow> byte list" where
  "rec_wire sent s = sent (tcp_handle s) @ take (frag_header s - out_base s) (drop (out_base s) (r_mem s))"

definition rec_out_ok :: "('n \<Rightarrow> byte list) \<Rightarrow> 'n rec_strm \<Rightarrow> bool" where
  "rec_out_ok sent s =
     (writer_ok (writeit s) sent \<and> out_base s \<le> frag_header s \<and> frag_header s + 4 \<le> out_finger s \<and>
      out_finger s \<le> out_boundry s \<and> out_base s + 8 \<le> out_boundry s \<and> out_boundry s - out_base s < 2 ^ 31 \<and>
      out_boundry s \<le> length (r_mem s) \<and>
      (out_finger s = frag_header s + 4 \<longrightarrow> out_finger s + 4 \<le> out_boundry s))"

lemma take_drop_append: "a \<le> b \<Longrightarrow> b \<le> c \<Longrightarrow> take (b - a) (drop a m) @ take (c - b) (drop b m) = take (c - a) (drop a m)"
proof -
  assume "a \<le> b" "b \<le> c"
  then have "b = a + (b - a)" "c - a = (b - a) + (c - b)" by simp_all
  then show ?thesis by (metis add.commute drop_drop take_add)
qed

lemma frag_header_word:
  assumes "n < 2 ^ 31"
  shows "ucast ((of_nat n :: u64) OR (if eor then LAST_FRAG else 0)) = (of_nat n OR (if eor then ucast LAST_FRAG else 0) :: u32)"
  by (rule bit_word_eqI) (auto simp: bit_simps bit_LAST_FRAG)

text \<open>Writing the header of the current fragment completes it.\<close>

lemma rec_patch_header:
  fixes eor :: bool
  assumes s: "rec_out_ok sent s"
  defines "m \<equiv> store_at (r_mem s) (frag_header s) (word_le 4 (htonl (ucast
      ((of_int (int (out_finger s) - int (frag_header s) - 4) :: u64) OR (if eor then LAST_FRAG else 0)))))"
  shows "length m = length (r_mem s)" "take (out_finger s - out_base s) (drop (out_base s) m) =
      take (frag_header s - out_base s) (drop (out_base s) (r_mem s)) @ frag_bytes eor (rec_cur s)"
proof -
  let ?hd = "word_le 4 (htonl (ucast ((of_int (int (out_finger s) - int (frag_header s) - 4) :: u64) OR (if eor then LAST_FRAG else 0))))"
  have "int (out_finger s) - int (frag_header s) - 4 = int (out_finger s - frag_header s - 4)"
    using s by (auto simp: rec_out_ok_def of_nat_diff)
  then have word: "(of_int (int (out_finger s) - int (frag_header s) - 4) :: u64) = of_nat (out_finger s - frag_header s - 4)"
    by (simp only: of_int_of_nat_eq)
  have len: "length (rec_cur s) = out_finger s - frag_header s - 4" using s by (auto simp: rec_cur_def rec_out_ok_def)
  have small: "out_finger s - frag_header s - 4 < 2 ^ 31" using s by (auto simp: rec_out_ok_def)
  have hd: "?hd = enc_u32 (of_nat (length (rec_cur s)) OR (if eor then ucast LAST_FRAG else 0))"
    unfolding len word frag_header_word [OF small] by (simp add: htonl_def word_images enc_u32_def)
  show "length m = length (r_mem s)" using s by (auto simp: m_def rec_out_ok_def)
  have f: "out_base s \<le> frag_header s" "frag_header s + 4 \<le> out_finger s" "out_finger s \<le> length (r_mem s)"
    using s by (auto simp: rec_out_ok_def)
  have pre: "take (frag_header s - out_base s) (drop (out_base s) m) = take (frag_header s - out_base s) (drop (out_base s) (r_mem s))"
    and mid: "take (frag_header s + 4 - frag_header s) (drop (frag_header s) m) = ?hd"
    and post: "drop (frag_header s + 4) m = drop (frag_header s + 4) (r_mem s)"
    using f by (simp_all add: m_def store_at_def drop_take)
  have "take (frag_header s - out_base s) (drop (out_base s) m) @
      take (frag_header s + 4 - frag_header s) (drop (frag_header s) m) @
      take (out_finger s - (frag_header s + 4)) (drop (frag_header s + 4) m) =
      take (out_finger s - out_base s) (drop (out_base s) m)"
    using f take_drop_append [of "frag_header s" "frag_header s + 4" "out_finger s" m]
      take_drop_append [of "out_base s" "frag_header s" "out_finger s" m] by simp
  then show "take (out_finger s - out_base s) (drop (out_base s) m) =
      take (frag_header s - out_base s) (drop (out_base s) (r_mem s)) @ frag_bytes eor (rec_cur s)"
    unfolding pre mid post hd by (simp add: frag_bytes_def rec_cur_def)
qed

lemma flush_out_ok:
  assumes s: "rec_out_ok sent s"
  shows "\<exists>t. flush_out s eor = (True, t) \<and> rec_out_ok sent t \<and> rec_wire sent t = rec_wire sent s @ frag_bytes eor (rec_cur s) \<and>
    rec_cur t = [] \<and> out_finger t + 4 \<le> out_boundry t \<and> frag_header t = out_base t"
proof -
  define m where "m = store_at (r_mem s) (frag_header s) (word_le 4 (htonl (ucast
      ((of_int (int (out_finger s) - int (frag_header s) - 4) :: u64) OR (if eor then LAST_FRAG else 0)))))"
  note m = rec_patch_header [OF s, of eor, folded m_def]
  let ?bytes = "take (out_finger s - out_base s) (drop (out_base s) m)"
  have len: "length ?bytes = out_finger s - out_base s" "length ?bytes < 2 ^ 31" using s m(1) by (auto simp: rec_out_ok_def)
  have i: "to_int (int (out_finger s) - int (out_base s)) = int (length ?bytes)"
    using s len by (subst to_int_id) (auto simp: rec_out_ok_def of_nat_diff)
  obtain n h where w: "writeit s (tcp_handle s) ?bytes (int (length ?bytes)) = (n, h)" by fastforce
  have "writer_ok (writeit s) sent" using s by (simp add: rec_out_ok_def)
  then have n: "n = int (length ?bytes)" "sent h = sent (tcp_handle s) @ ?bytes"
    using w len(2) unfolding writer_ok_def by (auto dest!: spec [of _ "tcp_handle s"] spec [of _ ?bytes])
  have "flush_out s eor = (True, s\<lparr>r_mem := m, tcp_handle := h, frag_header := out_base s, out_finger := out_base s + 4\<rparr>)"
    using w n(1) len(1) unfolding flush_out_def Let_def m_def [symmetric] by (simp add: i del: length_take length_drop)
  then show ?thesis
    using s m(1) n(2) m(2) by (auto simp: rec_out_ok_def rec_wire_def rec_cur_def)
qed

definition rec_out :: "('n \<Rightarrow> byte list) \<Rightarrow> 'n rec_strm \<Rightarrow> byte list list \<Rightarrow> byte list \<Rightarrow> bool" where
  "rec_out sent s recs p = (\<exists>q. framed recs q (rec_wire sent s) \<and> p = q @ rec_cur s)"

definition rec_emits :: "('n \<Rightarrow> byte list) \<Rightarrow> 'n rec_strm \<Rightarrow> byte list \<Rightarrow> 'n rec_strm \<Rightarrow> bool" where
  "rec_emits sent s bs t =
     (rec_out_ok sent t \<and> (\<forall>recs p. rec_out sent s recs p \<longrightarrow> rec_out sent t recs (p @ bs)))"

lemma rec_emits_trans: "rec_emits sent s a t \<Longrightarrow> rec_emits sent t b u \<Longrightarrow> rec_emits sent s (a @ b) u"
  by (simp add: rec_emits_def) (metis append_assoc)

lemma rec_emits_refl: "rec_out_ok sent s \<Longrightarrow> rec_emits sent s [] s"
  by (simp add: rec_emits_def)

lemma rec_cur_less: "rec_out_ok sent s \<Longrightarrow> length (rec_cur s) < 2 ^ 31"
  by (auto simp: rec_out_ok_def rec_cur_def)

lemma rec_emits_store:
  assumes "rec_out_ok sent s" "out_finger s + length bs \<le> out_boundry s"
  shows "rec_emits sent s bs (s\<lparr>r_mem := store_at (r_mem s) (out_finger s) bs, out_finger := out_finger s + length bs\<rparr>)"
proof -
  let ?t = "s\<lparr>r_mem := store_at (r_mem s) (out_finger s) bs, out_finger := out_finger s + length bs\<rparr>"
  have f: "out_base s \<le> frag_header s" "frag_header s + 4 \<le> out_finger s" "out_finger s + length bs \<le> length (r_mem s)"
    using assms by (auto simp: rec_out_ok_def)
  have "rec_wire sent ?t = rec_wire sent s" using f by (simp add: rec_wire_def store_at_def drop_take min_def)
  moreover have "rec_cur ?t = rec_cur s @ bs" using f by (simp add: rec_cur_def store_at_def drop_take)
  moreover have "rec_out_ok sent ?t" using assms f by (auto simp: rec_out_ok_def)
  ultimately show ?thesis by (auto simp: rec_emits_def rec_out_def)
qed

lemma rec_emits_flush:
  assumes "rec_out_ok sent s" "rec_cur s \<noteq> []"
  shows "\<exists>t. flush_out s False = (True, t) \<and> rec_emits sent s [] t \<and> out_finger t + 4 \<le> out_boundry t"
proof -
  obtain t where t: "flush_out s False = (True, t)" "rec_out_ok sent t"
    "rec_wire sent t = rec_wire sent s @ frag_bytes False (rec_cur s)" "rec_cur t = []" "out_finger t + 4 \<le> out_boundry t"
    using flush_out_ok [OF assms(1)] by blast
  have "rec_out sent t recs p" if "rec_out sent s recs p" for recs p
    using that framed_part [OF _ assms(2) rec_cur_less [OF assms(1)]] t(3,4) by (auto simp: rec_out_def)
  then show ?thesis using t(1,2,5) by (auto simp: rec_emits_def)
qed

text \<open>Setting \<open>frag_sent\<close> changes nothing that the output depends on.\<close>

lemma rec_emits_frag_sent: "rec_emits sent (s\<lparr>frag_sent := b\<rparr>) bs t \<longleftrightarrow> rec_emits sent s bs t"
  and rec_out_ok_frag_sent: "rec_out_ok sent (s\<lparr>frag_sent := b\<rparr>) \<longleftrightarrow> rec_out_ok sent s"
  and rec_cur_frag_sent: "rec_cur (s\<lparr>frag_sent := b\<rparr>) = rec_cur s"
  by (simp_all add: rec_emits_def rec_out_ok_def rec_out_def rec_cur_def rec_wire_def)

lemma rec_strm_swap: "s\<lparr>out_finger := a, r_mem := m\<rparr> = s\<lparr>r_mem := m, out_finger := a\<rparr>"
  by (cases s) simp

lemma rec_emits_word:
  assumes "rec_out_ok sent s"
  shows "\<exists>t. xdrrec_putint32 i s = (True, t) \<and> rec_emits sent s (enc_u32 i) t"
proof (cases "out_finger s + 4 > out_boundry s")
  case True
  then have "rec_cur s \<noteq> []" using assms by (auto simp: rec_out_ok_def rec_cur_def)
  then obtain t where t: "flush_out (s\<lparr>frag_sent := True\<rparr>) False = (True, t)" "rec_emits sent s [] t" "out_finger t + 4 \<le> out_boundry t"
    using rec_emits_flush [of sent "s\<lparr>frag_sent := True\<rparr>"] assms
    by (auto simp: rec_emits_frag_sent rec_out_ok_frag_sent rec_cur_frag_sent)
  moreover have "rec_out_ok sent t" using t(2) by (simp add: rec_emits_def)
  from rec_emits_store [OF this, of "enc_u32 i"] t(3) rec_emits_trans [OF t(2)] show ?thesis
    using True t(1) by (auto simp: xdrrec_putint32_def htonl_def word_images enc_u32_def rec_strm_swap Let_def)
next
  case False
  then show ?thesis
    using rec_emits_store [OF assms, of "enc_u32 i"]
    by (auto simp: xdrrec_putint32_def htonl_def word_images enc_u32_def rec_strm_swap Let_def)
qed

lemma flush_out_stuck: "r_stuck (snd (flush_out s eor)) = r_stuck s"
  by (simp add: flush_out_def Let_def split: prod.splits)

lemma putbytes_loop_ok:
  assumes "rec_out_ok sent s" "(if addr = [] then 0 else 2 * length addr + (if out_finger s < out_boundry s then 0 else 1)) \<le> fuel"
  shows "\<exists>t. putbytes_loop fuel addr s = (True, t) \<and> rec_emits sent s addr t \<and> r_stuck t = r_stuck s"
  using assms
proof (induction fuel arbitrary: addr s)
  case 0
  then have "addr = []" by (simp split: if_splits)
  then show ?case using 0 by (simp add: rec_emits_refl)
next
  case (Suc fuel)
  show ?case
  proof (cases "addr = []")
    case True
    then show ?thesis using Suc.prems by (simp add: rec_emits_refl)
  next
    case False
    define n where "n = min (length addr) (out_boundry s - out_finger s)"
    define t where "t = s\<lparr>r_mem := store_at (r_mem s) (out_finger s) (take n addr), out_finger := out_finger s + n\<rparr>"
    have le: "out_finger s \<le> out_boundry s" using Suc.prems(1) by (simp add: rec_out_ok_def)
    have n: "n \<le> length addr" "n \<le> out_boundry s - out_finger s" "n = length addr \<or> n = out_boundry s - out_finger s"
      by (auto simp: n_def)
    have "rec_emits sent s (take n addr) t"
      using rec_emits_store [OF Suc.prems(1), of "take n addr"] le n(1,2) by (simp add: t_def)
    then have t: "rec_emits sent s (take n addr) t" "rec_out_ok sent t" by (simp_all add: rec_emits_def)
    have more: "rec_emits sent s addr u" if "rec_emits sent t (drop n addr) u" for u
      using rec_emits_trans [OF t(1) that] by simp
    have "int (out_boundry s) - int (out_finger s) < 2 ^ 32" using Suc.prems(1) by (auto simp: rec_out_ok_def)
    then have "to_uint (int (out_boundry s) - int (out_finger s)) = out_boundry s - out_finger s"
      using le by (subst to_uint_id) auto
    then have cur: "(if length addr < to_uint (int (out_boundry s) - int (out_finger s)) then length addr
        else to_uint (int (out_boundry s) - int (out_finger s))) = n"
      by (simp add: n_def)
    show ?thesis
    proof (cases "out_finger t = out_boundry t \<and> drop n addr \<noteq> []")
      case True
      then have "rec_cur t \<noteq> []" using t(2) by (auto simp: rec_out_ok_def rec_cur_def)
      then obtain u where u: "flush_out (t\<lparr>frag_sent := True\<rparr>) False = (True, u)" "rec_emits sent t [] u" "out_finger u + 4 \<le> out_boundry u"
        using rec_emits_flush [of sent "t\<lparr>frag_sent := True\<rparr>"] t(2)
        by (auto simp: rec_emits_frag_sent rec_out_ok_frag_sent rec_cur_frag_sent)
      have "rec_out_ok sent u" using u(2) by (simp add: rec_emits_def)
      moreover have "r_stuck u = r_stuck s" using flush_out_stuck [of "t\<lparr>frag_sent := True\<rparr>" False] u(1) by (simp add: t_def)
      moreover have "(if drop n addr = [] then 0 else 2 * length (drop n addr) + (if out_finger u < out_boundry u then 0 else 1)) \<le> fuel"
        using Suc.prems(2) False u(3) n True by (auto simp: t_def split: if_splits)
      ultimately obtain v where "putbytes_loop fuel (drop n addr) u = (True, v)" "rec_emits sent u (drop n addr) v" "r_stuck v = r_stuck s"
        using Suc.IH by fastforce
      then show ?thesis
        using False True u(1) more rec_emits_trans [OF u(2)] by (auto simp: cur t_def Let_def)
    next
      case F: False
      have "(if drop n addr = [] then 0 else 2 * length (drop n addr) + (if out_finger t < out_boundry t then 0 else 1)) \<le> fuel"
        using Suc.prems(2) False F le n by (auto simp: t_def split: if_splits)
      then obtain v where "putbytes_loop fuel (drop n addr) t = (True, v)" "rec_emits sent t (drop n addr) v" "r_stuck v = r_stuck s"
        using Suc.IH [OF t(2)] by (fastforce simp: t_def)
      then show ?thesis using False F more by (auto simp: cur t_def Let_def)
    qed
  qed
qed

lemma xdrrec_putlong_eq: "xdrrec_putlong l s = xdrrec_putint32 (ucast l) s"
  by (simp add: xdrrec_putlong_def xdrrec_putint32_def)

interpretation rec_enc: xdr_encoder "xdrrec_ops lseek" "rec_out_ok sent" "\<lambda>_ _. True" "rec_emits sent" for lseek sent
proof unfold_locales
  fix s t u :: "'a rec_strm" and a b bs :: "byte list" and l :: u64 and i k :: u32
  show "rec_out_ok sent s \<Longrightarrow> rec_emits sent s [] s" by (rule rec_emits_refl)
  show "rec_emits sent s a t \<Longrightarrow> rec_emits sent t b u \<Longrightarrow> rec_emits sent s (a @ b) u" by (rule rec_emits_trans)
  show "rec_emits sent s bs t \<Longrightarrow> rec_out_ok sent t" by (simp add: rec_emits_def)
  assume s: "rec_out_ok sent s"
  show "if True then \<exists>t. x_putlong (xdrrec_ops lseek) l s = (True, t) \<and> rec_emits sent s (enc_u32 (ucast l)) t
      else \<not> fst (x_putlong (xdrrec_ops lseek) l s)"
    and "if True then \<exists>t. x_putint32 (xdrrec_ops lseek) i s = (True, t) \<and> rec_emits sent s (enc_u32 i) t
      else \<not> fst (x_putint32 (xdrrec_ops lseek) i s)"
    using rec_emits_word [OF s] by (simp_all add: xdrrec_ops_def xdrrec_putlong_eq)
  show "if True then \<exists>t. x_putbytes (xdrrec_ops lseek) bs k s = (True, t) \<and> rec_emits sent s (take (unat k) bs) t
      else \<not> fst (x_putbytes (xdrrec_ops lseek) bs k s)" if "unat k \<le> length bs"
  proof -
    have "\<exists>t. putbytes_loop (2 * unat k + 1) (take (unat k) bs) s = (True, t) \<and> rec_emits sent s (take (unat k) bs) t \<and> r_stuck t = r_stuck s"
      by (rule putbytes_loop_ok [OF s]) (use that in simp)
    then show ?thesis by (auto simp: xdrrec_ops_def xdrrec_putbytes_def simp del: putbytes_loop.simps)
  qed
qed simp_all

section \<open>Records\<close>

lemma xdrrec_endofrecord_ok:
  assumes "rec_out_ok sent s" "rec_out sent s recs p" "sendnow \<or> 4 dvd out_boundry s - out_finger s"
  shows "\<exists>t. xdrrec_endofrecord sendnow s = (True, t) \<and> rec_out_ok sent t \<and> rec_out sent t (recs @ [p]) [] \<and>
    (sendnow \<longrightarrow> framed (recs @ [p]) [] (sent (tcp_handle t)))"
proof -
  obtain q where q: "framed recs q (rec_wire sent s)" "p = q @ rec_cur s" using assms(2) by (auto simp: rec_out_def)
  then have fr: "framed (recs @ [p]) [] (rec_wire sent s @ frag_bytes True (rec_cur s))"
    using framed_last [OF q(1) rec_cur_less [OF assms(1)]] by simp
  let ?s = "s\<lparr>frag_sent := False\<rparr>"
  show ?thesis
  proof (cases "sendnow \<or> frag_sent s \<or> out_finger s + 4 \<ge> out_boundry s")
    case True
    obtain t where t: "flush_out ?s True = (True, t)" "rec_out_ok sent t"
      "rec_wire sent t = rec_wire sent ?s @ frag_bytes True (rec_cur ?s)" "rec_cur t = []" "frag_header t = out_base t"
      using flush_out_ok [of sent ?s True] assms(1) by (auto simp: rec_out_ok_frag_sent)
    have w: "rec_wire sent ?s = rec_wire sent s" by (simp add: rec_wire_def)
    have "sent (tcp_handle t) = rec_wire sent t" using t(5) by (simp add: rec_wire_def)
    then show ?thesis
      using True t fr by (auto simp: xdrrec_endofrecord_def rec_out_def w rec_cur_frag_sent)
  next
    case False
    define m where "m = store_at (r_mem s) (frag_header s) (word_le 4 (htonl (ucast
      ((of_int (int (out_finger s) - int (frag_header s) - 4) :: u64) OR LAST_FRAG))))"
    note m = rec_patch_header [OF assms(1), of True, unfolded if_True, folded m_def]
    let ?t = "s\<lparr>r_mem := m, frag_header := out_finger s, out_finger := out_finger s + 4\<rparr>"
    obtain k where "out_boundry s - out_finger s = 4 * k" using False assms(3) by (auto elim: dvdE)
    moreover from this have "1 < k" using False by linarith
    ultimately have "out_finger s + 8 \<le> out_boundry s" by linarith
    then have "rec_out_ok sent ?t" "rec_cur ?t = []" "rec_wire sent ?t = rec_wire sent s @ frag_bytes True (rec_cur s)"
      using assms(1) m by (auto simp: rec_out_ok_def rec_cur_def rec_wire_def)
    moreover have "xdrrec_endofrecord sendnow s = (True, ?t)"
      using False by (simp add: xdrrec_endofrecord_def m_def Let_def)
    ultimately show ?thesis using fr False by (auto simp: rec_out_def)
  qed
qed
end
