(* ===== verification/Xdr_Records.thy ===== *)
theory Xdr_Records
  imports Xdr_Rec_Out
begin

text \<open>
  The two sides of the record stream together: what one end of a connection frames the other end reads, as
  bytes and as XDR objects; the positions of the stream; the end of the loops over the fragments.
\<close>

section \<open>Reading what was framed\<close>

lemma frag_fields:
  fixes eor :: bool
  assumes "length d < 2 ^ 31"
  defines "w \<equiv> of_nat (length d) OR (if eor then ucast LAST_FRAG else 0) :: u32"
  shows "header_size w = length d" "header_last w = eor" "eor \<or> d \<noteq> [] \<Longrightarrow> w \<noteq> 0"
proof -
  have top: "bit (length d) n \<Longrightarrow> n < 31" for n
    using bit_take_bit_iff [of 31 "length d" n] take_bit_nat_eq_self [OF assms(1)] by simp
  have "take_bit 31 w = of_nat (length d)"
    by (rule bit_word_eqI) (auto simp: w_def bit_simps bit_LAST_FRAG dest: top)
  then show size: "header_size w = length d"
    using assms(1) by (simp add: header_size_def unat_of_nat_small)
  show last: "header_last w = eor" by (auto simp: header_last_def w_def bit_simps bit_LAST_FRAG dest: top)
  show "w \<noteq> 0" if "eor \<or> d \<noteq> []"
    using size last that by (auto simp: header_size_def header_last_def)
qed

lemma frag_parse:
  assumes "length d < 2 ^ 31" "eor \<or> d \<noteq> []"
  shows "rec_frags (frag_bytes eor d @ x) = d @ (if eor then [] else rec_frags x)"
    "rec_skip (frag_bytes eor d @ x) = (if eor then Some x else rec_skip x)"
proof -
  define w :: u32 where "w = of_nat (length d) OR (if eor then ucast LAST_FRAG else 0)"
  note w = frag_fields [OF assms(1), of eor, folded w_def]
  have "frag_bytes eor d = word_be 4 w @ d" by (simp add: frag_bytes_def w_def enc_u32_def)
  then show "rec_frags (frag_bytes eor d @ x) = d @ (if eor then [] else rec_frags x)"
    "rec_skip (frag_bytes eor d @ x) = (if eor then Some x else rec_skip x)"
    using w assms(2) by (simp_all add: rec_frags.simps [of "_ @ _"] rec_skip.simps [of "_ @ _"] word_images)
qed

lemma framed_parse:
  assumes "framed recs p w"
  shows "case recs of
      [] \<Rightarrow> rec_frags (w @ x) = p @ rec_frags x \<and> rec_skip (w @ x) = rec_skip x
    | r # rs \<Rightarrow> rec_frags (w @ x) = r \<and> (\<exists>v. rec_skip (w @ x) = Some (v @ x) \<and> framed rs p v)"
  using assms
proof (induction arbitrary: x rule: framed.induct)
  case framed_start
  then show ?case by simp
next
  case (framed_part recs p w d)
  have "framed rs (p @ d) (v @ frag_bytes False d)" if "framed rs p v" for rs v
    using that framed_part.hyps by (auto intro: framed.intros)
  then show ?case
    using framed_part.IH [of "frag_bytes False d @ x"] framed_part.hyps
    by (cases recs rule: list.exhaust) (fastforce simp: frag_parse)+
next
  case (framed_last recs p w d)
  have "framed (rs @ [p @ d]) [] (v @ frag_bytes True d)" if "framed rs p v" for rs v
    using that framed_last.hyps by (auto intro: framed.intros)
  then show ?case
    using framed_last.IH [of "frag_bytes True d @ x"] framed_last.hyps framed_start
    by (cases recs rule: list.exhaust) (fastforce simp: frag_parse)+
qed

section \<open>A new stream\<close>

lemma unat_RNDUP:
  assumes "unat x + 3 < 2 ^ 32"
  shows "unat (RNDUP x) = (unat x + 3) div 4 * 4"
proof -
  have "RNDUP x = (x + 3) AND NOT (mask 2)"
    by (simp add: RNDUP_def BYTES_PER_XDR_UNIT_def mask_eq_exp_minus_1 add.commute)
  also have "\<dots> = push_bit 2 (drop_bit 2 (x + 3))"
  proof (rule bit_word_eqI)
    fix n :: nat
    have "2 \<le> n \<Longrightarrow> Suc (Suc (n - 2)) = n" by simp
    then show "bit ((x + 3) AND NOT (mask 2)) n = bit (push_bit 2 (drop_bit 2 (x + 3))) n" if "n < LENGTH(32)"
      using that by (auto simp: bit_simps not_less)
  qed
  finally have "RNDUP x = push_bit 2 (drop_bit 2 (x + 3))" .
  moreover have "unat (x + 3) = unat x + 3"
    using assms unat_add_lem [of x 3] by simp
  moreover have "unat (push_bit 2 (drop_bit 2 y)) = unat y div 4 * 4" for y :: u32
    using unat_lt2p [of y] div_times_less_eq_dividend [of "unat y" 4]
    by (simp add: drop_bit_eq_div push_bit_eq_mult unat_word_ariths unat_div)
  ultimately show ?thesis by simp
qed

text \<open>
  The sizes that the code can handle: a buffer whose length is not positive as an \<open>int\<close>, or two buffers whose lengths add
  up to \<open>2 ^ 32\<close> or more, are beyond it.
\<close>

definition buf_size_ok :: "u32 \<Rightarrow> bool" where
  "buf_size_ok s = (unat s \<le> 2 ^ 31 - 8)"

lemma fix_buf_size_bounds:
  assumes "buf_size_ok s"
  shows "100 \<le> unat (fix_buf_size s)" "unat (fix_buf_size s) \<le> 2 ^ 31 - 8"
proof -
  define r :: u32 where "r = (if s < 100 then 4000 else s)"
  have r: "100 \<le> unat r" "unat r \<le> 2 ^ 31 - 8" using assms by (auto simp: r_def word_less_nat_alt buf_size_ok_def)
  have "unat (fix_buf_size s) = (unat r + 3) div 4 * 4"
    using r unat_RNDUP [of r] by (simp add: fix_buf_size_def r_def [symmetric])
  then show "100 \<le> unat (fix_buf_size s)" "unat (fix_buf_size s) \<le> 2 ^ 31 - 8" using r by auto
qed

lemma unat_block_size:
  fixes a b :: u32
  shows "unat (a + b + 4) = (unat a + unat b + 4) mod 2 ^ 32"
  by (simp add: unat_word_ariths mod_simps)

lemma block_size_exact:
  assumes "buf_size_ok ssize" "buf_size_ok rsize"
  shows "unat (fix_buf_size ssize + fix_buf_size rsize + 4) = unat (fix_buf_size ssize) + unat (fix_buf_size rsize) + 4"
  unfolding unat_block_size using fix_buf_size_bounds [OF assms(1)] fix_buf_size_bounds [OF assms(2)] by simp

lemma xdrrec_create_fields:
  assumes "xdrrec_create ok mem_alloc mem ssize rsize h reader writer = Some s"
  obtains buf tmp where "mem_alloc (unat (fix_buf_size ssize + fix_buf_size rsize + 4)) = Some buf" "the_buffer s = buf"
    "buf \<le> tmp" "tmp \<le> buf + 3" "r_mem s = mem" "tcp_handle s = h" "writeit s = writer" "readit s = reader"
    "out_base s = tmp" "out_finger s = tmp + 4" "out_boundry s = tmp + unat (fix_buf_size ssize)" "frag_header s = tmp"
    "in_size s = unat (fix_buf_size rsize)" "in_base s = tmp + unat (fix_buf_size ssize)"
    "in_finger s = in_base s + in_size s" "in_boundry s = in_base s + in_size s" "fbtbc s = 0" "last_frag s"
proof -
  obtain buf where buf: "mem_alloc (unat (fix_buf_size ssize + fix_buf_size rsize + 4)) = Some buf"
    using assms by (auto simp: xdrrec_create_def BYTES_PER_XDR_UNIT_def Let_def split: option.splits)
  define tmp where "tmp = (if buf mod 4 \<noteq> 0 then buf + (4 - buf mod 4) else buf)"
  show thesis
  proof (rule that [of buf tmp])
    obtain r where "buf mod 4 = r" "r < 4" by simp
    then show "buf \<le> tmp" "tmp \<le> buf + 3" by (auto simp: tmp_def)
  qed (use assms buf in \<open>auto simp: xdrrec_create_def BYTES_PER_XDR_UNIT_def Let_def tmp_def split: if_splits\<close>)
qed

text \<open>
  The two ends of a connection after \<open>xdrrec_create\<close> with the given sizes: \<open>rec_opened ssize rsize sent s\<close> is a stream whose
  connection has sent nothing yet, and \<open>rec_connected ssize rsize w s\<close> one whose connection is going to deliver the bytes
  \<open>w\<close>.  A block that \<open>mem_alloc\<close> gives has the size that was asked for and lies in the memory.
\<close>

definition blocks_in :: "byte list \<Rightarrow> (nat \<Rightarrow> nat option) \<Rightarrow> bool" where
  "blocks_in mem mem_alloc = (\<forall>n buf. mem_alloc n = Some buf \<longrightarrow> buf + n \<le> length mem)"

definition rec_opened :: "u32 \<Rightarrow> u32 \<Rightarrow> ('n \<Rightarrow> byte list) \<Rightarrow> 'n rec_strm \<Rightarrow> bool" where
  "rec_opened ssize rsize sent s =
     (\<exists>ok mem_alloc mem h reader writer. xdrrec_create ok mem_alloc mem ssize rsize h reader writer = Some s \<and>
        blocks_in mem mem_alloc \<and> writer_ok writer sent \<and> sent h = [])"

definition rec_connected :: "u32 \<Rightarrow> u32 \<Rightarrow> byte list \<Rightarrow> 'n rec_strm \<Rightarrow> bool" where
  "rec_connected ssize rsize w s =
     (\<exists>ok mem_alloc mem h reader writer pending. xdrrec_create ok mem_alloc mem ssize rsize h reader writer = Some s \<and>
        blocks_in mem mem_alloc \<and> reader_ok reader pending \<and> pending h = w)"

lemma xdrrec_create_room:
  assumes "xdrrec_create ok mem_alloc mem ssize rsize h reader writer = Some s" "blocks_in mem mem_alloc"
    "buf_size_ok ssize" "buf_size_ok rsize"
  shows "in_base s + in_size s \<le> length (r_mem s)"
proof -
  obtain buf tmp where f: "mem_alloc (unat (fix_buf_size ssize + fix_buf_size rsize + 4)) = Some buf" "tmp \<le> buf + 3"
    "r_mem s = mem" "in_size s = unat (fix_buf_size rsize)" "in_base s = tmp + unat (fix_buf_size ssize)"
    by (rule xdrrec_create_fields [OF assms(1)])
  have "buf + unat (fix_buf_size ssize + fix_buf_size rsize + 4) \<le> length mem" using assms(2) f(1) unfolding blocks_in_def by blast
  then show ?thesis using f(2-5) unfolding block_size_exact [OF assms(3,4)] by simp
qed

lemma rec_opened_out:
  assumes "buf_size_ok ssize" "buf_size_ok rsize" "rec_opened ssize rsize sent s"
  shows "rec_out_ok sent s" "rec_out sent s [] []"
proof -
  obtain ok mem_alloc mem h reader writer where s: "xdrrec_create ok mem_alloc mem ssize rsize h reader writer = Some s"
    "blocks_in mem mem_alloc" "writer_ok writer sent" "sent h = []" using assms(3) by (auto simp: rec_opened_def)
  note room = xdrrec_create_room [OF s(1,2) assms(1,2)] and b = fix_buf_size_bounds [OF assms(1)]
  show "rec_out_ok sent s"
    by (rule xdrrec_create_fields [OF s(1)]) (use room b s(3) in \<open>simp add: rec_out_ok_def\<close>)
  show "rec_out sent s [] []"
    by (rule xdrrec_create_fields [OF s(1)])
      (use b s(4) framed_start in \<open>simp add: rec_out_def rec_wire_def rec_cur_def\<close>)
qed

lemma rec_connected_in:
  assumes "buf_size_ok ssize" "buf_size_ok rsize" "rec_connected ssize rsize w s"
  obtains pending where "rec_at pending (Some w) (length w) s"
proof -
  obtain ok mem_alloc mem h reader writer pending where
    s: "xdrrec_create ok mem_alloc mem ssize rsize h reader writer = Some s"
    "blocks_in mem mem_alloc" "reader_ok reader pending" "pending h = w" using assms(3) by (auto simp: rec_connected_def)
  note room = xdrrec_create_room [OF s(1,2) assms(1,2)] and b = fix_buf_size_bounds [OF assms(2)]
  have "rec_at pending (Some w) (length w) s"
    by (rule xdrrec_create_fields [OF s(1)])
      (use room b s(3,4) in \<open>simp add: rec_at_def rec_in_ok_def rec_end_def rec_raw_def\<close>)
  then show thesis by (rule that)
qed

section \<open>Sequences of records\<close>

text \<open>
  The two ends of a connection: the sender puts every record in pieces and ends it; the receiver goes to
  the next record and takes some bytes of it.
\<close>

fun send_pieces :: "byte list list \<Rightarrow> 'n rec_strm \<Rightarrow> 'n rec_strm option" where
  "send_pieces [] s = Some s"
| "send_pieces (b # bs) s =
     (let (ok, s) = xdrrec_putbytes b (of_nat (length b)) s in if ok then send_pieces bs s else None)"

fun send_records :: "byte list list list \<Rightarrow> 'n rec_strm \<Rightarrow> 'n rec_strm option" where
  "send_records [] s = Some s"
| "send_records (r # rs) s =
     (case send_pieces r s of
        None \<Rightarrow> None
      | Some s \<Rightarrow> let (ok, s) = xdrrec_endofrecord True s in if ok then send_records rs s else None)"

fun recv_records :: "nat \<Rightarrow> u32 list \<Rightarrow> 'n rec_strm \<Rightarrow> (byte list list \<times> 'n rec_strm) option" where
  "recv_records fuel [] s = Some ([], s)"
| "recv_records fuel (k # ks) s =
     (case xdrrec_skiprecord fuel s of
        Some (True, s) \<Rightarrow>
          (case xdrrec_getbytes k s of
             (True, b, s) \<Rightarrow> map_option (\<lambda>(bs, s). (b # bs, s)) (recv_records fuel ks s)
           | _ \<Rightarrow> None)
      | _ \<Rightarrow> None)"

lemma xdrrec_putbytes_ok:
  assumes "rec_out_ok sent s" "length b < 2 ^ 32"
  shows "\<exists>t. xdrrec_putbytes b (of_nat (length b)) s = (True, t) \<and> rec_emits sent s b t"
proof -
  have "\<exists>t. putbytes_loop (2 * length b + 1) b s = (True, t) \<and> rec_emits sent s b t \<and> r_stuck t = r_stuck s"
    by (rule putbytes_loop_ok [OF assms(1)]) simp
  then show ?thesis
    using assms(2) by (auto simp: xdrrec_putbytes_def unat_of_nat_small simp del: putbytes_loop.simps)
qed

lemma send_pieces_ok:
  assumes "rec_out_ok sent s" "list_all (\<lambda>b. length b < 2 ^ 32) bs"
  shows "\<exists>t. send_pieces bs s = Some t \<and> rec_emits sent s (concat bs) t"
  using assms
proof (induction bs arbitrary: s)
  case Nil
  then show ?case by (simp add: rec_emits_refl)
next
  case (Cons b bs)
  obtain t where t: "xdrrec_putbytes b (of_nat (length b)) s = (True, t)" "rec_emits sent s b t"
    using xdrrec_putbytes_ok Cons.prems by force
  then have "rec_out_ok sent t" by (simp add: rec_emits_def)
  from Cons.IH [OF this] Cons.prems(2) show ?case using t rec_emits_trans [OF t(2)] by auto
qed

lemma send_records_ok:
  assumes "rec_out_ok sent s" "rec_out sent s recs []" "list_all (list_all (\<lambda>b. length b < 2 ^ 32)) css" "css \<noteq> []"
  shows "\<exists>t. send_records css s = Some t \<and> framed (recs @ map concat css) [] (sent (tcp_handle t))"
  using assms
proof (induction css arbitrary: s recs)
  case (Cons c css)
  obtain t where t: "send_pieces c s = Some t" "rec_emits sent s (concat c) t"
    using send_pieces_ok [OF Cons.prems(1)] Cons.prems(3) by auto
  then have "rec_out_ok sent t" "rec_out sent t recs ([] @ concat c)"
    using Cons.prems(2) unfolding rec_emits_def by blast+
  then obtain u where u: "xdrrec_endofrecord True t = (True, u)" "rec_out_ok sent u" "rec_out sent u (recs @ [concat c]) []"
    "framed (recs @ [concat c]) [] (sent (tcp_handle u))"
    using xdrrec_endofrecord_ok [of sent t recs "concat c" True] by auto
  show ?case
  proof (cases "css = []")
    case True
    then show ?thesis using t(1) u(1,4) by simp
  next
    case False
    then show ?thesis using Cons.IH [OF u(2,3)] Cons.prems(3) t(1) u(1) by simp
  qed
qed simp

lemma rec_skip_shorter: "rec_skip w = Some v \<Longrightarrow> length v \<le> length w"
proof (induction w rule: rec_skip.induct)
  case (1 raw)
  have "rec_skip raw = (if length raw < 4 then None else if be_word (take 4 raw) = (0 :: u32) \<or>
      length (drop 4 raw) < header_size (be_word (take 4 raw)) then None
      else if header_last (be_word (take 4 raw)) then Some (drop (header_size (be_word (take 4 raw))) (drop 4 raw))
      else rec_skip (drop (header_size (be_word (take 4 raw))) (drop 4 raw)))"
    by (subst rec_skip.simps) (simp add: Let_def)
  then consider "v = drop (header_size (be_word (take 4 raw))) (drop 4 raw)"
    | "\<not> length raw < 4" "be_word (take 4 raw) \<noteq> (0 :: u32)" "\<not> length (drop 4 raw) < header_size (be_word (take 4 raw))"
      "\<not> header_last (be_word (take 4 raw))" "rec_skip (drop (header_size (be_word (take 4 raw))) (drop 4 raw)) = Some v"
    using "1.prems" by (auto split: if_splits)
  then show ?case
  proof cases
    case 2
    then show ?thesis using "1.IH" [OF 2(1) refl refl _ 2(4,5)] by simp
  qed simp
qed

lemma skip_to_record:
  assumes "rec_at pending (Some w) n s" "framed (r # rs) p w" "n + 3 \<le> fuel"
  shows "\<exists>t v. xdrrec_skiprecord fuel s = Some (True, t) \<and> rec_in_ok pending t \<and> rec_raw pending t = w \<and>
    rec_input pending t = r \<and> rec_end pending t = Some v \<and> framed rs p v \<and> length v \<le> length w"
proof -
  obtain v where v: "rec_frags w = r" "rec_skip w = Some v" "framed rs p v"
    using framed_parse [OF assms(2), of "[]"] by auto
  have "rec_in_ok pending s" "skip_rounds pending s \<le> fuel"
    using assms(1,3) by (auto simp: rec_at_def skip_rounds_def)
  then obtain t where t: "xdrrec_skiprecord fuel s = Some (True, t)" "rec_in_ok pending t" "rec_raw pending t = w"
      "fbtbc t = 0" "\<not> last_frag t"
    using xdrrec_skiprecord_ok [of pending s fuel] assms(1) by (auto simp: rec_at_def)
  then have "rec_input pending t = r" "rec_end pending t = Some v" using v by (simp_all add: rec_input_def rec_end_def)
  then show ?thesis using t v(3) rec_skip_shorter [OF v(2)] by blast
qed

lemma recv_records_ok:
  assumes "rec_at pending (Some w) n s" "framed recs p w" "max n (length w) + 3 \<le> fuel"
    "list_all2 (\<lambda>k r. unat k \<le> length r) ks recs"
  shows "\<exists>t. recv_records fuel ks s = Some (map2 (\<lambda>k r. take (unat k) r) ks recs, t)"
  using assms
proof (induction ks arbitrary: recs w n s)
  case (Cons k ks)
  obtain r rs where recs: "recs = r # rs" "unat k \<le> length r" "list_all2 (\<lambda>k r. unat k \<le> length r) ks rs"
    using Cons.prems(4) by (auto simp: list_all2_Cons1)
  have "framed (r # rs) p w" "n + 3 \<le> fuel" using Cons.prems(2,3) recs(1) by simp_all
  then obtain t v where t: "xdrrec_skiprecord fuel s = Some (True, t)" "rec_in_ok pending t" "rec_raw pending t = w"
    "rec_input pending t = r" "rec_end pending t = Some v" "framed rs p v" "length v \<le> length w"
    using skip_to_record [OF Cons.prems(1)] by blast
  obtain u where u: "xdrrec_getbytes k t = (True, take (unat k) r, u)" "rec_at pending (Some v) (length w) u"
    using xdrrec_getbytes_ok [OF t(2), of k] recs(2) t(3-5) by (auto split: prod.splits)
  have "max (length w) (length v) + 3 \<le> fuel" using Cons.prems(3) t(7) by simp
  from Cons.IH [OF u(2) t(6) this recs(3)] obtain x where
    "recv_records fuel ks u = Some (map2 (\<lambda>k r. take (unat k) r) ks rs, x)" by blast
  then show ?case using t(1) u(1) recs(1) by simp
qed simp



section \<open>Properties\<close>

text \<open>
  C11: records that one end of a connection puts on a record stream, in pieces of any length and through a
  send buffer of any size up to \<open>2 ^ 31 - 8\<close>, come out of the record stream at the other end in order and unchanged, however
  the connection cuts the bytes up and whatever the size of the receive buffer is, up to the same bound; a receiver that
  reads only a part of a record goes to the start of the next one with \<open>xdrrec_skiprecord\<close>.  (Beyond the bound the counts
  that are passed to \<open>readit\<close> and \<open>writeit\<close> are negative, or the size of the block wraps around.)
\<close>

theorem xdrrec_records:
  assumes "buf_size_ok ssize" "buf_size_ok rsize" "rec_opened ssize rsize sent s"
    and "list_all (list_all (\<lambda>b. length b < 2 ^ 32)) css" "css \<noteq> []"
  shows "\<exists>t. send_records css s = Some t \<and>
    (\<forall>ssize' rsize' s' ks fuel. buf_size_ok ssize' \<and> buf_size_ok rsize' \<and>
       rec_connected ssize' rsize' (sent (tcp_handle t)) (s' :: 'b rec_strm) \<longrightarrow> length (sent (tcp_handle t)) + 3 \<le> fuel \<longrightarrow>
       list_all2 (\<lambda>k r. unat k \<le> length (concat r)) ks css \<longrightarrow>
       map_option fst (recv_records fuel ks s') = Some (map2 (\<lambda>k r. take (unat k) (concat r)) ks css))"
proof -
  obtain t where t: "send_records css s = Some t" "framed (map concat css) [] (sent (tcp_handle t))"
    using send_records_ok [OF rec_opened_out [OF assms(1-3)] assms(4,5)] by auto
  have "map_option fst (recv_records fuel ks s') = Some (map2 (\<lambda>k r. take (unat k) (concat r)) ks css)"
    if c: "buf_size_ok ssize' \<and> buf_size_ok rsize' \<and> rec_connected ssize' rsize' (sent (tcp_handle t)) (s' :: 'b rec_strm)"
      "length (sent (tcp_handle t)) + 3 \<le> fuel"
      "list_all2 (\<lambda>k r. unat k \<le> length (concat r)) ks css" for ssize' rsize' s' ks fuel
  proof -
    obtain pending where "rec_at pending (Some (sent (tcp_handle t))) (length (sent (tcp_handle t))) s'"
      using rec_connected_in c(1) by blast
    moreover have "list_all2 (\<lambda>k r. unat k \<le> length r) ks (map concat css)"
      using c(3) by (simp add: list_all2_conv_all_nth)
    ultimately show ?thesis
      using recv_records_ok [OF _ t(2), of pending _ s' fuel ks] c(2) by (fastforce simp: zip_map2 split_def o_def)
  qed
  then show ?thesis using t(1) by blast
qed

text \<open>A connection that keeps the bytes that were written and delivers them at most three at a time.\<close>

definition pipe_write :: "byte list \<Rightarrow> byte list \<Rightarrow> int \<Rightarrow> int \<times> byte list" where
  "pipe_write h bs len = (len, h @ bs)"

definition pipe_read :: "byte list \<Rightarrow> int \<Rightarrow> byte list option \<times> byte list" where
  "pipe_read h len = (if h = [] then (None, h) else (Some (take (min 3 (nat len)) h), drop (min 3 (nat len)) h))"

lemma pipe_ok: "writer_ok pipe_write id" "reader_ok pipe_read id"
  by (auto simp: writer_ok_def reader_ok_def pipe_write_def pipe_read_def)

definition pipe_stream :: "byte list \<Rightarrow> byte list rec_strm" where
  "pipe_stream h =
     the (xdrrec_create True (\<lambda>n. if n \<le> 8004 then Some 0 else None) (replicate 8004 0) 0 0 h pipe_read pipe_write)"

lemma pipe_sizes: "buf_size_ok 0" "unat (fix_buf_size 0) = 4000" "unat (fix_buf_size 0 + fix_buf_size 0 + 4) = 8004"
  by (simp_all add: buf_size_ok_def fix_buf_size_def RNDUP_def BYTES_PER_XDR_UNIT_def)

lemma pipe_create:
  "xdrrec_create True (\<lambda>n. if n \<le> 8004 then Some 0 else None) (replicate 8004 0) 0 0 h pipe_read pipe_write = Some (pipe_stream h)"
  using pipe_sizes(3) by (simp add: pipe_stream_def xdrrec_create_def BYTES_PER_XDR_UNIT_def Let_def)

lemma pipe_stream: "rec_opened 0 0 id (pipe_stream [])" "rec_connected 0 0 w (pipe_stream w)"
proof -
  have b: "blocks_in (replicate 8004 0) (\<lambda>n. if n \<le> 8004 then Some 0 else None)" by (simp add: blocks_in_def)
  show "rec_opened 0 0 id (pipe_stream [])" unfolding rec_opened_def using pipe_create [of "[]"] b pipe_ok(1) id_apply [of "[]"] by blast
  show "rec_connected 0 0 w (pipe_stream w)" unfolding rec_connected_def using pipe_create [of w] b pipe_ok(2) id_apply [of w] by blast
qed



theorem xdrrec_records_witness:
  "\<exists>t. send_records [[[1, 2], [3]], [[4]]] (pipe_stream []) = Some t \<and>
    map_option fst (recv_records (length (tcp_handle t) + 3) [2, 1] (pipe_stream (tcp_handle t))) = Some [[1, 2], [4]]"
proof -
  let ?css = "[[[1, 2], [3]], [[4 :: byte]]]"
  have "list_all (list_all (\<lambda>b. length b < 2 ^ 32)) ?css" "?css \<noteq> []" by simp_all
  from xdrrec_records [OF pipe_sizes(1) pipe_sizes(1) pipe_stream(1) this, where 'b = "byte list"] obtain t where
    t: "send_records ?css (pipe_stream []) = Some t" and
    all: "buf_size_ok ssize' \<and> buf_size_ok rsize' \<and> rec_connected ssize' rsize' (id (tcp_handle t)) (s' :: byte list rec_strm) \<Longrightarrow>
       length (id (tcp_handle t)) + 3 \<le> fuel \<Longrightarrow> list_all2 (\<lambda>k r. unat k \<le> length (concat r)) ks ?css \<Longrightarrow>
       map_option fst (recv_records fuel ks s') = Some (map2 (\<lambda>k r. take (unat k) (concat r)) ks ?css)" for ssize' rsize' s' ks fuel
    by blast
  have "map_option fst (recv_records (length (tcp_handle t) + 3) [2, 1] (pipe_stream (tcp_handle t))) =
      Some (map2 (\<lambda>k r. take (unat k) (concat r)) [2, 1 :: u32] ?css)"
    using all [of 0 0 "pipe_stream (tcp_handle t)" "length (tcp_handle t) + 3" "[2, 1]"] pipe_sizes(1) pipe_stream(2) by simp
  then show ?thesis using t by (simp del: recv_records.simps send_records.simps)
qed

text \<open>
  C12: an array of strings encoded on a record stream and ended with \<open>xdrrec_endofrecord\<close> is decoded at
  the other end of the connection as the same array, after \<open>xdrrec_skiprecord\<close> has gone to the record; the buffers of both
  ends have sizes up to \<open>2 ^ 31 - 8\<close>.
\<close>

theorem xdr_string_array_rec:
  assumes "buf_size_ok ssize" "buf_size_ok rsize" "rec_opened ssize rsize sent s"
    and "alloc_ok mem_alloc" "ss \<noteq> []" "length ss \<le> unat maxsize" "of_nat (length ss) \<le> (0 - 1 :: u32) div elsize"
    and "list_all (\<lambda>s. length s < 2 ^ 32 - 1 \<and> 0 \<notin> set s) ss"
    and "calloc (of_nat (length ss)) elsize = Some (replicate (length ss) None)"
  shows "\<exists>x t. xdr_array calloc maxsize elsize (xdr_wrapstring mem_alloc)
      \<lparr>x_op = XDR_ENCODE, x_ops = xdrrec_ops lseek, x_str = s\<rparr>
      (Some (map (\<lambda>s. Some (s @ [0])) ss), of_nat (length ss)) =
        (True, x, (Some (map (\<lambda>s. Some (s @ [0])) ss), of_nat (length ss))) \<and>
    xdrrec_endofrecord True (x_str x) = (True, t) \<and>
    (\<forall>ssize' rsize' s' fuel. buf_size_ok ssize' \<and> buf_size_ok rsize' \<and>
       rec_connected ssize' rsize' (sent (tcp_handle t)) (s' :: 'b rec_strm) \<longrightarrow> length (sent (tcp_handle t)) + 3 \<le> fuel \<longrightarrow>
       (\<exists>u y. xdrrec_skiprecord fuel s' = Some (True, u) \<and>
         xdr_array calloc maxsize elsize (xdr_wrapstring mem_alloc)
           \<lparr>x_op = XDR_DECODE, x_ops = xdrrec_ops lseek', x_str = u\<rparr> (None, 0) =
           (True, y, (Some (map (\<lambda>s. Some (s @ [0])) ss), of_nat (length ss)))))"
proof -
  let ?obj = "(Some (map (\<lambda>s. Some (s @ [0])) ss), of_nat (length ss))"
  let ?x = "\<lparr>x_op = XDR_ENCODE, x_ops = xdrrec_ops lseek, x_str = s\<rparr>"
  note out = rec_opened_out [OF assms(1-3)]
  have "rec_enc.writing lseek sent ?x" using out(1) by (simp add: rec_enc.writing_def)
  from rec_enc.encodes_ok [OF rec_enc.encodes_string_array [OF assms(6-8)] this]
  obtain x where x: "xdr_array calloc maxsize elsize (xdr_wrapstring mem_alloc) ?x ?obj = (True, x, ?obj)"
    "rec_emits sent s (enc_array enc_bytes ss) (x_str x)" by auto
  then have "rec_out_ok sent (x_str x)" "rec_out sent (x_str x) [] ([] @ enc_array enc_bytes ss)"
    using out(2) unfolding rec_emits_def by blast+
  then obtain t where t: "xdrrec_endofrecord True (x_str x) = (True, t)"
    "framed [enc_array enc_bytes ss] [] (sent (tcp_handle t))"
    using xdrrec_endofrecord_ok [of sent "x_str x" "[]" "enc_array enc_bytes ss" True] by auto
  have "\<exists>u y. xdrrec_skiprecord fuel s' = Some (True, u) \<and>
      xdr_array calloc maxsize elsize (xdr_wrapstring mem_alloc)
        \<lparr>x_op = XDR_DECODE, x_ops = xdrrec_ops lseek', x_str = u\<rparr> (None, 0) = (True, y, ?obj)"
    if c: "buf_size_ok ssize' \<and> buf_size_ok rsize' \<and> rec_connected ssize' rsize' (sent (tcp_handle t)) s'"
      "length (sent (tcp_handle t)) + 3 \<le> fuel" for ssize' rsize' and s' :: "'b rec_strm" and fuel
  proof -
    obtain pending where s': "rec_at pending (Some (sent (tcp_handle t))) (length (sent (tcp_handle t))) s'"
      using rec_connected_in c(1) by blast
    obtain u where u: "xdrrec_skiprecord fuel s' = Some (True, u)" "rec_in_ok pending u"
      "rec_input pending u = enc_array enc_bytes ss"
      using skip_to_record [OF s' t(2)] c(2) by auto
    then have "rec_dec.reading lseek' pending (rec_end pending u) (length (rec_raw pending u))
        \<lparr>x_op = XDR_DECODE, x_ops = xdrrec_ops lseek', x_str = u\<rparr>"
      by (simp add: rec_dec.reading_def rec_at_def)
    from rec_dec.decodes_ok [OF rec_dec.decodes_string_array [where calloc = calloc, OF assms(4-9)] this] u(1,3) show ?thesis by fastforce
  qed
  then show ?thesis using x(1) t(1) by blast
qed

theorem xdr_string_array_rec_witness:
  "\<exists>x t u y. xdr_array (\<lambda>c elsize. Some (replicate (unat c) None)) 16 8 (xdr_wrapstring (\<lambda>k. Some (replicate (unat k) 7)))
      \<lparr>x_op = XDR_ENCODE, x_ops = xdrrec_ops (\<lambda>_. -1), x_str = pipe_stream []\<rparr> (Some [Some [104, 105, 0], Some [0]], 2) =
        (True, x, (Some [Some [104, 105, 0], Some [0]], 2)) \<and>
    xdrrec_endofrecord True (x_str x) = (True, t) \<and>
    xdrrec_skiprecord (length (tcp_handle t) + 3) (pipe_stream (tcp_handle t)) = Some (True, u) \<and>
    xdr_array (\<lambda>c elsize. Some (replicate (unat c) None)) 16 8 (xdr_wrapstring (\<lambda>k. Some (replicate (unat k) 7)))
      \<lparr>x_op = XDR_DECODE, x_ops = xdrrec_ops (\<lambda>_. -1), x_str = u\<rparr> (None, 0) =
        (True, y, (Some [Some [104, 105, 0], Some [0]], 2))"
  using xdr_string_array_rec [where 'b = "byte list", OF pipe_sizes(1) pipe_sizes(1) pipe_stream(1), of "\<lambda>k. Some (replicate (unat k) 7)" "[[104, 105], []]" 16 8
      "\<lambda>c elsize. Some (replicate (unat c) None)" "\<lambda>_. -1" "\<lambda>_. -1"] pipe_stream(2) pipe_sizes(1)
  by (fastforce simp: alloc_ok_def replicate_numeral)





text \<open>
  C30: the buffers of a stream lie in the block of memory that \<open>xdrrec_create\<close> asks for, one after the other and after at most
  three bytes for the alignment, exactly when the sizes of the buffers, rounded by \<open>fix_buf_size\<close>, and 4 add up to less
  than \<open>2 ^ 32\<close>; otherwise the sum wraps around and the input buffer ends beyond the block.
\<close>

theorem xdrrec_create_block:
  assumes "xdrrec_create ok mem_alloc mem ssize rsize h reader writer = Some s"
  defines "need \<equiv> unat (fix_buf_size ssize) + unat (fix_buf_size rsize) + 4"
  shows "mem_alloc (need mod 2 ^ 32) = Some (the_buffer s) \<and>
    the_buffer s \<le> out_base s \<and> out_base s \<le> the_buffer s + 3 \<and> out_boundry s = out_base s + unat (fix_buf_size ssize) \<and>
    in_base s = out_boundry s \<and> in_size s = unat (fix_buf_size rsize) \<and>
    (in_base s + in_size s \<le> the_buffer s + need mod 2 ^ 32 \<longleftrightarrow> need < 2 ^ 32)"
proof -
  let ?a = "unat (fix_buf_size ssize)" and ?b = "unat (fix_buf_size rsize)"
  obtain buf tmp where f: "mem_alloc (unat (fix_buf_size ssize + fix_buf_size rsize + 4)) = Some buf" "the_buffer s = buf"
    "buf \<le> tmp" "tmp \<le> buf + 3" "out_base s = tmp" "out_boundry s = tmp + ?a" "in_size s = ?b" "in_base s = tmp + ?a"
    by (rule xdrrec_create_fields [OF assms(1)])
  have "tmp + ?a + ?b \<le> buf + need mod 2 ^ 32 \<longleftrightarrow> need < 2 ^ 32"
  proof (cases "need < 2 ^ 32")
    case True
    then show ?thesis using f(4) by (simp add: need_def)
  next
    case False
    have "need mod 2 ^ 32 \<le> need - 2 ^ 32" unfolding le_mod_geq [OF leI [OF False]] by (rule mod_less_eq_dividend)
    then have "need mod 2 ^ 32 + 4294967296 \<le> ?a + ?b + 4" using False by (simp add: need_def)
    then have "buf + need mod 2 ^ 32 < tmp + ?a + ?b" using f(3) by linarith
    then show ?thesis using False by simp
  qed
  then show ?thesis using f unfolding unat_block_size need_def by simp
qed

theorem xdrrec_create_block_witness:
  "\<exists>s. xdrrec_create True (\<lambda>n. if n = 4 then Some 0 else None) [] 0x80000000 0x80000000 [] pipe_read pipe_write = Some s \<and>
     in_size s = 2 ^ 31 \<and> the_buffer s + 4 < in_base s + in_size s"
proof -
  have f: "fix_buf_size 0x80000000 = 0x80000000" by (simp add: fix_buf_size_def RNDUP_def BYTES_PER_XDR_UNIT_def)
  obtain s where s: "xdrrec_create True (\<lambda>n. if n = 4 then Some 0 else None) [] 0x80000000 0x80000000 [] pipe_read pipe_write = Some s"
    by (simp add: xdrrec_create_def f Let_def BYTES_PER_XDR_UNIT_def)
  have u: "unat (0x80000000 :: u32) = 2147483648" by simp
  note block = xdrrec_create_block [OF s, unfolded f u]
  have size: "in_size s = 2147483648" using block by blast
  have "the_buffer s \<le> out_base s" "in_base s = out_boundry s" "out_boundry s = out_base s + 2147483648" using block by blast+
  then have "the_buffer s + 4 < in_base s + in_size s" unfolding size by linarith
  moreover have "in_size s = 2 ^ 31" unfolding size by simp
  ultimately show ?thesis using s by blast
qed

end
