(* ===== verification/Mpn.thy ===== *)
theory Mpn
  imports Prelude
begin

text \<open>
  The natural numbers of \<open>stdlib/gmp.h\<close>: arrays of 64-bit limbs, the least significant one first, as
  \<open>strtod\<close> and \<open>printf\<close> use them.  This theory has the two-limb arithmetic of \<open>longlong.h\<close> in plain C (no
  assembler), and the routines that go once over their operands.

  A source operand is the list of its limbs, whose length is the size argument.  A routine returns the limbs it
  stores at \<open>res_ptr\<close> together with its return value; the loops go from the low end to the high end (from
  the high end for \<open>mpn_lshift\<close>), so a destination that is the same array as a source is covered.  Sizes
  are positive, as the loops of the code require.
\<close>

type_synonym limb = u64

section \<open>Two limbs\<close>

definition ll_B :: limb where
  "ll_B = push_bit (64 div 2) 1"

definition ll_lowpart :: "limb \<Rightarrow> limb" where
  "ll_lowpart t = t AND (ll_B - 1)"

definition ll_highpart :: "limb \<Rightarrow> limb" where
  "ll_highpart t = drop_bit (64 div 2) t"

definition add_ssaaaa :: "limb \<Rightarrow> limb \<Rightarrow> limb \<Rightarrow> limb \<Rightarrow> limb \<times> limb" where
  "add_ssaaaa ah al bh bl = (let x = al + bl in (ah + bh + of_bool (x < al), x))"

definition sub_ddmmss :: "limb \<Rightarrow> limb \<Rightarrow> limb \<Rightarrow> limb \<Rightarrow> limb \<times> limb" where
  "sub_ddmmss ah al bh bl = (let x = al - bl in (ah - bh - of_bool (x > al), x))"

definition umul_ppmm :: "limb \<Rightarrow> limb \<Rightarrow> limb \<times> limb" where
  "umul_ppmm u v =
     (let ul = ll_lowpart u; uh = ll_highpart u; vl = ll_lowpart v; vh = ll_highpart v;
          x0 = ul * vl; x1 = ul * vh; x2 = uh * vl; x3 = uh * vh;
          x1 = x1 + ll_highpart x0;
          x1 = x1 + x2;
          x3 = (if x1 < x2 then x3 + ll_B else x3)
      in (x3 + ll_highpart x1, ll_lowpart x1 * ll_B + ll_lowpart x0))"

lemma unat_ll_parts:
  "unat (ll_lowpart t) = unat t mod 2 ^ 32" "unat (ll_highpart t) = unat t div 2 ^ 32" "unat ll_B = 2 ^ 32"
proof -
  have "ll_B - 1 = mask 32" by (simp add: ll_B_def mask_eq_exp_minus_1)
  then show "unat (ll_lowpart t) = unat t mod 2 ^ 32"
    by (simp add: ll_lowpart_def unsigned_take_bit_eq take_bit_eq_mod unat_mod flip: take_bit_eq_mask)
  show "unat (ll_highpart t) = unat t div 2 ^ 32"
    by (simp add: ll_highpart_def unsigned_drop_bit_eq drop_bit_eq_div unat_div)
  show "unat ll_B = 2 ^ 32" by (simp add: ll_B_def)
qed

lemma unat_add_if: "unat (x + y :: limb) = (if unat x + unat y < 2 ^ 64 then unat x + unat y else unat x + unat y - 2 ^ 64)"
  using unat_lt2p [of x] unat_lt2p [of y] by (simp add: unat_word_ariths mod_if le_mod_geq)

lemma unat_mult_small: "unat x * unat y < 2 ^ 64 \<Longrightarrow> unat (x * y :: limb) = unat x * unat y"
  by (simp add: unat_word_ariths)

lemma umul_ppmm_spec:
  assumes "umul_ppmm u v = (w1, w0)"
  shows "unat w1 * 2 ^ 64 + unat w0 = unat u * unat v"
proof -
  define ul uh vl vh where p: "ul = unat u mod 2 ^ 32" "uh = unat u div 2 ^ 32" "vl = unat v mod 2 ^ 32" "vh = unat v div 2 ^ 32"
  have lt: "ul < 2 ^ 32" "uh < 2 ^ 32" "vl < 2 ^ 32" "vh < 2 ^ 32"
    using unat_lt2p [of u] unat_lt2p [of v] by (simp_all add: p less_mult_imp_div_less)
  have uv: "unat u = uh * 2 ^ 32 + ul" "unat v = vh * 2 ^ 32 + vl" by (simp_all add: p)
  let ?M = "(2 ^ 32 - 1) * (2 ^ 32 - 1) :: nat"
  define A B C D where prods: "A = ul * vl" "B = ul * vh" "C = uh * vl" "D = uh * vh"
  have "a * b \<le> ?M" if "a < 2 ^ 32" "b < 2 ^ 32" for a b :: nat using that by (intro mult_le_mono) auto
  then have le: "A \<le> ?M" "B \<le> ?M" "C \<le> ?M" "D \<le> ?M" using lt by (simp_all add: prods)
  define x0 where "x0 = ll_lowpart u * ll_lowpart v"
  define x1 where "x1 = ll_lowpart u * ll_highpart v + ll_highpart x0"
  define x2 where "x2 = ll_highpart u * ll_lowpart v"
  define x3 where "x3 = ll_highpart u * ll_highpart v"
  have x: "unat x0 = A" "unat x2 = C" "unat x3 = D"
    using le unfolding prods p x0_def x2_def x3_def
    by (simp_all add: unat_mult_small unat_ll_parts)
  have "unat (ll_lowpart u * ll_highpart v) = B"
    using le unfolding prods p by (simp add: unat_mult_small unat_ll_parts)
  moreover have Ah: "A div 2 ^ 32 < 2 ^ 32" using le by (simp add: less_mult_imp_div_less)
  ultimately have x1: "unat x1 = B + A div 2 ^ 32" using le x(1) by (simp add: x1_def unat_add_if unat_ll_parts)
  define s where "s = B + A div 2 ^ 32 + C"
  have "s < 2 * ?M + 2 ^ 32" using le Ah unfolding s_def by simp
  then have sh: "s div 2 ^ 32 < 2 * 2 ^ 32 - 2" "s mod 2 ^ 32 < 2 ^ 32" by (simp_all add: less_mult_imp_div_less)
  define y where "y = x1 + x2"
  have "s = (if y < x2 then 2 ^ 64 else 0) + unat y"
    using word_add_carry [of x1 x2] by (simp add: x1 x(2) s_def y_def)
  then have sum: "s div 2 ^ 32 = (if y < x2 then 2 ^ 32 else 0) + unat y div 2 ^ 32" "s mod 2 ^ 32 = unat y mod 2 ^ 32"
    using mod_mult_self3 [of "2 ^ 32" "2 ^ 32" "unat y"] by auto
  have w: "w1 = (if y < x2 then x3 + ll_B else x3) + ll_highpart y" "w0 = ll_lowpart y * ll_B + ll_lowpart x0"
    using assms by (auto simp: umul_ppmm_def Let_def x0_def x1_def x2_def x3_def y_def)
  have "unat w1 = D + s div 2 ^ 32"
    using sum(1) sh(1) le(4) by (simp add: w(1) unat_add_if unat_ll_parts x split: if_splits)
  moreover have "unat (ll_lowpart y * ll_B) = s mod 2 ^ 32 * 2 ^ 32"
    using sum(2) sh(2) by (simp add: unat_mult_small unat_ll_parts)
  then have "unat w0 = s mod 2 ^ 32 * 2 ^ 32 + A mod 2 ^ 32"
    using sh(2) mod_less_divisor [of "2 ^ 32" A] by (simp add: w(2) unat_add_if unat_ll_parts x)
  moreover have "(D + p) * 2 ^ 64 + (q * 2 ^ 32 + a) = D * 2 ^ 64 + (p * 2 ^ 32 + q) * 2 ^ 32 + a" for p q a :: nat
    by (simp add: algebra_simps)
  ultimately have "unat w1 * 2 ^ 64 + unat w0 = D * 2 ^ 64 + (s div 2 ^ 32 * 2 ^ 32 + s mod 2 ^ 32) * 2 ^ 32 + A mod 2 ^ 32"
    by (simp only:)
  also have "\<dots> = D * 2 ^ 64 + (B + C) * 2 ^ 32 + (A div 2 ^ 32 * 2 ^ 32 + A mod 2 ^ 32)"
    unfolding div_mult_mod_eq by (simp add: s_def algebra_simps)
  also have "\<dots> = unat u * unat v" unfolding div_mult_mod_eq by (simp add: uv prods algebra_simps)
  finally show ?thesis .
qed

text \<open>A limb is added to a two-limb number, and taken from one limb with a borrow into another.\<close>

lemma word_diff_greater: "x - y > x \<longleftrightarrow> x < (y :: limb)"
  using word_add_carry [of "x - y" y] unat_lt2p [of y] by (auto simp: word_less_nat_alt split: if_splits)

lemma limb_add_carry: "unat x + unat y = (if x + y < x then 2 ^ 64 else 0) + unat (x + y :: limb)"
  using word_add_carry [of y x] by (simp only: add.commute [of y x] add.commute [of "unat y" "unat x"]) simp

lemma carry_in:
  fixes h l c :: limb
  assumes "unat h * 2 ^ 64 + unat l + unat c < 2 ^ 128"
  shows "unat (h + of_bool (l + c < c)) * 2 ^ 64 + unat (l + c) = unat h * 2 ^ 64 + unat l + unat (c :: limb)"
proof (cases "l + c < c")
  case True
  then have s: "unat l + unat c = 2 ^ 64 + unat (l + c)" using word_add_carry [of l c] by simp
  then have "(unat h + 1) * 2 ^ 64 + unat (l + c) < 2 ^ 64 * 2 ^ 64" using assms by simp
  then have "unat (h + 1) = unat h + 1" using unat_add_if [of h 1] by simp
  then show ?thesis using s True by simp
next
  case False
  then show ?thesis using word_add_carry [of l c] by simp
qed

lemma borrow_out:
  fixes h l x :: limb
  assumes "unat h * 2 ^ 64 + unat l \<le> (2 ^ 64 - 1) * 2 ^ 64"
  shows "unat (x - l) + (unat h * 2 ^ 64 + unat l) = unat x + 2 ^ 64 * unat (h + of_bool (x - l > (x :: limb)))"
proof (cases "x < l")
  case True
  then have s: "unat (x - l) + unat l = 2 ^ 64 + unat x" using word_add_carry [of "x - l" l] by simp
  have "0 < unat l" using True by (simp add: word_less_nat_alt)
  then have "unat (h + 1) = unat h + 1" using assms unat_add_if [of h 1] by simp
  then show ?thesis using s True by (simp add: word_diff_greater)
next
  case False
  then show ?thesis using word_add_carry [of "x - l" l] by (simp add: word_diff_greater)
qed

section \<open>The value of an array\<close>

fun lval :: "limb list \<Rightarrow> nat" where
  "lval [] = 0"
| "lval (x # xs) = unat x + 2 ^ 64 * lval xs"

abbreviation Bpow :: "nat \<Rightarrow> nat" where
  "Bpow n \<equiv> 2 ^ (64 * n)"

lemma Bpow_Suc: "Bpow (Suc n) = 2 ^ 64 * Bpow n"
  by (simp add: power_add)

lemma lval_append [simp]: "lval (xs @ ys) = lval xs + Bpow (length xs) * lval ys"
  by (induction xs) (simp_all add: power_add algebra_simps)

lemma lval_less: "lval xs < Bpow (length xs)"
proof (induction xs)
  case (Cons x xs)
  then have "Suc (lval xs) \<le> Bpow (length xs)" by simp
  then have "2 ^ 64 * Suc (lval xs) \<le> 2 ^ 64 * Bpow (length xs)" by (rule mult_le_mono2)
  then show ?case using unat_lt2p [of x] Bpow_Suc [of "length xs"] by simp
qed simp

lemma lval_replicate_0 [simp]: "lval (replicate n 0) = 0"
  by (induction n) auto

lemma lval_take_drop: "n \<le> length xs \<Longrightarrow> lval xs = lval (take n xs) + Bpow n * lval (drop n xs)"
  using lval_append [of "take n xs" "drop n xs"] by simp

section \<open>Addition and subtraction\<close>

text \<open>The loop of \<open>mpn_add_n\<close>: limb by limb, with the carry of the limbs before.\<close>

fun add_n_loop :: "limb \<Rightarrow> limb list \<Rightarrow> limb list \<Rightarrow> limb list \<times> limb" where
  "add_n_loop cy (x # xs) (y # ys) =
     (let y = y + cy;
          cy = of_bool (y < cy);
          y = x + y;
          cy = of_bool (y < x) + cy;
          (res, cy) = add_n_loop cy xs ys
      in (y # res, cy))"
| "add_n_loop cy _ _ = ([], cy)"

definition mpn_add_n :: "limb list \<Rightarrow> limb list \<Rightarrow> limb list \<times> limb" where
  "mpn_add_n s1 s2 = add_n_loop 0 s1 s2"

fun sub_n_loop :: "limb \<Rightarrow> limb list \<Rightarrow> limb list \<Rightarrow> limb list \<times> limb" where
  "sub_n_loop cy (x # xs) (y # ys) =
     (let y = y + cy;
          cy = of_bool (y < cy);
          y = x - y;
          cy = of_bool (y > x) + cy;
          (res, cy) = sub_n_loop cy xs ys
      in (y # res, cy))"
| "sub_n_loop cy _ _ = ([], cy)"

definition mpn_sub_n :: "limb list \<Rightarrow> limb list \<Rightarrow> limb list \<times> limb" where
  "mpn_sub_n s1 s2 = sub_n_loop 0 s1 s2"

lemma unat_of_bools: "unat (of_bool p + of_bool q :: limb) = of_bool p + of_bool q"
  by (cases p; cases q) simp_all

lemma add_step:
  fixes x y cy :: limb
  assumes "unat cy \<le> 1"
  defines "z \<equiv> x + (y + cy)"
  defines "c \<equiv> of_bool (z < x) + of_bool (y + cy < cy) :: limb"
  shows "unat z + 2 ^ 64 * unat c = unat x + unat y + unat cy" "unat c \<le> 1"
proof -
  have c: "unat c = of_bool (z < x) + of_bool (y + cy < cy)" unfolding c_def by (rule unat_of_bools)
  have s: "unat y + unat cy = (if y + cy < cy then 2 ^ 64 else 0) + unat (y + cy)"
    "unat (y + cy) + unat x = (if z < x then 2 ^ 64 else 0) + unat z"
    using word_add_carry [of y cy] limb_add_carry [of x "y + cy"] by (simp_all add: z_def)
  show "unat z + 2 ^ 64 * unat c = unat x + unat y + unat cy"
    using s unfolding c by (cases "z < x"; cases "y + cy < cy") simp_all
  then have "2 ^ 64 * unat c < 2 ^ 64 * 2" using unat_lt2p [of x] unat_lt2p [of y] assms(1) by simp
  then show "unat c \<le> 1" unfolding nat_mult_less_cancel1 by simp
qed

lemma sub_step:
  fixes x y cy :: limb
  assumes "unat cy \<le> 1"
  defines "z \<equiv> x - (y + cy)"
  defines "c \<equiv> of_bool (z > x) + of_bool (y + cy < cy) :: limb"
  shows "unat z + unat y + unat cy = unat x + 2 ^ 64 * unat c" "unat c \<le> 1"
proof -
  have c: "unat c = of_bool (z > x) + of_bool (y + cy < cy)" unfolding c_def by (rule unat_of_bools)
  have s: "unat y + unat cy = (if y + cy < cy then 2 ^ 64 else 0) + unat (y + cy)"
    "unat z + unat (y + cy) = (if z > x then 2 ^ 64 else 0) + unat x"
    using word_add_carry [of y cy] word_add_carry [of z "y + cy"] by (simp_all add: z_def word_diff_greater)
  show "unat z + unat y + unat cy = unat x + 2 ^ 64 * unat c"
    using s unfolding c by (cases "z > x"; cases "y + cy < cy") simp_all
  then have "2 ^ 64 * unat c < 2 ^ 64 * 2" using unat_lt2p [of z] unat_lt2p [of y] assms(1) by simp
  then show "unat c \<le> 1" unfolding nat_mult_less_cancel1 by simp
qed

lemma add_n_loop_val:
  assumes "length xs = length ys" "unat cy \<le> 1" "add_n_loop cy xs ys = (r, c)"
  shows "lval r + Bpow (length xs) * unat c = lval xs + lval ys + unat cy \<and> length r = length xs \<and> unat c \<le> 1"
  using assms
proof (induction cy xs ys arbitrary: r c rule: add_n_loop.induct)
  case (1 cy x xs y ys)
  define z where "z = x + (y + cy)"
  define d :: limb where "d = of_bool (z < x) + of_bool (y + cy < cy)"
  note step = add_step [OF "1.prems"(2), of x y, folded z_def, folded d_def]
  obtain r' where r: "add_n_loop d xs ys = (r', c)" "r = z # r'"
    using "1.prems"(3) by (auto simp: Let_def z_def d_def split: prod.splits)
  then have IH: "lval r' + Bpow (length xs) * unat c = lval xs + lval ys + unat d" "length r' = length xs" "unat c \<le> 1"
    using "1.IH" [of "y + cy" "of_bool (y + cy < cy)" z d r' c] "1.prems"(1) step(2) by (auto simp: z_def d_def)
  have "lval r + Bpow (length (x # xs)) * unat c = unat z + 2 ^ 64 * (lval r' + Bpow (length xs) * unat c)"
    by (simp add: r(2) power_add algebra_simps)
  also have "\<dots> = lval (x # xs) + lval (y # ys) + unat cy" unfolding IH(1) using step(1) by (simp add: algebra_simps)
  finally show ?case using IH r(2) by simp
qed auto

lemma sub_n_loop_val:
  assumes "length xs = length ys" "unat cy \<le> 1" "sub_n_loop cy xs ys = (r, c)"
  shows "lval r + lval ys + unat cy = lval xs + Bpow (length xs) * unat c \<and> length r = length xs \<and> unat c \<le> 1"
  using assms
proof (induction cy xs ys arbitrary: r c rule: sub_n_loop.induct)
  case (1 cy x xs y ys)
  define z where "z = x - (y + cy)"
  define d :: limb where "d = of_bool (z > x) + of_bool (y + cy < cy)"
  note step = sub_step [OF "1.prems"(2), of x y, folded z_def, folded d_def]
  obtain r' where r: "sub_n_loop d xs ys = (r', c)" "r = z # r'"
    using "1.prems"(3) by (auto simp: Let_def z_def d_def split: prod.splits)
  then have IH: "lval r' + lval ys + unat d = lval xs + Bpow (length xs) * unat c" "length r' = length xs" "unat c \<le> 1"
    using "1.IH" [of "y + cy" "of_bool (y + cy < cy)" z d r' c] "1.prems"(1) step(2) by (auto simp: z_def d_def)
  have "lval r + lval (y # ys) + unat cy + 2 ^ 64 * unat d = unat z + unat y + unat cy + 2 ^ 64 * (lval r' + lval ys + unat d)"
    by (simp add: r(2) algebra_simps)
  also have "\<dots> = lval (x # xs) + Bpow (length (x # xs)) * unat c + 2 ^ 64 * unat d"
    unfolding IH(1) step(1) by (simp add: power_add algebra_simps)
  finally show ?case using IH r(2) by simp
qed auto

lemma mpn_add_n_val:
  assumes "mpn_add_n xs ys = (r, c)" "length xs = length ys"
  shows "lval r + Bpow (length xs) * unat c = lval xs + lval ys" "length r = length xs" "unat c \<le> 1"
  using add_n_loop_val [OF assms(2), of 0 r c] assms(1) by (simp_all add: mpn_add_n_def)

lemma mpn_sub_n_val:
  assumes "mpn_sub_n xs ys = (r, c)" "length xs = length ys"
  shows "lval r + lval ys = lval xs + Bpow (length xs) * unat c" "length r = length xs" "unat c \<le> 1"
  using sub_n_loop_val [OF assms(2), of 0 r c] assms(1) by (simp_all add: mpn_sub_n_def)

text \<open>\<open>mpn_add_1\<close> and \<open>mpn_sub_1\<close>: the loop stops at the first limb that gives no carry.\<close>

fun add_1_loop :: "limb list \<Rightarrow> limb list \<times> limb" where
  "add_1_loop [] = ([], 1)"
| "add_1_loop (x # s1) =
     (let x = x + 1
      in if x \<noteq> 0 then (x # s1, 0) else let (res, cy) = add_1_loop s1 in (x # res, cy))"

definition mpn_add_1 :: "limb list \<Rightarrow> limb \<Rightarrow> limb list \<times> limb" where
  "mpn_add_1 s1 s2_limb =
     (let x = hd s1;
          s2_limb = x + s2_limb
      in if s2_limb < x then let (res, cy) = add_1_loop (tl s1) in (s2_limb # res, cy)
         else (s2_limb # tl s1, 0))"

fun sub_1_loop :: "limb list \<Rightarrow> limb list \<times> limb" where
  "sub_1_loop [] = ([], 1)"
| "sub_1_loop (x # s1) =
     (if x \<noteq> 0 then ((x - 1) # s1, 0) else let (res, cy) = sub_1_loop s1 in ((x - 1) # res, cy))"

definition mpn_sub_1 :: "limb list \<Rightarrow> limb \<Rightarrow> limb list \<times> limb" where
  "mpn_sub_1 s1 s2_limb =
     (let x = hd s1;
          s2_limb = x - s2_limb
      in if s2_limb > x then let (res, cy) = sub_1_loop (tl s1) in (s2_limb # res, cy)
         else (s2_limb # tl s1, 0))"

definition mpn_add :: "limb list \<Rightarrow> limb list \<Rightarrow> limb list \<times> limb" where
  "mpn_add s1 s2 =
     (let (lo, cy_limb) = (if length s2 \<noteq> 0 then mpn_add_n (take (length s2) s1) s2 else ([], 0));
          (hi, cy_limb) = (if length s1 - length s2 \<noteq> 0 then mpn_add_1 (drop (length s2) s1) cy_limb else ([], cy_limb))
      in (lo @ hi, cy_limb))"

definition mpn_sub :: "limb list \<Rightarrow> limb list \<Rightarrow> limb list \<times> limb" where
  "mpn_sub s1 s2 =
     (let (lo, cy_limb) = (if length s2 \<noteq> 0 then mpn_sub_n (take (length s2) s1) s2 else ([], 0));
          (hi, cy_limb) = (if length s1 - length s2 \<noteq> 0 then mpn_sub_1 (drop (length s2) s1) cy_limb else ([], cy_limb))
      in (lo @ hi, cy_limb))"

lemma word_add_1_zero:
  "x + 1 \<noteq> 0 \<Longrightarrow> unat (x + 1 :: limb) = unat x + 1" "x + 1 = (0 :: limb) \<Longrightarrow> unat x + 1 = 2 ^ 64"
  using unat_lt2p [of x] unat_lt2p [of "x + 1"] unat_add_if [of x 1]
  by (auto simp flip: unat_eq_zero split: if_splits)

lemma add_1_loop_val:
  "add_1_loop xs = (r, c) \<Longrightarrow> lval r + Bpow (length xs) * unat c = lval xs + 1 \<and> length r = length xs \<and> unat c \<le> 1"
proof (induction xs arbitrary: r c)
  case (Cons x xs)
  show ?case
  proof (cases "x + 1 = 0")
    case True
    then obtain r' where r: "add_1_loop xs = (r', c)" "r = 0 # r'" using Cons.prems by (auto split: prod.splits)
    then have "lval r + Bpow (length (x # xs)) * unat c = 2 ^ 64 * (lval r' + Bpow (length xs) * unat c)"
      by (simp add: power_add algebra_simps)
    then show ?thesis using Cons.IH [OF r(1)] r(2) word_add_1_zero(2) [OF True] by simp
  next
    case False
    then show ?thesis using Cons.prems word_add_1_zero(1) [OF False] by auto
  qed
qed auto

lemma mpn_add_1_val:
  assumes "mpn_add_1 xs v = (r, c)" "xs \<noteq> []"
  shows "lval r + Bpow (length xs) * unat c = lval xs + unat v" "length r = length xs" "unat c \<le> 1"
proof -
  obtain x ys where xs: "xs = x # ys" using assms(2) by (cases xs) auto
  have s: "unat x + unat v = (if x + v < x then 2 ^ 64 else 0) + unat (x + v)"
    by (rule limb_add_carry)
  have "lval r + Bpow (length xs) * unat c = lval xs + unat v \<and> length r = length xs \<and> unat c \<le> 1"
  proof (cases "x + v < x")
    case True
    then obtain r' where r: "add_1_loop ys = (r', c)" "r = (x + v) # r'"
      using assms(1) by (auto simp: mpn_add_1_def xs Let_def split: prod.splits)
    then have "lval r + Bpow (length xs) * unat c = unat (x + v) + 2 ^ 64 * (lval r' + Bpow (length ys) * unat c)"
      by (simp add: xs power_add algebra_simps)
    then show ?thesis using add_1_loop_val [OF r(1)] r(2) s True by (simp add: xs)
  next
    case False
    then show ?thesis using assms(1) s by (auto simp: mpn_add_1_def xs)
  qed
  then show "lval r + Bpow (length xs) * unat c = lval xs + unat v" "length r = length xs" "unat c \<le> 1" by auto
qed

lemma sub_1_loop_val:
  "sub_1_loop xs = (r, c) \<Longrightarrow> lval r + 1 = lval xs + Bpow (length xs) * unat c \<and> length r = length xs \<and> unat c \<le> 1"
proof (induction xs arbitrary: r c)
  case (Cons x xs)
  show ?case
  proof (cases "x = 0")
    case True
    then obtain r' where r: "sub_1_loop xs = (r', c)" "r = (0 - 1) # r'" using Cons.prems by (auto split: prod.splits)
    have "unat (0 - 1 :: limb) + 1 = 2 ^ 64" by (simp add: unsigned_minus_1_eq_mask mask_eq_exp_minus_1)
    then have "lval r + 1 = 2 ^ 64 * (lval r' + 1)" by (simp add: r(2))
    then show ?thesis using Cons.IH [OF r(1)] r(2) True by (simp add: power_add algebra_simps)
  next
    case False
    then have "unat (x - 1) + 1 = unat x" by (metis Suc_eq_plus1 unat_gt_0 unat_minus_one Suc_pred')
    then show ?thesis using Cons.prems False by auto
  qed
qed auto

lemma mpn_sub_1_val:
  assumes "mpn_sub_1 xs v = (r, c)" "xs \<noteq> []"
  shows "lval r + unat v = lval xs + Bpow (length xs) * unat c" "length r = length xs" "unat c \<le> 1"
proof -
  obtain x ys where xs: "xs = x # ys" using assms(2) by (cases xs) auto
  have s: "unat (x - v) + unat v = (if x - v > x then 2 ^ 64 else 0) + unat x"
    using word_add_carry [of "x - v" v] by (simp add: word_diff_greater)
  have "lval r + unat v = lval xs + Bpow (length xs) * unat c \<and> length r = length xs \<and> unat c \<le> 1"
  proof (cases "x - v > x")
    case True
    then obtain r' where r: "sub_1_loop ys = (r', c)" "r = (x - v) # r'"
      using assms(1) by (auto simp: mpn_sub_1_def xs Let_def split: prod.splits)
    then have "lval r + unat v = unat x + 2 ^ 64 * (lval r' + 1)" using s True by simp
    then show ?thesis using sub_1_loop_val [OF r(1)] r(2) by (simp add: xs power_add algebra_simps)
  next
    case False
    then show ?thesis using assms(1) s by (auto simp: mpn_sub_1_def xs)
  qed
  then show "lval r + unat v = lval xs + Bpow (length xs) * unat c" "length r = length xs" "unat c \<le> 1" by auto
qed

section \<open>Multiplication by a limb\<close>

fun mul_1_loop :: "limb \<Rightarrow> limb list \<Rightarrow> limb \<Rightarrow> limb list \<times> limb" where
  "mul_1_loop cy_limb [] s2_limb = ([], cy_limb)"
| "mul_1_loop cy_limb (s # s1) s2_limb =
     (let (prod_high, prod_low) = umul_ppmm s s2_limb;
          prod_low = prod_low + cy_limb;
          cy_limb = of_bool (prod_low < cy_limb) + prod_high;
          (res, cy_limb) = mul_1_loop cy_limb s1 s2_limb
      in (prod_low # res, cy_limb))"

definition mpn_mul_1 :: "limb list \<Rightarrow> limb \<Rightarrow> limb list \<times> limb" where
  "mpn_mul_1 s1 s2_limb = mul_1_loop 0 s1 s2_limb"

fun addmul_1_loop :: "limb \<Rightarrow> limb list \<Rightarrow> limb list \<Rightarrow> limb \<Rightarrow> limb list \<times> limb" where
  "addmul_1_loop cy_limb (x # res) (s # s1) s2_limb =
     (let (prod_high, prod_low) = umul_ppmm s s2_limb;
          prod_low = prod_low + cy_limb;
          cy_limb = of_bool (prod_low < cy_limb) + prod_high;
          prod_low = x + prod_low;
          cy_limb = cy_limb + of_bool (prod_low < x);
          (res, cy_limb) = addmul_1_loop cy_limb res s1 s2_limb
      in (prod_low # res, cy_limb))"
| "addmul_1_loop cy_limb _ _ s2_limb = ([], cy_limb)"

definition mpn_addmul_1 :: "limb list \<Rightarrow> limb list \<Rightarrow> limb \<Rightarrow> limb list \<times> limb" where
  "mpn_addmul_1 res s1 s2_limb = addmul_1_loop 0 res s1 s2_limb"

fun submul_1_loop :: "limb \<Rightarrow> limb list \<Rightarrow> limb list \<Rightarrow> limb \<Rightarrow> limb list \<times> limb" where
  "submul_1_loop cy_limb (x # res) (s # s1) s2_limb =
     (let (prod_high, prod_low) = umul_ppmm s s2_limb;
          prod_low = prod_low + cy_limb;
          cy_limb = of_bool (prod_low < cy_limb) + prod_high;
          prod_low = x - prod_low;
          cy_limb = cy_limb + of_bool (prod_low > x);
          (res, cy_limb) = submul_1_loop cy_limb res s1 s2_limb
      in (prod_low # res, cy_limb))"
| "submul_1_loop cy_limb _ _ s2_limb = ([], cy_limb)"

definition mpn_submul_1 :: "limb list \<Rightarrow> limb list \<Rightarrow> limb \<Rightarrow> limb list \<times> limb" where
  "mpn_submul_1 res s1 s2_limb = submul_1_loop 0 res s1 s2_limb"

lemma limb_product_le: "unat (x :: limb) * unat (y :: limb) \<le> (2 ^ 64 - 1) * (2 ^ 64 - 1)"
  using unat_lt2p [of x] unat_lt2p [of y] by (intro mult_le_mono) simp_all

lemma mul_step:
  assumes "umul_ppmm s v = (h, l)"
  shows "unat (of_bool (l + cy < cy) + h) * 2 ^ 64 + unat (l + cy) = unat s * unat v + unat cy"
proof -
  have "unat h * 2 ^ 64 + unat l + unat cy < 2 ^ 128"
    using umul_ppmm_spec [OF assms] limb_product_le [of s v] unat_lt2p [of cy] by simp
  from carry_in [OF this] show ?thesis using umul_ppmm_spec [OF assms] by (simp add: add.commute [of _ h])
qed

lemma mul_1_loop_val:
  assumes "mul_1_loop cy xs v = (r, c)"
  shows "lval r + Bpow (length xs) * unat c = lval xs * unat v + unat cy \<and> length r = length xs"
  using assms
proof (induction xs arbitrary: cy r c)
  case (Cons x xs)
  obtain h l where u: "umul_ppmm x v = (h, l)" by fastforce
  define d where "d = of_bool (l + cy < cy) + h"
  note step = mul_step [OF u, of cy, folded d_def]
  obtain r' where r: "mul_1_loop d xs v = (r', c)" "r = (l + cy) # r'"
    using Cons.prems u by (auto simp: Let_def d_def split: prod.splits)
  have "lval r + Bpow (length (x # xs)) * unat c = unat (l + cy) + 2 ^ 64 * (lval r' + Bpow (length xs) * unat c)"
    by (simp add: r(2) power_add algebra_simps)
  also have "\<dots> = (unat d * 2 ^ 64 + unat (l + cy)) + 2 ^ 64 * (lval xs * unat v)"
    using Cons.IH [OF r(1)] by (simp add: algebra_simps)
  also have "\<dots> = lval (x # xs) * unat v + unat cy" unfolding step by (simp add: algebra_simps)
  finally show ?case using Cons.IH [OF r(1)] r(2) by simp
qed auto

lemma mpn_mul_1_val:
  assumes "mpn_mul_1 xs v = (r, c)"
  shows "lval r + Bpow (length xs) * unat c = lval xs * unat v" "length r = length xs"
  using mul_1_loop_val [of 0 xs v r c] assms by (simp_all add: mpn_mul_1_def)

lemma addmul_step:
  fixes s v h l cy x :: limb
  assumes "umul_ppmm s v = (h, l)"
  defines "p \<equiv> l + cy" and "d \<equiv> of_bool (l + cy < cy) + h"
  shows "unat (d + of_bool (x + p < x)) * 2 ^ 64 + unat (x + p) = unat s * unat v + unat cy + unat x"
proof -
  have m: "unat d * 2 ^ 64 + unat p = unat s * unat v + unat cy"
    using mul_step [OF assms(1), of cy] by (simp add: p_def d_def)
  then have "unat d * 2 ^ 64 + unat p + unat x < 2 ^ 128"
    using limb_product_le [of s v] unat_lt2p [of cy] unat_lt2p [of x] by simp
  from carry_in [OF this] show ?thesis unfolding m by (simp only: add.commute [of p x])
qed

lemma addmul_1_loop_val:
  assumes "length res = length xs" "addmul_1_loop cy res xs v = (r, c)"
  shows "lval r + Bpow (length xs) * unat c = lval res + lval xs * unat v + unat cy \<and> length r = length xs"
  using assms
proof (induction cy res xs v arbitrary: r c rule: addmul_1_loop.induct)
  case (1 cy x res s xs v)
  obtain h l where u: "umul_ppmm s v = (h, l)" by fastforce
  define p where "p = x + (l + cy)"
  define d where "d = of_bool (l + cy < cy) + h + of_bool (p < x)"
  note step = addmul_step [OF u, where x = x and cy = cy, folded p_def, folded d_def]
  obtain r' where r: "addmul_1_loop d res xs v = (r', c)" "r = p # r'"
    using "1.prems" u by (auto simp: Let_def p_def d_def split: prod.splits)
  have IH: "lval r' + Bpow (length xs) * unat c = lval res + lval xs * unat v + unat d" "length r' = length xs"
    using "1.IH" [OF u [symmetric] refl refl refl refl refl, folded p_def, folded d_def, OF _ r(1)] "1.prems"(1) by simp_all
  have "lval r + Bpow (length (s # xs)) * unat c = unat p + 2 ^ 64 * (lval r' + Bpow (length xs) * unat c)"
    by (simp add: r(2) power_add algebra_simps)
  also have "\<dots> = (unat d * 2 ^ 64 + unat p) + 2 ^ 64 * (lval res + lval xs * unat v)"
    unfolding IH(1) by (simp add: algebra_simps)
  also have "\<dots> = lval (x # res) + lval (s # xs) * unat v + unat cy" unfolding step by (simp add: algebra_simps)
  finally show ?case using IH(2) r(2) by simp
qed auto

lemma mpn_addmul_1_val:
  assumes "mpn_addmul_1 res xs v = (r, c)" "length res = length xs"
  shows "lval r + Bpow (length xs) * unat c = lval res + lval xs * unat v" "length r = length xs"
  using addmul_1_loop_val [OF assms(2), of 0 v r c] assms(1) by (simp_all add: mpn_addmul_1_def)

lemma submul_step:
  fixes s v h l cy x :: limb
  assumes "umul_ppmm s v = (h, l)"
  defines "p \<equiv> l + cy" and "d \<equiv> of_bool (l + cy < cy) + h"
  shows "unat (x - p) + (unat s * unat v + unat cy) = unat x + 2 ^ 64 * unat (d + of_bool (x - p > x))"
proof -
  have m: "unat d * 2 ^ 64 + unat p = unat s * unat v + unat cy"
    using mul_step [OF assms(1), of cy] by (simp add: p_def d_def)
  then have "unat d * 2 ^ 64 + unat p \<le> (2 ^ 64 - 1) * 2 ^ 64"
    using limb_product_le [of s v] unat_lt2p [of cy] by simp
  from borrow_out [OF this] show ?thesis unfolding m .
qed

lemma submul_1_loop_val:
  assumes "length res = length xs" "submul_1_loop cy res xs v = (r, c)"
  shows "lval r + lval xs * unat v + unat cy = lval res + Bpow (length xs) * unat c \<and> length r = length xs"
  using assms
proof (induction cy res xs v arbitrary: r c rule: submul_1_loop.induct)
  case (1 cy x res s xs v)
  obtain h l where u: "umul_ppmm s v = (h, l)" by fastforce
  define p where "p = x - (l + cy)"
  define d where "d = of_bool (l + cy < cy) + h + of_bool (p > x)"
  note step = submul_step [OF u, where x = x and cy = cy, folded p_def, folded d_def]
  obtain r' where r: "submul_1_loop d res xs v = (r', c)" "r = p # r'"
    using "1.prems" u by (auto simp: Let_def p_def d_def split: prod.splits)
  have IH: "lval r' + lval xs * unat v + unat d = lval res + Bpow (length xs) * unat c" "length r' = length xs"
    using "1.IH" [OF u [symmetric] refl refl refl refl refl, folded p_def, folded d_def, OF _ r(1)] "1.prems"(1) by simp_all
  have "lval r + lval (s # xs) * unat v + unat cy + 2 ^ 64 * unat d =
      unat p + (unat s * unat v + unat cy) + 2 ^ 64 * (lval r' + lval xs * unat v + unat d)"
    by (simp add: r(2) algebra_simps)
  also have "\<dots> = lval (x # res) + Bpow (length (s # xs)) * unat c + 2 ^ 64 * unat d"
    unfolding IH(1) step by (simp add: power_add algebra_simps)
  finally show ?case using IH(2) r(2) by simp
qed auto

lemma mpn_submul_1_val:
  assumes "mpn_submul_1 res xs v = (r, c)" "length res = length xs"
  shows "lval r + lval xs * unat v = lval res + Bpow (length xs) * unat c" "length r = length xs"
  using submul_1_loop_val [OF assms(2), of 0 v r c] assms(1) by (simp_all add: mpn_submul_1_def)

section \<open>Shifts\<close>

text \<open>The loop of \<open>mpn_lshift\<close> goes down from limb \<open>i - 1\<close>; what it stores comes back lowest limb first.\<close>

fun lshift_loop :: "limb list \<Rightarrow> nat \<Rightarrow> limb \<Rightarrow> nat \<Rightarrow> limb list" where
  "lshift_loop up sh_1 high_limb 0 = [push_bit sh_1 high_limb]"
| "lshift_loop up sh_1 high_limb (Suc i) =
     (let low_limb = up ! i
      in lshift_loop up sh_1 low_limb i @ [push_bit sh_1 high_limb OR drop_bit (64 - sh_1) low_limb])"

definition mpn_lshift :: "limb list \<Rightarrow> nat \<Rightarrow> limb list \<times> limb" where
  "mpn_lshift up cnt =
     (let i = length up - 1;
          low_limb = up ! i;
          retval = drop_bit (64 - cnt) low_limb
      in (lshift_loop up cnt low_limb i, retval))"

fun rshift_loop :: "nat \<Rightarrow> limb \<Rightarrow> limb list \<Rightarrow> limb list" where
  "rshift_loop sh_1 low_limb [] = [drop_bit sh_1 low_limb]"
| "rshift_loop sh_1 low_limb (high_limb # up) =
     (drop_bit sh_1 low_limb OR push_bit (64 - sh_1) high_limb) # rshift_loop sh_1 high_limb up"

definition mpn_rshift :: "limb list \<Rightarrow> nat \<Rightarrow> limb list \<times> limb" where
  "mpn_rshift up cnt =
     (let high_limb = hd up;
          retval = push_bit (64 - cnt) high_limb
      in (rshift_loop cnt high_limb (tl up), retval))"

lemma limb_shift_split:
  fixes w :: limb
  assumes "n \<le> 64"
  shows "unat (push_bit n w) + 2 ^ 64 * unat (drop_bit (64 - n) w) = unat w * 2 ^ n"
proof -
  have e: "(2 :: nat) ^ 64 = 2 ^ n * 2 ^ (64 - n)" using assms by (simp flip: power_add)
  have "unat (push_bit n w) = unat w * 2 ^ n mod 2 ^ 64"
    unfolding unsigned_push_bit_eq by (simp add: push_bit_eq_mult take_bit_eq_mod)
  moreover have "unat (drop_bit (64 - n) w) = unat w * 2 ^ n div 2 ^ 64"
    unfolding e unsigned_drop_bit_eq using unat_lt2p [of w] by (simp add: drop_bit_eq_div take_bit_nat_eq_self)
  ultimately show ?thesis by (simp only: mod_mult_div_eq)
qed

lemma unat_or_shifts:
  fixes x y :: limb
  assumes "n \<le> 64"
  shows "unat (push_bit n x OR drop_bit (64 - n) y) = unat (push_bit n x) + unat (drop_bit (64 - n) y)"
proof -
  have "push_bit n x AND drop_bit (64 - n) y = 0"
    using assms by (intro bit_word_eqI) (auto simp: bit_simps dest: bit_imp_le_length)
  then have "unat (push_bit n x) AND unat (drop_bit (64 - n) y) = 0" by (metis unsigned_0 unsigned_and_eq)
  then show ?thesis by (simp add: unsigned_or_eq flip: disjunctive_add_eq_or)
qed

lemma lshift_loop_val:
  assumes "cnt \<le> 64" "i \<le> length up"
  shows "lval (lshift_loop up cnt high i) + Bpow (Suc i) * unat (drop_bit (64 - cnt) high) = lval (take i up @ [high]) * 2 ^ cnt \<and>
    length (lshift_loop up cnt high i) = Suc i"
  using assms
proof (induction i arbitrary: high)
  case 0
  then show ?case using limb_shift_split [of cnt high] by simp
next
  case (Suc i)
  let ?l = "drop_bit (64 - cnt) (up ! i)" and ?h = "push_bit cnt high" and ?r = "lshift_loop up cnt (up ! i) i"
  have IH: "lval ?r + Bpow (Suc i) * unat ?l = lval (take i up @ [up ! i]) * 2 ^ cnt" "length ?r = Suc i"
    using Suc by simp_all
  have "lval (lshift_loop up cnt high (Suc i)) + Bpow (Suc (Suc i)) * unat (drop_bit (64 - cnt) high) =
      (lval ?r + Bpow (Suc i) * unat ?l) + Bpow (Suc i) * (unat ?h + 2 ^ 64 * unat (drop_bit (64 - cnt) high))"
    using IH(2) Suc.prems(1) by (simp add: unat_or_shifts Let_def power_add algebra_simps)
  also have "\<dots> = lval (take (Suc i) up @ [high]) * 2 ^ cnt"
    using IH(1) limb_shift_split [of cnt high] Suc.prems by (simp add: take_Suc_conv_app_nth power_add algebra_simps)
  finally show ?case using IH(2) by (simp add: Let_def)
qed

lemma mpn_lshift_val:
  assumes "mpn_lshift up cnt = (r, c)" "up \<noteq> []" "cnt \<le> 64"
  shows "lval r + Bpow (length up) * unat c = lval up * 2 ^ cnt" "length r = length up"
proof -
  have "take (length up - 1) up @ [up ! (length up - 1)] = up"
    using assms(2) take_Suc_conv_app_nth [of "length up - 1" up] by simp
  then show "lval r + Bpow (length up) * unat c = lval up * 2 ^ cnt" "length r = length up"
    using lshift_loop_val [OF assms(3), of "length up - 1" up "up ! (length up - 1)"] assms(1,2)
    by (auto simp: mpn_lshift_def Let_def)
qed

lemma rshift_loop_val:
  assumes "cnt \<le> 64"
  shows "2 ^ 64 * lval (rshift_loop cnt low up) + unat (push_bit (64 - cnt) low) = lval (low # up) * 2 ^ (64 - cnt) \<and>
    length (rshift_loop cnt low up) = Suc (length up)"
proof (induction up arbitrary: low)
  case Nil
  then show ?case using limb_shift_split [of "64 - cnt" low] assms by simp
next
  case (Cons high up)
  have "unat (drop_bit cnt low OR push_bit (64 - cnt) high) = unat (drop_bit cnt low) + unat (push_bit (64 - cnt) high)"
    using unat_or_shifts [of "64 - cnt" high low] assms by (simp add: or.commute add.commute)
  then have "2 ^ 64 * lval (rshift_loop cnt low (high # up)) + unat (push_bit (64 - cnt) low) =
      (unat (push_bit (64 - cnt) low) + 2 ^ 64 * unat (drop_bit cnt low)) +
      2 ^ 64 * (2 ^ 64 * lval (rshift_loop cnt high up) + unat (push_bit (64 - cnt) high))"
    by (simp add: algebra_simps)
  also have "\<dots> = lval (low # high # up) * 2 ^ (64 - cnt)"
    using Cons limb_shift_split [of "64 - cnt" low] assms by (simp add: algebra_simps)
  finally show ?case using Cons by simp
qed

lemma mpn_rshift_val:
  assumes "mpn_rshift up cnt = (r, c)" "up \<noteq> []" "cnt \<le> 64"
  shows "2 ^ 64 * lval r + unat c = lval up * 2 ^ (64 - cnt)" "length r = length up"
  using rshift_loop_val [OF assms(3), of "hd up" "tl up"] assms(1,2) by (auto simp: mpn_rshift_def Let_def)

section \<open>Comparison\<close>

fun cmp_loop :: "limb list \<Rightarrow> limb list \<Rightarrow> nat \<Rightarrow> int" where
  "cmp_loop op1 op2 0 = 0"
| "cmp_loop op1 op2 (Suc i) =
     (let op1_word = op1 ! i; op2_word = op2 ! i
      in if op1_word \<noteq> op2_word then (if op1_word > op2_word then 1 else -1) else cmp_loop op1 op2 i)"

definition mpn_cmp :: "limb list \<Rightarrow> limb list \<Rightarrow> nat \<Rightarrow> int" where
  "mpn_cmp op1 op2 n = cmp_loop op1 op2 n"

lemma lval_top_less:
  assumes "length xs = length ys" "unat x < unat y"
  shows "lval (xs @ [x]) < lval (ys @ [y])"
proof -
  have "Bpow (length xs) * Suc (unat x) \<le> Bpow (length xs) * unat y" using assms(2) by (intro mult_le_mono2) simp
  then show ?thesis using lval_less [of xs] assms(1) by simp
qed

lemma cmp_loop_val:
  assumes "n \<le> length xs" "n \<le> length ys"
  shows "cmp_loop xs ys n = sgn (int (lval (take n xs)) - int (lval (take n ys)))"
  using assms
proof (induction n)
  case (Suc n)
  have t: "take (Suc n) xs = take n xs @ [xs ! n]" "take (Suc n) ys = take n ys @ [ys ! n]"
    using Suc.prems by (simp_all add: take_Suc_conv_app_nth)
  have l: "length (take n xs) = length (take n ys)" using Suc.prems by simp
  consider "unat (xs ! n) < unat (ys ! n)" | "unat (ys ! n) < unat (xs ! n)" | "xs ! n = ys ! n"
    by (metis linorder_neqE_nat word_unat_eq_iff)
  then show ?case
  proof cases
    case 1
    then show ?thesis using lval_top_less [OF l 1] by (auto simp: t word_less_nat_alt Let_def simp del: lval_append)
  next
    case 2
    then show ?thesis
      using lval_top_less [OF l [symmetric] 2] by (auto simp: t word_less_nat_alt Let_def simp del: lval_append)
  next
    case 3
    then show ?thesis using Suc l by (simp add: t)
  qed
qed simp

lemma mpn_cmp_val:
  "n \<le> length xs \<Longrightarrow> n \<le> length ys \<Longrightarrow> mpn_cmp xs ys n = sgn (int (lval (take n xs)) - int (lval (take n ys)))"
  by (simp add: mpn_cmp_def cmp_loop_val)

section \<open>Numbers of different lengths\<close>

lemma mpn_add_val:
  assumes "length ys \<le> length xs" "mpn_add xs ys = (r, c)"
  shows "lval r + Bpow (length xs) * unat c = lval xs + lval ys" "length r = length xs" "unat c \<le> 1"
proof -
  let ?n = "length ys" and ?m = "length xs - length ys"
  have split: "lval xs = lval (take ?n xs) + Bpow ?n * lval (drop ?n xs)" "length (take ?n xs) = ?n"
    using assms(1) by (simp_all add: lval_take_drop)
  have pow: "Bpow (length xs) = Bpow ?n * Bpow ?m" using assms(1) by (simp flip: power_add add: distrib_left [symmetric])
  obtain lo c1 where lo: "(if ?n \<noteq> 0 then mpn_add_n (take ?n xs) ys else ([], 0)) = (lo, c1)" by fastforce
  then have lo': "lval lo + Bpow ?n * unat c1 = lval (take ?n xs) + lval ys" "length lo = ?n" "unat c1 \<le> 1"
    using mpn_add_n_val [of "take ?n xs" ys lo c1] split(2) by (auto split: if_splits)
  obtain hi c2 where hi: "(if ?m \<noteq> 0 then mpn_add_1 (drop ?n xs) c1 else ([], c1)) = (hi, c2)" by fastforce
  then have hi': "lval hi + Bpow ?m * unat c2 = lval (drop ?n xs) + unat c1" "length hi = ?m" "unat c2 \<le> 1"
    using mpn_add_1_val [of "drop ?n xs" c1 hi c2] lo'(3) by (auto split: if_splits)
  have r: "r = lo @ hi" "c = c2" using assms(2) lo hi by (simp_all add: mpn_add_def)
  have "lval r + Bpow (length xs) * unat c = lval lo + Bpow ?n * (lval hi + Bpow ?m * unat c2)"
    unfolding r pow using lo'(2) by (simp add: algebra_simps)
  also have "\<dots> = lval xs + lval ys" unfolding hi'(1) split(1) using lo'(1) by (simp add: algebra_simps)
  finally show "lval r + Bpow (length xs) * unat c = lval xs + lval ys" .
  show "length r = length xs" "unat c \<le> 1" using r lo'(2) hi'(2,3) assms(1) by simp_all
qed

lemma mpn_sub_val:
  assumes "length ys \<le> length xs" "mpn_sub xs ys = (r, c)"
  shows "lval r + lval ys = lval xs + Bpow (length xs) * unat c" "length r = length xs" "unat c \<le> 1"
proof -
  let ?n = "length ys" and ?m = "length xs - length ys"
  have split: "lval xs = lval (take ?n xs) + Bpow ?n * lval (drop ?n xs)" "length (take ?n xs) = ?n"
    using assms(1) by (simp_all add: lval_take_drop)
  have pow: "Bpow (length xs) = Bpow ?n * Bpow ?m" using assms(1) by (simp flip: power_add add: distrib_left [symmetric])
  obtain lo c1 where lo: "(if ?n \<noteq> 0 then mpn_sub_n (take ?n xs) ys else ([], 0)) = (lo, c1)" by fastforce
  then have lo': "lval lo + lval ys = lval (take ?n xs) + Bpow ?n * unat c1" "length lo = ?n" "unat c1 \<le> 1"
    using mpn_sub_n_val [of "take ?n xs" ys lo c1] split(2) by (auto split: if_splits)
  obtain hi c2 where hi: "(if ?m \<noteq> 0 then mpn_sub_1 (drop ?n xs) c1 else ([], c1)) = (hi, c2)" by fastforce
  then have hi': "lval hi + unat c1 = lval (drop ?n xs) + Bpow ?m * unat c2" "length hi = ?m" "unat c2 \<le> 1"
    using mpn_sub_1_val [of "drop ?n xs" c1 hi c2] lo'(3) by (auto split: if_splits)
  have r: "r = lo @ hi" "c = c2" using assms(2) lo hi by (simp_all add: mpn_sub_def)
  have "lval r + lval ys + Bpow ?n * unat c1 = lval lo + lval ys + Bpow ?n * (lval hi + unat c1)"
    unfolding r using lo'(2) by (simp add: algebra_simps)
  also have "\<dots> = lval xs + Bpow (length xs) * unat c + Bpow ?n * unat c1"
    unfolding lo'(1) hi'(1) split(1) pow r by (simp add: algebra_simps)
  finally show "lval r + lval ys = lval xs + Bpow (length xs) * unat c" by simp
  show "length r = length xs" "unat c \<le> 1" using r lo'(2) hi'(2,3) assms(1) by simp_all
qed

section \<open>Properties\<close>

text \<open>
  C21: \<open>mpn_add\<close> and \<open>mpn_sub\<close> on numbers of different lengths, the second not longer than the first: the result has
  as many limbs as the first number, and with the carry or borrow that is returned, which is 0 or 1, it is the
  exact sum or difference.
\<close>

theorem mpn_add_sub:
  assumes "length ys \<le> length xs" "mpn_add xs ys = (r, c)" "mpn_sub xs ys = (s, b)"
  shows "lval r + Bpow (length xs) * unat c = lval xs + lval ys \<and> lval s + lval ys = lval xs + Bpow (length xs) * unat b \<and>
    length r = length xs \<and> length s = length xs \<and> unat c \<le> 1 \<and> unat b \<le> 1"
  using mpn_add_val [OF assms(1,2)] mpn_sub_val [OF assms(1,3)] by simp

theorem mpn_add_sub_witness:
  "mpn_add [0xFFFFFFFFFFFFFFFF, 0xFFFFFFFFFFFFFFFF, 5] [1] = ([0, 0, 6], 0) \<and> mpn_sub [0xFFFFFFFFFFFFFFFF, 0xFFFFFFFFFFFFFFFF, 5] [1] = ([0xFFFFFFFFFFFFFFFE, 0xFFFFFFFFFFFFFFFF, 5], 0) \<and>
   lval [0, 0, 6] = lval [0xFFFFFFFFFFFFFFFF, 0xFFFFFFFFFFFFFFFF, 5] + lval [1]"
proof -
  have "mpn_add [0xFFFFFFFFFFFFFFFF, 0xFFFFFFFFFFFFFFFF, 5] [1] = ([0, 0, 6], 0)" "mpn_sub [0xFFFFFFFFFFFFFFFF, 0xFFFFFFFFFFFFFFFF, 5] [1] = ([0xFFFFFFFFFFFFFFFE, 0xFFFFFFFFFFFFFFFF, 5], 0)"
    by (simp_all add: mpn_add_def mpn_add_n_def mpn_add_1_def mpn_sub_def mpn_sub_n_def mpn_sub_1_def Let_def)
  with mpn_add_sub [OF _ this] show ?thesis by simp
qed

text \<open>
  C22: the products of a number and a limb are exact: \<open>mpn_mul_1\<close> stores the product, \<open>mpn_addmul_1\<close> adds it to the
  destination and \<open>mpn_submul_1\<close> takes it from the destination, and the limb that is returned is what
  does not fit.
\<close>

theorem mpn_limb_products:
  assumes "length res = length xs" "mpn_mul_1 xs v = (p, c)" "mpn_addmul_1 res xs v = (a, d)" "mpn_submul_1 res xs v = (s, b)"
  shows "lval p + Bpow (length xs) * unat c = lval xs * unat v \<and>
    lval a + Bpow (length xs) * unat d = lval res + lval xs * unat v \<and>
    lval s + lval xs * unat v = lval res + Bpow (length xs) * unat b \<and>
    length p = length xs \<and> length a = length xs \<and> length s = length xs"
  using mpn_mul_1_val [OF assms(2)] mpn_addmul_1_val [OF assms(3,1)] mpn_submul_1_val [OF assms(4,1)] by simp

theorem mpn_limb_products_witness:
  "\<exists>p c a d s b. mpn_mul_1 [7, - 1] (- 1) = (p, c) \<and> mpn_addmul_1 [1, 2] [7, - 1] (- 1) = (a, d) \<and>
     mpn_submul_1 [1, 2] [7, - 1] (- 1) = (s, b) \<and> lval p + Bpow 2 * unat c = lval [7, - 1] * unat (- 1 :: limb)"
proof -
  obtain p c where p: "mpn_mul_1 [7, - 1] (- 1) = (p, c)" by fastforce
  obtain a d where a: "mpn_addmul_1 [1, 2] [7, - 1] (- 1) = (a, d)" by fastforce
  obtain s b where s: "mpn_submul_1 [1, 2] [7, - 1] (- 1) = (s, b)" by fastforce
  show ?thesis using mpn_limb_products [OF _ p a s] p a s by simp
qed

text \<open>
  C23: shifting a number by \<open>cnt\<close> bits multiplies it by \<open>2 ^ cnt\<close> or divides it, without losing a bit: the bits that leave
  the number are in the returned limb, at its low end for \<open>mpn_lshift\<close> and at its high end for \<open>mpn_rshift\<close>.
\<close>

theorem mpn_shifts:
  assumes "xs \<noteq> []" "0 < cnt" "cnt < 64" "mpn_lshift xs cnt = (l, out)" "mpn_rshift xs cnt = (r, low)"
  shows "lval l + Bpow (length xs) * unat out = lval xs * 2 ^ cnt \<and>
    2 ^ 64 * lval r + unat low = lval xs * 2 ^ (64 - cnt) \<and> lval r = lval xs div 2 ^ cnt \<and>
    length l = length xs \<and> length r = length xs"
proof -
  have r: "2 ^ 64 * lval r + unat low = lval xs * 2 ^ (64 - cnt)" "length r = length xs"
    using mpn_rshift_val [OF assms(5,1)] assms(3) by simp_all
  have e: "(2 :: nat) ^ 64 = 2 ^ cnt * 2 ^ (64 - cnt)" using assms(3) by (simp flip: power_add)
  have "lval xs div 2 ^ cnt = lval xs * 2 ^ (64 - cnt) div 2 ^ 64" unfolding e by simp
  also have "\<dots> = lval r" unfolding r(1) [symmetric] using unat_lt2p [of low] by simp
  finally show ?thesis using r mpn_lshift_val [OF assms(4,1)] assms(3) by simp
qed

theorem mpn_shifts_witness:
  "\<exists>l out r low. mpn_lshift [5, 3] 2 = (l, out) \<and> mpn_rshift [5, 3] 2 = (r, low) \<and> lval r = (5 + 2 ^ 64 * 3) div 4"
proof -
  obtain l out where l: "mpn_lshift [5, 3] 2 = (l, out)" by fastforce
  obtain r low where r: "mpn_rshift [5, 3] 2 = (r, low)" by fastforce
  show ?thesis using mpn_shifts [OF _ _ _ l r] l r by simp
qed

text \<open>
  C24: \<open>mpn_cmp\<close> returns the sign of the difference of the two numbers.
\<close>

theorem mpn_cmp_sgn:
  assumes "length xs = n" "length ys = n"
  shows "mpn_cmp xs ys n = sgn (int (lval xs) - int (lval ys))"
  using mpn_cmp_val [of n xs ys] assms by simp

theorem mpn_cmp_sgn_witness: "mpn_cmp [0, 1] [7, 0] 2 = 1"
  using mpn_cmp_sgn [of "[0, 1]" 2 "[7, 0]"] by simp
end
