(* ===== verification/Mpn_Basecase.thy ===== *)
theory Mpn_Basecase
  imports Mpn
begin

text \<open>
  The schoolbook method of multiplication of \<open>stdlib/mul.c\<close> and \<open>stdlib/mul_n.c\<close>.

  A pointer to an array that is written is the list of the limbs from there to the end of the array, and a
  routine returns the array after the call; \<open>p + i\<close> is \<open>drop i p\<close> and a store at \<open>p + i\<close> is \<open>store_at p i\<close>.  The
  destination is apart from the operands, as the code demands, and the scratch space \<open>tspace\<close> from both.
\<close>

definition KARATSUBA_THRESHOLD :: nat where
  "KARATSUBA_THRESHOLD = 32"

section \<open>The schoolbook method\<close>

text \<open>
  The code appears three times, in \<open>mpn_mul\<close>, \<open>impn_mul_n_basecase\<close> and \<open>impn_sqr_n_basecase\<close>.  The loop is
  over the limbs of \<open>vp\<close> from the second one on, and returns the array and the last \<open>cy_limb\<close>.
\<close>

fun basecase_loop :: "limb list \<Rightarrow> limb list \<Rightarrow> limb \<Rightarrow> limb list \<Rightarrow> limb list \<times> limb" where
  "basecase_loop prodp up cy_limb [] = (prodp, cy_limb)"
| "basecase_loop prodp up cy_limb (v_limb # vp) =
     (let usize = length up;
          (lo, cy_limb) =
            (if v_limb \<le> 1 then (if v_limb = 1 then mpn_add_n (take usize prodp) up else (take usize prodp, 0))
             else mpn_addmul_1 (take usize prodp) up v_limb);
          prodp = store_at prodp 0 lo;
          prodp = store_at prodp usize [cy_limb];
          (rest, cy_limb) = basecase_loop (tl prodp) up cy_limb vp
      in (hd prodp # rest, cy_limb))"

definition mul_basecase :: "limb list \<Rightarrow> limb list \<Rightarrow> limb list \<Rightarrow> limb list \<times> limb" where
  "mul_basecase prodp up vp =
     (let usize = length up;
          v_limb = hd vp;
          (lo, cy_limb) =
            (if v_limb \<le> 1 then (if v_limb = 1 then (up, 0) else (replicate usize 0, 0))
             else mpn_mul_1 up v_limb);
          prodp = store_at prodp 0 lo;
          prodp = store_at prodp usize [cy_limb];
          (rest, cy_limb) = basecase_loop (tl prodp) up cy_limb (tl vp)
      in (hd prodp # rest, cy_limb))"

definition impn_mul_n_basecase :: "limb list \<Rightarrow> limb list \<Rightarrow> limb list \<Rightarrow> limb list" where
  "impn_mul_n_basecase prodp up vp = fst (mul_basecase prodp up vp)"

definition impn_sqr_n_basecase :: "limb list \<Rightarrow> limb list \<Rightarrow> limb list" where
  "impn_sqr_n_basecase prodp up = fst (mul_basecase prodp up up)"

text \<open>
  \<open>stored n r p q\<close>: from the array \<open>p\<close> to \<open>q\<close> the first \<open>n\<close> limbs have got the value \<open>r\<close> and nothing else changes.
\<close>

definition stored :: "nat \<Rightarrow> nat \<Rightarrow> limb list \<Rightarrow> limb list \<Rightarrow> bool" where
  "stored n r p q = (length q = length p \<and> lval (take n q) = r \<and> drop n q = drop n p)"

lemma limb_le_1: "v \<le> 1 \<longleftrightarrow> v = 0 \<or> v = (1 :: limb)"
  by (auto simp: word_le_nat_alt word_unat_eq_iff)

lemma basecase_row:
  assumes lo: "length lo = n" "0 < n" and "n + k < length prodp" and p: "p = store_at (store_at prodp 0 lo) n [d]"
    and q: "stored (n + k) (lval (take n (tl p)) + S) (tl p) q" "k = 0 \<Longrightarrow> q = tl p" "c = (if k = 0 then d else q ! (n + k - 1))"
  shows "stored (n + Suc k) (lval lo + Bpow n * unat d + 2 ^ 64 * S) prodp (hd p # q)" "c = (hd p # q) ! (n + k)"
proof -
  obtain x xs where x: "lo = x # xs" "length xs = n - 1" using lo by (cases lo) auto
  have "store_at (store_at prodp 0 lo) n [d] = lo @ d # drop (Suc n) prodp"
    using assms(1,3) by (auto simp: store_at_def drop_Suc)
  then have p': "p = x # (xs @ [d]) @ drop (Suc n) prodp" using p x by simp
  have n: "length (xs @ [d]) = n" using x(2) assms(2) by simp
  then have tl: "take n (tl p) = xs @ [d]" "drop (n + k) (tl p) = drop (n + Suc k) prodp" "length (tl p) = length prodp - 1"
    using assms(3) unfolding p' by (auto simp: drop_append add.commute)
  have "Bpow n = 2 ^ 64 * Bpow (n - 1)" using assms(2) Bpow_Suc [of "n - 1"] by simp
  then have "unat x + 2 ^ 64 * (lval (xs @ [d]) + S) = lval lo + Bpow n * unat d + 2 ^ 64 * S"
    using x by (simp add: algebra_simps)
  then show "stored (n + Suc k) (lval lo + Bpow n * unat d + 2 ^ 64 * S) prodp (hd p # q)"
    using q(1) tl assms(3) by (simp add: stored_def p')
  show "c = (hd p # q) ! (n + k)"
  proof (cases "k = 0")
    case True
    have "p ! n = d" using nth_append_length [of "x # xs" d "drop (Suc n) prodp"] x(2) assms(2) by (simp add: p')
    then show ?thesis using True q(2,3) by (simp add: p')
  qed (use q(3) in simp)
qed

lemma basecase_loop_val:
  assumes "length up + length vp \<le> length prodp" "basecase_loop prodp up cy vp = (q, c)" "up \<noteq> []"
  shows "stored (length up + length vp) (lval (take (length up) prodp) + lval up * lval vp) prodp q \<and>
    c = (if vp = [] then cy else q ! (length up + length vp - 1))"
  using assms
proof (induction vp arbitrary: prodp cy q c)
  case Nil
  then show ?case by (simp add: stored_def)
next
  case (Cons v vp)
  let ?n = "length up" and ?lo = "take (length up) prodp"
  have lt: "?n + length vp < length prodp" "0 < ?n" "length ?lo = ?n" using Cons.prems(1,3) by auto
  obtain lo d where lo: "(if v \<le> 1 then (if v = 1 then mpn_add_n ?lo up else (?lo, 0)) else mpn_addmul_1 ?lo up v) = (lo, d)"
    by fastforce
  then have lo': "lval lo + Bpow ?n * unat d = lval ?lo + lval up * unat v" "length lo = ?n"
    using mpn_add_n_val [of ?lo up lo d] mpn_addmul_1_val [of ?lo up v lo d] lt(3) by (auto simp: limb_le_1 split: if_splits)
  define p where "p = store_at (store_at prodp 0 lo) ?n [d]"
  obtain q' where q: "basecase_loop (tl p) up d vp = (q', c)" "q = hd p # q'"
    using Cons.prems(2) lo by (auto simp: p_def Let_def split: prod.splits)
  have "length (tl p) = length prodp - 1" using lt lo'(2) by (simp add: p_def)
  then have IH: "stored (?n + length vp) (lval (take ?n (tl p)) + lval up * lval vp) (tl p) q'"
    "c = (if length vp = 0 then d else q' ! (?n + length vp - 1))"
    using Cons.IH [OF _ q(1) Cons.prems(3)] lt(1) by simp_all
  have Q: "length vp = 0 \<Longrightarrow> q' = tl p" using q(1) by auto
  show ?case
    using basecase_row [OF lo'(2) lt(2,1) p_def IH(1) Q IH(2)] unfolding lo'(1) by (simp add: q(2) algebra_simps)
qed

lemma mul_basecase_val:
  assumes "length up + length vp \<le> length prodp" "mul_basecase prodp up vp = (q, c)" "up \<noteq> []" "vp \<noteq> []"
  shows "stored (length up + length vp) (lval up * lval vp) prodp q" "c = q ! (length up + length vp - 1)"
proof -
  let ?n = "length up"
  obtain v vs where vp: "vp = v # vs" using assms(4) by (cases vp) auto
  have lt: "?n + length vs < length prodp" "0 < ?n" using assms(1,3) vp by auto
  obtain lo d where lo: "(if v \<le> 1 then (if v = 1 then (up, 0) else (replicate ?n 0, 0)) else mpn_mul_1 up v) = (lo, d)"
    by fastforce
  have "lval lo + Bpow ?n * unat d = lval up * unat v \<and> length lo = ?n"
  proof (cases "v \<le> 1")
    case True
    then show ?thesis using lo by (cases "v = 1") (auto simp: limb_le_1)
  next
    case False
    then show ?thesis using lo mpn_mul_1_val [of up v lo d] by simp
  qed
  then have lo': "lval lo + Bpow ?n * unat d = lval up * unat v" "length lo = ?n" by simp_all
  define p where "p = store_at (store_at prodp 0 lo) ?n [d]"
  obtain q' where q: "basecase_loop (tl p) up d vs = (q', c)" "q = hd p # q'"
    using assms(2) lo by (auto simp: mul_basecase_def vp p_def Let_def split: prod.splits)
  have "length (tl p) = length prodp - 1" using lt lo'(2) by (simp add: p_def)
  then have r: "stored (?n + length vs) (lval (take ?n (tl p)) + lval up * lval vs) (tl p) q'"
    "c = (if length vs = 0 then d else q' ! (?n + length vs - 1))"
    using basecase_loop_val [OF _ q(1) assms(3)] lt(1) by simp_all
  have Q: "length vs = 0 \<Longrightarrow> q' = tl p" using q(1) by auto
  show "stored (length up + length vp) (lval up * lval vp) prodp q" "c = q ! (length up + length vp - 1)"
    using basecase_row [OF lo'(2) lt(2,1) p_def r(1) Q r(2)] unfolding lo'(1) by (simp_all add: q(2) vp algebra_simps)
qed

lemma impn_mul_n_basecase_val:
  assumes "0 < n" "n \<le> length up" "n \<le> length vp" "2 * n \<le> length prodp"
  shows "stored (2 * n) (lval (take n up) * lval (take n vp)) prodp (impn_mul_n_basecase prodp (take n up) (take n vp))"
proof -
  obtain q c where q: "mul_basecase prodp (take n up) (take n vp) = (q, c)" by fastforce
  have "take n up \<noteq> []" "take n vp \<noteq> []" using assms by auto
  then show ?thesis
    using mul_basecase_val(1) [OF _ q] assms by (simp add: impn_mul_n_basecase_def q mult_2)
qed

end
