(* ===== verification/Mpn_Karatsuba.thy ===== *)
theory Mpn_Karatsuba
  imports Mpn_Basecase
begin

text \<open>
  Karatsuba's method of \<open>stdlib/mul_n.c\<close>, for products (\<open>impn_mul_n\<close>) and squares (\<open>impn_sqr_n\<close>).

  The two recursive routines share the steps on the products of the halves: \<open>kara_diff\<close> is the difference of the
  halves with its sign, \<open>kara_add_hm\<close> adds the high product twice and the middle one, and \<open>kara_add_l\<close> adds
  the low product twice.
\<close>

section \<open>The steps\<close>

definition kara_diff :: "limb list \<Rightarrow> nat \<Rightarrow> limb list \<times> bool" where
  "kara_diff up hsize =
     (if mpn_cmp (drop hsize up) up hsize \<ge> 0
      then (fst (mpn_sub_n (take hsize (drop hsize up)) (take hsize up)), False)
      else (fst (mpn_sub_n (take hsize up) (take hsize (drop hsize up))), True))"

definition kara_add_hm :: "limb list \<Rightarrow> limb list \<Rightarrow> nat \<Rightarrow> bool \<Rightarrow> limb list \<times> limb" where
  "kara_add_hm prodp tspace n negflg =
     (let hsize = n div 2;
          prodp = store_at prodp hsize (take hsize (drop n prodp));
          (s, cy) = mpn_add_n (take hsize (drop n prodp)) (take hsize (drop (n + hsize) prodp));
          prodp = store_at prodp n s;
          (s, cy) =
            (if negflg then let (s, c) = mpn_sub_n (take n (drop hsize prodp)) (take n tspace) in (s, cy - c)
             else let (s, c) = mpn_add_n (take n (drop hsize prodp)) (take n tspace) in (s, cy + c))
      in (store_at prodp hsize s, cy))"

definition kara_add_l :: "limb list \<Rightarrow> limb list \<Rightarrow> nat \<Rightarrow> limb \<Rightarrow> limb list" where
  "kara_add_l prodp tspace n cy =
     (let hsize = n div 2;
          (s, c) = mpn_add_n (take n (drop hsize prodp)) (take n tspace);
          prodp = store_at prodp hsize s;
          cy = cy + c;
          prodp = (if cy \<noteq> 0
                   then store_at prodp (hsize + n) (fst (mpn_add_1 (take hsize (drop (hsize + n) prodp)) cy))
                   else prodp);
          prodp = store_at prodp 0 (take hsize tspace);
          (s, cy) = mpn_add_n (take hsize (drop hsize prodp)) (take hsize (drop hsize tspace));
          prodp = store_at prodp hsize s
      in if cy \<noteq> 0 then store_at prodp n (fst (mpn_add_1 (take n (drop n prodp)) 1)) else prodp)"

section \<open>The recursion\<close>

text \<open>Each pair of functions is a macro of \<open>gmp-impl.h\<close> and the routine it calls for large sizes.\<close>

function (sequential) MPN_MUL_N_RECURSE ::
  "limb list \<Rightarrow> limb list \<Rightarrow> limb list \<Rightarrow> nat \<Rightarrow> limb list \<Rightarrow> limb list \<times> limb list"
  and impn_mul_n :: "limb list \<Rightarrow> limb list \<Rightarrow> limb list \<Rightarrow> nat \<Rightarrow> limb list \<Rightarrow> limb list \<times> limb list" where
  "MPN_MUL_N_RECURSE prodp up vp n tspace =
     (if n < KARATSUBA_THRESHOLD then (impn_mul_n_basecase prodp (take n up) (take n vp), tspace)
      else impn_mul_n prodp up vp n tspace)"
| "impn_mul_n prodp up vp n tspace =
     (if n mod 2 \<noteq> 0
      then let esize = n - 1;
               (prodp, tspace) = MPN_MUL_N_RECURSE prodp up vp esize tspace;
               (s, cy_limb) = mpn_addmul_1 (take esize (drop esize prodp)) (take esize up) (vp ! esize);
               prodp = store_at prodp esize s;
               prodp = store_at prodp (esize + esize) [cy_limb];
               (s, cy_limb) = mpn_addmul_1 (take n (drop esize prodp)) (take n vp) (up ! esize);
               prodp = store_at prodp esize s
           in (store_at prodp (esize + n) [cy_limb], tspace)
      else let hsize = n div 2;
               (p, tspace) = MPN_MUL_N_RECURSE (drop n prodp) (drop hsize up) (drop hsize vp) hsize tspace;
               prodp = take n prodp @ p;
               (s, negflg) = kara_diff up hsize;
               prodp = store_at prodp 0 s;
               (s, neg) = kara_diff vp hsize;
               negflg = (if \<not> neg then \<not> negflg else negflg);
               prodp = store_at prodp hsize s;
               (t0, t1) = MPN_MUL_N_RECURSE (take n tspace) prodp (drop hsize prodp) hsize (drop n tspace);
               tspace = t0 @ t1;
               (prodp, cy) = kara_add_hm prodp tspace n negflg;
               (t0, t1) = MPN_MUL_N_RECURSE (take n tspace) up vp hsize (drop n tspace);
               tspace = t0 @ t1
           in (kara_add_l prodp tspace n cy, tspace))"
  by pat_completeness auto
termination
  by (relation "measure (\<lambda>x. case x of
        Inl (_, _, _, n, _) \<Rightarrow> if n < KARATSUBA_THRESHOLD then 0 else 2 * n + 2
      | Inr (_, _, _, n, _) \<Rightarrow> 2 * n + 1)") (auto simp: KARATSUBA_THRESHOLD_def)

function (sequential) MPN_SQR_N_RECURSE :: "limb list \<Rightarrow> limb list \<Rightarrow> nat \<Rightarrow> limb list \<Rightarrow> limb list \<times> limb list"
  and impn_sqr_n :: "limb list \<Rightarrow> limb list \<Rightarrow> nat \<Rightarrow> limb list \<Rightarrow> limb list \<times> limb list" where
  "MPN_SQR_N_RECURSE prodp up n tspace =
     (if n < KARATSUBA_THRESHOLD then (impn_sqr_n_basecase prodp (take n up), tspace)
      else impn_sqr_n prodp up n tspace)"
| "impn_sqr_n prodp up n tspace =
     (if n mod 2 \<noteq> 0
      then let esize = n - 1;
               (prodp, tspace) = MPN_SQR_N_RECURSE prodp up esize tspace;
               (s, cy_limb) = mpn_addmul_1 (take esize (drop esize prodp)) (take esize up) (up ! esize);
               prodp = store_at prodp esize s;
               prodp = store_at prodp (esize + esize) [cy_limb];
               (s, cy_limb) = mpn_addmul_1 (take n (drop esize prodp)) (take n up) (up ! esize);
               prodp = store_at prodp esize s
           in (store_at prodp (esize + n) [cy_limb], tspace)
      else let hsize = n div 2;
               (p, tspace) = MPN_SQR_N_RECURSE (drop n prodp) (drop hsize up) hsize tspace;
               prodp = take n prodp @ p;
               prodp = store_at prodp 0 (fst (kara_diff up hsize));
               (t0, t1) = MPN_SQR_N_RECURSE (take n tspace) prodp hsize (drop n tspace);
               tspace = t0 @ t1;
               (prodp, cy) = kara_add_hm prodp tspace n True;
               (t0, t1) = MPN_SQR_N_RECURSE (take n tspace) up hsize (drop n tspace);
               tspace = t0 @ t1
           in (kara_add_l prodp tspace n cy, tspace))"
  by pat_completeness auto
termination
  by (relation "measure (\<lambda>x. case x of
        Inl (_, _, n, _) \<Rightarrow> if n < KARATSUBA_THRESHOLD then 0 else 2 * n + 2
      | Inr (_, _, n, _) \<Rightarrow> 2 * n + 1)") (auto simp: KARATSUBA_THRESHOLD_def)

declare MPN_MUL_N_RECURSE.simps [simp del] impn_mul_n.simps [simp del]
  MPN_SQR_N_RECURSE.simps [simp del] impn_sqr_n.simps [simp del]

section \<open>The steps on blocks\<close>

text \<open>
  What the code makes of the products \<open>h\<close>, \<open>m\<close> and \<open>l\<close> of the halves, each of \<open>2 * n\<close> limbs: the four blocks of \<open>n\<close>
  limbs of the result.
\<close>

definition kara_blocks :: "nat \<Rightarrow> limb list \<Rightarrow> limb list \<Rightarrow> limb list \<Rightarrow> bool \<Rightarrow> limb list" where
  "kara_blocks n h m l negflg =
     (let (s2, cy) = mpn_add_n (take n h) (drop n h);
          (s, cy) = (if negflg then let (s, c) = mpn_sub_n (take n h @ s2) m in (s, cy - c)
                     else let (s, c) = mpn_add_n (take n h @ s2) m in (s, cy + c));
          (s, c) = mpn_add_n s l;
          cy = cy + c;
          p3 = (if cy \<noteq> 0 then fst (mpn_add_1 (drop n h) cy) else drop n h);
          (s1, cy) = mpn_add_n (take n s) (drop n l);
          hi = drop n s @ p3;
          hi = (if cy \<noteq> 0 then fst (mpn_add_1 hi 1) else hi)
      in take n l @ s1 @ hi)"

lemma mpn_add_1_exact:
  assumes "xs \<noteq> []" "lval xs + unat v < Bpow (length xs)"
  defines "r \<equiv> if v \<noteq> 0 then fst (mpn_add_1 xs v) else xs"
  shows "lval r = lval xs + unat v" "length r = length xs"
proof -
  obtain q c where q: "mpn_add_1 xs v = (q, c)" by fastforce
  note val = mpn_add_1_val [OF q assms(1)]
  have "unat c = 0"
  proof (rule ccontr)
    assume "unat c \<noteq> 0"
    then have "Bpow (length xs) \<le> Bpow (length xs) * unat c" by simp
    then show False using val(1) assms(2) by linarith
  qed
  then show "lval r = lval xs + unat v" "length r = length xs" using val q by (simp_all add: r_def)
qed

lemma kara_middle:
  fixes b :: nat
  assumes "h < b * b" "h0 < b" "h = h0 + b * h1" "s2 + b * c1 = h0 + h1"
    and "int s + int (b * b) * k = int h0 + int b * int s2 + sg * int m" "s' + b * b * c3 = s + l" "s' < b * b"
    and "int h + int l + sg * int m = int mid"
  shows "int s' + int (b * b) * (int c1 + k + int c3 + int h1) = int b * int h + int mid"
    and "0 \<le> int c1 + k + int c3"
proof -
  have e: "int s + int b * int b * k = int h0 + int b * int s2 + sg * int m"
    "int s' + int b * int b * int c3 = int s + int l" "int s2 + int b * int c1 = int h0 + int h1"
    "int h = int h0 + int b * int h1"
    using assms(3-6) by (simp_all flip: of_nat_add of_nat_mult)
  show "int s' + int (b * b) * (int c1 + k + int c3 + int h1) = int b * int h + int mid"
    using e assms(8) unfolding of_nat_mult by algebra
  then have "int s' + int (b * b) * (int c1 + k + int c3) = int b * int h0 + int mid"
    using e(4) unfolding of_nat_mult by algebra
  then have "0 \<le> int s' + int (b * b) * (int c1 + k + int c3)" by simp
  moreover have "int s' + int (b * b) * j < 0" if "j < 0" for j
  proof -
    have "int (b * b) * j \<le> int (b * b) * (- 1)" using that by (intro mult_left_mono) simp_all
    then show ?thesis using assms(7) by linarith
  qed
  ultimately show "0 \<le> int c1 + k + int c3" by (meson linorder_not_less)
qed

lemma kara_add_m:
  assumes "length x = length m"
    and "(if negflg then let (s, c) = mpn_sub_n x m in (s, cy - c) else let (s, c) = mpn_add_n x m in (s, cy + c)) = (s, d)"
  obtains k where "int (lval s) + int (Bpow (length m)) * k = int (lval x) + (if negflg then - 1 else 1) * int (lval m)"
    "length s = length m" "d = cy + of_int k" "\<bar>k\<bar> \<le> 1"
proof (cases negflg)
  case True
  then obtain c where c: "mpn_sub_n x m = (s, c)" "d = cy - c" using assms(2) by (auto split: prod.splits)
  have v: "lval s + lval m = lval x + Bpow (length x) * unat c" "length s = length x" "unat c \<le> 1"
    using mpn_sub_n_val [OF c(1) assms(1)] .
  have "int (lval s) + int (lval m) = int (lval x) + int (Bpow (length x)) * int (unat c)"
    using arg_cong [OF v(1), of int] by simp
  then show ?thesis using True c(2) v(2,3) assms(1) of_nat_mono [OF v(3), where 'a = int] by (intro that [of "- int (unat c)"]) simp_all
next
  case False
  then obtain c where c: "mpn_add_n x m = (s, c)" "d = cy + c" using assms(2) by (auto split: prod.splits)
  have v: "lval s + Bpow (length x) * unat c = lval x + lval m" "length s = length x" "unat c \<le> 1"
    using mpn_add_n_val [OF c(1) assms(1)] .
  have "int (lval s) + int (Bpow (length x)) * int (unat c) = int (lval x) + int (lval m)"
    using arg_cong [OF v(1), of int] by simp
  then show ?thesis using False c(2) v(2,3) assms(1) of_nat_mono [OF v(3), where 'a = int] by (intro that [of "int (unat c)"]) simp_all
qed

lemma Bpow_add: "Bpow (m + n) = Bpow m * Bpow n"
  by (simp add: distrib_left power_add)

lemma Bpow_mult: "Bpow (2 * n) = Bpow n * Bpow n" "Bpow (4 * n) = Bpow n * Bpow n * Bpow n * Bpow n"
proof -
  have "4 * n = n + n + n + n" "2 * n = n + n" by simp_all
  then show "Bpow (2 * n) = Bpow n * Bpow n" "Bpow (4 * n) = Bpow n * Bpow n * Bpow n * Bpow n" by (simp_all only: Bpow_add)
qed

lemma unat_carry_sum:
  fixes c1 c3 :: limb
  assumes "0 \<le> int (unat c1) + k + int (unat c3)" "unat c1 \<le> 1" "unat c3 \<le> 1" "\<bar>k\<bar> \<le> 1"
  shows "int (unat (c1 + of_int k + c3)) = int (unat c1) + k + int (unat c3)"
proof -
  have "c1 + of_int k + c3 = of_int (int (unat c1) + k + int (unat c3))" by simp
  then have "uint (c1 + of_int k + c3) = take_bit 64 (int (unat c1) + k + int (unat c3))" by (simp only: uint_word_of_int_eq) simp
  also have "\<dots> = int (unat c1) + k + int (unat c3)"
  proof (rule take_bit_int_eq_self [OF assms(1)])
    have "int (unat c1) + k + int (unat c3) \<le> 3" using assms(2-4) by linarith
    also have "3 < (2 :: int) ^ 64" by simp
    finally show "int (unat c1) + k + int (unat c3) < 2 ^ 64" .
  qed
  finally show ?thesis by simp
qed

lemma kara_top:
  fixes b :: nat
  assumes "s' + b * b * x = b * h + mid" "l + b * mid + b * b * h < b * b * b * b"
  shows "x < b"
proof -
  have "b * (b * h + mid) < b * (b * b * b)" using assms(2) by (simp add: algebra_simps)
  then have "b * h + mid < b * b * b" by simp
  then have "b * b * x < b * b * b" using assms(1) by linarith
  then show ?thesis by simp
qed

lemma kara_final:
  fixes b :: nat
  assumes y: "s' + b * b * p3 = b * h + mid" and s: "s' = s0 + b * s1" and l: "l = l0 + b * l1" and c: "r1 + b * c5 = s0 + l1"
    and fits: "l + b * mid + b * b * h < b * b * b * b"
  shows "l0 + b * r1 + b * b * (s1 + b * p3 + c5) = l + b * mid + b * b * h" "s1 + b * p3 + c5 < b * b"
proof -
  have "l0 + b * r1 + b * b * (s1 + b * p3 + c5) = l0 + b * (r1 + b * c5) + b * b * s1 + b * (b * b * p3)"
    by (simp add: algebra_simps)
  also have "\<dots> = l + b * (s' + b * b * p3)" unfolding c s l by (simp add: algebra_simps)
  also have "\<dots> = l + b * mid + b * b * h" unfolding y by (simp add: algebra_simps)
  finally show e: "l0 + b * r1 + b * b * (s1 + b * p3 + c5) = l + b * mid + b * b * h" .
  then have "b * b * (s1 + b * p3 + c5) < b * b * (b * b)" using fits by (simp add: algebra_simps)
  then show "s1 + b * p3 + c5 < b * b" by simp
qed

lemma kara_blocks_val:
  assumes len: "length h = 2 * n" "length m = 2 * n" "length l = 2 * n" "0 < n"
    and mid: "int (lval h) + int (lval l) + (if negflg then - 1 else 1) * int (lval m) = int mid"
    and fits: "lval l + Bpow n * mid + Bpow (2 * n) * lval h < Bpow (4 * n)"
  shows "lval (kara_blocks n h m l negflg) = lval l + Bpow n * mid + Bpow (2 * n) * lval h"
    "length (kara_blocks n h m l negflg) = 4 * n"
proof -
  let ?b = "Bpow n"
  note pow = Bpow_mult [of n]
  have h: "lval h = lval (take n h) + ?b * lval (drop n h)" "length (take n h) = n" "length (drop n h) = n"
    and l: "lval l = lval (take n l) + ?b * lval (drop n l)" "length (take n l) = n" "length (drop n l) = n"
    using len by (simp_all add: lval_take_drop)
  obtain s2 c1 where s2: "mpn_add_n (take n h) (drop n h) = (s2, c1)" by fastforce
  note s2' = mpn_add_n_val [OF s2, unfolded h(2,3), OF refl]
  obtain s d where s: "(if negflg then let (s, c) = mpn_sub_n (take n h @ s2) m in (s, c1 - c)
      else let (s, c) = mpn_add_n (take n h @ s2) m in (s, c1 + c)) = (s, d)" by fastforce
  have "length (take n h @ s2) = length m" using h(2) s2'(2) len(2) by simp
  from kara_add_m [OF this s] obtain k where
    k0: "int (lval s) + int (Bpow (length m)) * k = int (lval (take n h @ s2)) + (if negflg then - 1 else 1) * int (lval m)"
    and "length s = length m" and k1: "d = c1 + of_int k" "\<bar>k\<bar> \<le> 1" .
  moreover have "int (lval (take n h @ s2)) = int (lval (take n h)) + int ?b * int (lval s2)" using h(2) by simp
  ultimately have k: "int (lval s) + int (?b * ?b) * k =
      int (lval (take n h)) + int ?b * int (lval s2) + (if negflg then - 1 else 1) * int (lval m)" "length s = 2 * n"
    by (simp_all only: len(2) pow(1))
  obtain s' c3 where s': "mpn_add_n s l = (s', c3)" by fastforce
  note s'' = mpn_add_n_val [OF s', unfolded k(2) len(3) pow(1), OF refl]
  have lt: "lval h < ?b * ?b" "lval (take n h) < ?b" "lval s' < ?b * ?b"
    using lval_less [of h] lval_less [of "take n h"] lval_less [of s'] len(1) h(2) s''(2) pow(1) by simp_all
  note kara = kara_middle [OF lt(1,2) h(1) s2'(1) k(1) s''(1) lt(3) mid]
  define cy where "cy = d + c3"
  have "int (unat cy) = int (unat c1) + k + int (unat c3)"
    unfolding cy_def k1(1) by (rule unat_carry_sum [OF kara(2) s2'(3) s''(3) k1(2)])
  then have "int (lval s') + int (?b * ?b) * int (unat cy + lval (drop n h)) = int ?b * int (lval h) + int mid"
    using kara(1) by simp
  then have "int (lval s' + ?b * ?b * (unat cy + lval (drop n h))) = int (?b * lval h + mid)"
    by (simp only: of_nat_add of_nat_mult)
  then have y: "lval s' + ?b * ?b * (unat cy + lval (drop n h)) = ?b * lval h + mid" by (simp only: of_nat_eq_iff)
  have "unat cy + lval (drop n h) < ?b" by (rule kara_top [OF y fits [unfolded pow]])
  then have "lval (drop n h) + unat cy < Bpow (length (drop n h))" unfolding h(3) by simp
  moreover define p3 where "p3 = (if cy \<noteq> 0 then fst (mpn_add_1 (drop n h) cy) else drop n h)"
  ultimately have p3: "lval p3 = lval (drop n h) + unat cy" "length p3 = n"
    using mpn_add_1_exact [of "drop n h" cy] h(3) len(4) by auto
  have y': "lval s' + ?b * ?b * lval p3 = ?b * lval h + mid" using y p3(1) by (simp add: add.commute)
  have ss: "lval s' = lval (take n s') + ?b * lval (drop n s')" "length (take n s') = n" "length (drop n s') = n"
    using s''(2) by (simp_all add: lval_take_drop)
  obtain s1 c5 where s1: "mpn_add_n (take n s') (drop n l) = (s1, c5)" by fastforce
  note s1' = mpn_add_n_val [OF s1, unfolded ss(2) l(3), OF refl]
  note fin = kara_final [OF y' ss(1) l(1) s1'(1) fits [unfolded pow]]
  define hi where "hi = drop n s' @ p3"
  have hi: "lval hi = lval (drop n s') + ?b * lval p3" "length hi = 2 * n" using ss(3) p3(2) by (simp_all add: hi_def)
  define hi' where "hi' = (if c5 \<noteq> 0 then fst (mpn_add_1 hi c5) else hi)"
  have "hi \<noteq> []" using hi(2) len(4) by auto
  then have hi': "lval hi' = lval hi + unat c5" "length hi' = 2 * n"
    using mpn_add_1_exact [of hi c5] fin(2) hi pow(1) len(4) by (auto simp: hi'_def)
  have "c5 = 0 \<or> c5 = 1" using s1'(3) limb_le_1 [of c5] by (simp add: word_le_nat_alt)
  then have "kara_blocks n h m l negflg = take n l @ s1 @ hi'"
    by (auto simp: kara_blocks_def s2 s s' s1 Let_def cy_def [symmetric] p3_def hi_def hi'_def)
  then show "lval (kara_blocks n h m l negflg) = lval l + Bpow n * mid + Bpow (2 * n) * lval h"
    "length (kara_blocks n h m l negflg) = 4 * n"
    using fin(1) hi hi' l(2) s1'(2) unfolding pow by (simp_all add: algebra_simps)
qed

lemma store_at_block: "length a = i \<Longrightarrow> length s = length b \<Longrightarrow> store_at (a @ b @ c) i s = a @ s @ c"
  by (simp add: store_at_def)

lemma kara_diff_val:
  assumes "2 * k \<le> length up" "kara_diff up k = (s, neg)"
  shows "int (lval s) = (if neg then - 1 else 1) * (int (lval (take k (drop k up))) - int (lval (take k up)))" "length s = k"
proof -
  let ?u1 = "take k (drop k up)" and ?u0 = "take k up"
  have len: "length ?u1 = k" "length ?u0 = k" using assms(1) by simp_all
  have exact: "int (lval (fst (mpn_sub_n a b))) = int (lval a) - int (lval b) \<and> length (fst (mpn_sub_n a b)) = k"
    if ab: "lval b \<le> lval a" "length a = k" "length b = k" for a b
  proof -
    obtain r c where r: "mpn_sub_n a b = (r, c)" by fastforce
    note v = mpn_sub_n_val [OF r, unfolded ab(2,3), OF refl]
    have "lval r < Bpow k" using lval_less [of r] v(2) by simp
    then have "unat c = 0" using v(1,3) ab(1) by (cases "unat c = 1") auto
    then show ?thesis using v(1,2) ab(1) r by simp
  qed
  have cmp: "mpn_cmp (drop k up) up k = sgn (int (lval ?u1) - int (lval ?u0))" using assms(1) by (simp add: mpn_cmp_val)
  then show "int (lval s) = (if neg then - 1 else 1) * (int (lval ?u1) - int (lval ?u0))" "length s = k"
    using exact [of ?u0 ?u1] exact [of ?u1 ?u0] len assms(2) by (auto simp: kara_diff_def sgn_if split: if_splits)
qed

lemma kara_add_hm_blocks:
  assumes "length x = k" "length y = k" "length h = 2 * k" "length m = 2 * k"
  shows "kara_add_hm (x @ y @ h @ R) (m @ t) (2 * k) negflg =
    (let (s2, cy) = mpn_add_n (take k h) (drop k h);
         (s, cy) = (if negflg then let (s, c) = mpn_sub_n (take k h @ s2) m in (s, cy - c)
                    else let (s, c) = mpn_add_n (take k h @ s2) m in (s, cy + c))
     in (x @ s @ drop k h @ R, cy))"
proof -
  obtain h0 h1 where h: "h = h0 @ h1" "length h0 = k" "length h1 = k"
    using assms(3) by (metis append_take_drop_id length_drop length_take min_absorb2 add_diff_cancel_left' le_add1 mult_2)
  have p1: "store_at (x @ y @ h0 @ h1 @ R) k h0 = x @ h0 @ h0 @ h1 @ R"
    using assms h store_at_block [of x k h0 y "h @ R"] by simp
  obtain s2 cy where s2: "mpn_add_n h0 h1 = (s2, cy)" by fastforce
  have "length s2 = k" using mpn_add_n_val(2) [OF s2] h by simp
  then have p2: "store_at (x @ h0 @ h0 @ h1 @ R) (2 * k) s2 = x @ h0 @ s2 @ h1 @ R"
    using assms h store_at_block [of "x @ h0" "2 * k" s2 h0 "h1 @ R"] by simp
  define sc where "sc = (if negflg then let (s, c) = mpn_sub_n (h0 @ s2) m in (s, cy - c) else let (s, c) = mpn_add_n (h0 @ s2) m in (s, cy + c))"
  have "length (fst sc) = 2 * k"
    using mpn_sub_n_val(2) [of "h0 @ s2" m] mpn_add_n_val(2) [of "h0 @ s2" m] h(2) \<open>length s2 = k\<close> assms(4)
    by (auto simp: sc_def split: prod.splits)
  then have p3: "store_at (x @ h0 @ s2 @ h1 @ R) k (fst sc) = x @ fst sc @ h1 @ R"
    using store_at_block [of x k "fst sc" "h0 @ s2" "h1 @ R"] assms(1) h(2) \<open>length s2 = k\<close> by simp
  have "kara_add_hm (x @ y @ h @ R) (m @ t) (2 * k) negflg = (x @ fst sc @ h1 @ R, snd sc)"
    using p3 assms(1,2,4) h(2,3) \<open>length s2 = k\<close> unfolding kara_add_hm_def h(1)
    by (cases negflg) (simp_all add: p1 p2 s2 sc_def Let_def split_def)
  then show ?thesis using h s2 by (simp add: sc_def Let_def split: prod.splits)
qed

lemma split_halves: "length h = 2 * k \<Longrightarrow> \<exists>a b. h = a @ b \<and> length a = k \<and> length b = k"
  by (rule exI [of _ "take k h"], rule exI [of _ "drop k h"]) simp

lemma length_mpn_add_1: "xs \<noteq> [] \<Longrightarrow> length (fst (mpn_add_1 xs v)) = length xs"
  using mpn_add_1_val(2) [of xs v] by (cases "mpn_add_1 xs v") simp

lemma kara_add_l_blocks:
  assumes "length x = k" "length s = 2 * k" "length h1 = k" "length l = 2 * k" "0 < k"
  shows "kara_add_l (x @ s @ h1 @ R) (l @ t) (2 * k) cy =
    (let (s, c) = mpn_add_n s l;
         cy = cy + c;
         p3 = (if cy \<noteq> 0 then fst (mpn_add_1 h1 cy) else h1);
         (s1, cy) = mpn_add_n (take k s) (drop k l);
         hi = drop k s @ p3;
         hi = (if cy \<noteq> 0 then fst (mpn_add_1 hi 1) else hi)
     in take k l @ s1 @ hi @ R)"
proof -
  obtain s' c where s': "mpn_add_n s l = (s', c)" by fastforce
  obtain a b where ab: "s' = a @ b" "length a = k" "length b = k"
    using mpn_add_n_val(2) [OF s'] assms(2,4) by (metis split_halves)
  obtain l0 l1 where l: "l = l0 @ l1" "length l0 = k" "length l1 = k" using assms(4) by (metis split_halves)
  define p3 where "p3 = (if cy + c \<noteq> 0 then fst (mpn_add_1 h1 (cy + c)) else h1)"
  have p3: "length p3 = k" using assms(3,5) length_mpn_add_1 [of h1 "cy + c"] by (auto simp: p3_def)
  obtain s1 c5 where s1: "mpn_add_n a l1 = (s1, c5)" by fastforce
  have s1': "length s1 = k" using mpn_add_n_val(2) [OF s1] ab l by simp
  define hi where "hi = (if c5 \<noteq> 0 then fst (mpn_add_1 (b @ p3) 1) else b @ p3)"
  have ne: "h1 \<noteq> []" "b @ p3 \<noteq> []" using assms(3,5) ab(3) by auto
  have len: "length (fst (mpn_add_1 h1 (cy + c))) = k" "length (fst (mpn_add_1 (b @ p3) 1)) = length (b @ p3)"
    using length_mpn_add_1 [OF ne(1)] length_mpn_add_1 [OF ne(2)] assms(3) by simp_all
  have st: "store_at (x @ s @ h1 @ R) k (a @ b) = x @ a @ b @ h1 @ R"
    "store_at (x @ a @ b @ h1 @ R) (3 * k) (fst (mpn_add_1 h1 (cy + c))) = x @ a @ b @ fst (mpn_add_1 h1 (cy + c)) @ R"
    "store_at (x @ a @ b @ q @ R) 0 l0 = l0 @ a @ b @ q @ R"
    "store_at (l0 @ a @ b @ q @ R) k s1 = l0 @ s1 @ b @ q @ R"
    "store_at (l0 @ s1 @ b @ p3 @ R) (2 * k) (fst (mpn_add_1 (b @ p3) 1)) = l0 @ s1 @ fst (mpn_add_1 (b @ p3) 1) @ R" for q
    using store_at_block [of x k "a @ b" s "h1 @ R"] store_at_block [of "x @ a @ b" "3 * k" _ h1 R]
      store_at_block [of "[]" 0 l0 x] store_at_block [of l0 k s1 a] store_at_block [of "l0 @ s1" "2 * k" _ "b @ p3" R]
      assms ab l p3 s1' len by simp_all
  have "kara_add_l (x @ s @ h1 @ R) (l @ t) (2 * k) cy = l0 @ s1 @ hi @ R"
    using assms(1-3) ab(2,3) l(2,3) p3 s1' st(5) unfolding kara_add_l_def
    by (cases "cy + c = 0") (simp_all add: s' [unfolded l(1)] ab(1) l(1) st(1-4) s1 Let_def hi_def p3_def)
  then show ?thesis using ab l s' s1 by (simp add: hi_def p3_def Let_def)
qed

section \<open>Products\<close>

text \<open>What a routine for numbers of \<open>k\<close> limbs does: it stores the product and keeps the size of the scratch space.\<close>

definition multiplies ::
  "(limb list \<Rightarrow> limb list \<Rightarrow> limb list \<Rightarrow> nat \<Rightarrow> limb list \<Rightarrow> limb list \<times> limb list) \<Rightarrow> nat \<Rightarrow> bool" where
  "multiplies f k =
     (\<forall>p u v t. k \<le> length u \<longrightarrow> k \<le> length v \<longrightarrow> 2 * k \<le> length p \<longrightarrow> 2 * k \<le> length t \<longrightarrow>
        (case f p u v k t of (q, t') \<Rightarrow>
          stored (2 * k) (lval (take k u) * lval (take k v)) p q \<and> length t' = length t))"

lemma multipliesD:
  "\<lbrakk>multiplies f k; k \<le> length u; k \<le> length v; 2 * k \<le> length p; 2 * k \<le> length t; f p u v k t = (q, t')\<rbrakk> \<Longrightarrow>
    stored (2 * k) (lval (take k u) * lval (take k v)) p q \<and> length t' = length t"
  unfolding multiplies_def by fastforce

lemma multipliesE:
  assumes "multiplies f k" "k \<le> length u" "k \<le> length v" "2 * k \<le> length p" "2 * k \<le> length t"
  obtains r t' where "f p u v k t = (r @ drop (2 * k) p, t')" "length r = 2 * k" "lval r = lval (take k u) * lval (take k v)"
    "length t' = length t"
proof -
  obtain q t' where q: "f p u v k t = (q, t')" by fastforce
  have "stored (2 * k) (lval (take k u) * lval (take k v)) p q" "length t' = length t"
    using multipliesD [OF assms q] by simp_all
  then show thesis
    using that [of "take (2 * k) q" t'] q assms(4) append_take_drop_id [of "2 * k" q] by (simp add: stored_def)
qed

lemma kara_sign:
  fixes u0 u1 v0 v1 :: int
  assumes "su = (if nu then - 1 else 1) * (u1 - u0)" "sv = (if nv then - 1 else 1) * (v1 - v0)"
  shows "u1 * v1 + u0 * v0 + (if (if \<not> nv then \<not> nu else nu) then - 1 else 1) * (su * sv) = u1 * v0 + u0 * v1"
  unfolding assms by (cases nu; cases nv) (simp_all add: algebra_simps)

lemma kara_combine:
  assumes len: "2 * k \<le> length up" "2 * k \<le> length vp" "0 < k" "length h = 2 * k" "length m = 2 * k" "length l = 2 * k"
    and d: "kara_diff up k = (su, nu)" "kara_diff vp k = (sv, nv)"
    and h: "lval h = lval (take k (drop k up)) * lval (take k (drop k vp))" and m: "lval m = lval su * lval sv"
    and l: "lval l = lval (take k up) * lval (take k vp)"
  shows "lval (kara_blocks k h m l (if \<not> nv then \<not> nu else nu)) = lval (take (2 * k) up) * lval (take (2 * k) vp)"
    "length (kara_blocks k h m l (if \<not> nv then \<not> nu else nu)) = 4 * k"
proof -
  define u0 u1 v0 v1 where uv: "u0 = lval (take k up)" "u1 = lval (take k (drop k up))" "v0 = lval (take k vp)" "v1 = lval (take k (drop k vp))"
  have t: "take (2 * k) up = take k up @ take k (drop k up)" "take (2 * k) vp = take k vp @ take k (drop k vp)"
    by (simp_all add: mult_2 take_add)
  have val: "lval (take (2 * k) up) = u0 + Bpow k * u1" "lval (take (2 * k) vp) = v0 + Bpow k * v1"
    unfolding t uv using len by simp_all
  have prod: "(u0 + Bpow k * u1) * (v0 + Bpow k * v1) = u0 * v0 + Bpow k * (u1 * v0 + u0 * v1) + Bpow (2 * k) * (u1 * v1)"
    unfolding Bpow_mult by (simp add: algebra_simps)
  have "int (lval su * lval sv) = int (lval su) * int (lval sv)" by simp
  then have mid: "int (lval h) + int (lval l) + (if (if \<not> nv then \<not> nu else nu) then - 1 else 1) * int (lval m) = int (u1 * v0 + u0 * v1)"
    using kara_sign [OF kara_diff_val(1) [OF len(1) d(1)] kara_diff_val(1) [OF len(2) d(2)]] unfolding h m l by (simp add: uv)
  have "lval (take (2 * k) up) * lval (take (2 * k) vp) < Bpow (2 * k) * Bpow (2 * k)"
    using lval_less [of "take (2 * k) up"] lval_less [of "take (2 * k) vp"] len(1,2) by (intro mult_strict_mono) simp_all
  then have fits: "lval l + Bpow k * (u1 * v0 + u0 * v1) + Bpow (2 * k) * lval h < Bpow (4 * k)"
    unfolding val prod l h uv Bpow_mult by (simp add: algebra_simps)
  note blocks = kara_blocks_val [OF len(4-6) len(3) mid fits]
  show "lval (kara_blocks k h m l (if \<not> nv then \<not> nu else nu)) = lval (take (2 * k) up) * lval (take (2 * k) vp)"
    unfolding blocks(1) val prod by (simp only: h l uv)
  show "length (kara_blocks k h m l (if \<not> nv then \<not> nu else nu)) = 4 * k"
    by (rule blocks(2))
qed

lemma kara_blocks_steps:
  assumes "length x = k" "length h = 2 * k" "length m = 2 * k" "length l = 2 * k" "0 < k" "length y = k"
    and hm: "kara_add_hm (x @ y @ h @ R) (m @ t) (2 * k) negflg = (p', cy)"
  shows "kara_add_l p' (l @ t') (2 * k) cy = kara_blocks k h m l negflg @ R"
proof -
  obtain s2 c2 where s2: "mpn_add_n (take k h) (drop k h) = (s2, c2)" by fastforce
  obtain s c where s: "(if negflg then mpn_sub_n (take k h @ s2) m else mpn_add_n (take k h @ s2) m) = (s, c)" by fastforce
  have len: "length s2 = k" "length s = 2 * k"
    using mpn_add_n_val(2) [OF s2] mpn_add_n_val(2) [of "take k h @ s2" m s c] mpn_sub_n_val(2) [of "take k h @ s2" m s c] s assms
    by (auto split: if_splits)
  have mid: "(if negflg then let (s, c) = mpn_sub_n (take k h @ s2) m in (s, c2 - c)
              else let (s, c) = mpn_add_n (take k h @ s2) m in (s, c2 + c)) = (s, if negflg then c2 - c else c2 + c)"
    using s by (auto split: if_splits)
  have p': "p' = x @ s @ drop k h @ R" "cy = (if negflg then c2 - c else c2 + c)"
    using hm unfolding kara_add_hm_blocks [OF assms(1,6,2,3)] s2 Let_def prod.case mid [unfolded Let_def] by simp_all
  have h1: "length (drop k h) = k" using assms(2) by simp
  show ?thesis
    unfolding p' kara_add_l_blocks [OF assms(1) len(2) h1 assms(4,5)] kara_blocks_def s2 Let_def prod.case mid [unfolded Let_def]
    by (simp split: prod.split)
qed

lemma kara_even:
  assumes k: "0 < k" "multiplies f k" and len: "2 * k \<le> length up" "2 * k \<le> length vp" "4 * k \<le> length prodp" "4 * k \<le> length tspace"
    and su: "kara_diff up k = (su, nu)" and sv: "kara_diff vp k = (sv, nv)"
    and p: "f (drop (2 * k) prodp) (drop k up) (drop k vp) k tspace = (p, t1)"
    and m: "f (take (2 * k) t1) (store_at (store_at (take (2 * k) prodp @ p) 0 su) k sv)
              (drop k (store_at (store_at (take (2 * k) prodp @ p) 0 su) k sv)) k (drop (2 * k) t1) = (m, t2)"
    and hm: "kara_add_hm (store_at (store_at (take (2 * k) prodp @ p) 0 su) k sv) (m @ t2) (2 * k) (if \<not> nv then \<not> nu else nu) = (p', cy)"
    and l: "f (take (2 * k) (m @ t2)) up vp k (drop (2 * k) (m @ t2)) = (l, t3)"
  shows "stored (4 * k) (lval (take (2 * k) up) * lval (take (2 * k) vp)) prodp (kara_add_l p' (l @ t3) (2 * k) cy)"
    "length (l @ t3) = length tspace"
proof -
  let ?R = "drop (4 * k) prodp" and ?neg = "if \<not> nv then \<not> nu else nu"
  note d = kara_diff_val [OF len(1) su] kara_diff_val [OF len(2) sv]
  obtain h where h: "p = h @ ?R" "length h = 2 * k" "lval h = lval (take k (drop k up)) * lval (take k (drop k vp))" "length t1 = length tspace"
    by (rule multipliesE [OF k(2), of "drop k up" "drop k vp" "drop (2 * k) prodp" tspace]) (use len p in auto)
  obtain x y where xy: "take (2 * k) prodp = x @ y" "length x = k" "length y = k"
    using split_halves [of "take (2 * k) prodp" k] len by auto
  have P: "store_at (store_at (take (2 * k) prodp @ p) 0 su) k sv = su @ sv @ h @ ?R"
    using xy d(2,4) by (simp add: h(1) store_at_def)
  have M: "length m = 2 * k" "lval m = lval su * lval sv" "length t2 = length tspace - 2 * k"
    by (rule multipliesE [OF k(2), of "su @ sv @ h @ ?R" "sv @ h @ ?R" "take (2 * k) t1" "drop (2 * k) t1"];
        use len m d(2,4) h(4) in \<open>simp add: P\<close>)+
  have L: "length l = 2 * k" "lval l = lval (take k up) * lval (take k vp)" "length t3 = length t2"
    by (rule multipliesE [OF k(2), of up vp m t2]; use len l M in simp)+
  note comb = kara_combine [OF len(1,2) k(1) h(2) M(1) L(1) su sv h(3) M(2) L(2)]
  have "kara_add_l p' (l @ t3) (2 * k) cy = kara_blocks k h m l ?neg @ ?R"
    by (rule kara_blocks_steps [OF d(2) h(2) M(1) L(1) k(1) d(4) hm [unfolded P]])
  then show "stored (4 * k) (lval (take (2 * k) up) * lval (take (2 * k) vp)) prodp (kara_add_l p' (l @ t3) (2 * k) cy)"
    using comb len by (simp add: stored_def)
  show "length (l @ t3) = length tspace" using L M len by simp
qed

lemma odd_identity:
  fixes b :: nat
  assumes "x + b * y = U * V" "s + b * c = y + U * v" "t = s + b * c + (V + b * v) * u"
  shows "x + b * t = (U + b * u) * (V + b * v)"
proof -
  have "x + b * t = x + b * y + b * (U * v + (V + b * v) * u)" using assms(2,3) by (simp add: algebra_simps)
  then show ?thesis using assms(1) by (simp add: algebra_simps)
qed

lemma kara_odd:
  assumes len: "Suc e \<le> length up" "Suc e \<le> length vp" "2 * Suc e \<le> length prodp"
    and q: "stored (2 * e) (lval (take e up) * lval (take e vp)) prodp q"
    and s: "mpn_addmul_1 (take e (drop e q)) (take e up) (vp ! e) = (s, c)"
    and s': "mpn_addmul_1 (take (Suc e) (drop e (store_at (store_at q e s) (e + e) [c]))) (take (Suc e) vp) (up ! e) = (s', c')"
  shows "stored (2 * Suc e) (lval (take (Suc e) up) * lval (take (Suc e) vp)) prodp
    (store_at (store_at (store_at (store_at q e s) (e + e) [c]) e s') (e + Suc e) [c'])"
proof -
  have lq: "length q = length prodp" "drop (2 * e) q = drop (2 * e) prodp" using q by (simp_all add: stored_def)
  define q0 q1 where Q: "q0 = take e q" "q1 = take e (drop e q)"
  have lenQ: "length q0 = e" "length q1 = e" using len lq by (simp_all add: Q)
  obtain a b R where R: "drop (2 * e) prodp = a # b # R" "R = drop (2 * Suc e) prodp"
    using len(3) by (cases "drop (2 * e) prodp"; cases "tl (drop (2 * e) prodp)") (auto simp: drop_Suc tl_drop dest: arg_cong [where f = length] arg_cong [where f = "\<lambda>x. tl (tl x)"])
  have q': "q = q0 @ q1 @ a # b # R"
    using append_take_drop_id [of e q] append_take_drop_id [of e "drop e q"] R(1) lq(2) by (simp add: Q mult_2)
  have v1: "lval s + Bpow e * unat c = lval q1 + lval (take e up) * unat (vp ! e)" "length s = e"
    using mpn_addmul_1_val [of q1 "take e up" "vp ! e" s c] s len lenQ by (simp_all add: Q)
  have st: "store_at (store_at q e s) (e + e) [c] = q0 @ (s @ [c]) @ b # R"
    using lenQ v1(2) by (simp add: q' store_at_def)
  have v2: "lval s' + Bpow (Suc e) * unat c' = lval (s @ [c]) + lval (take (Suc e) vp) * unat (up ! e)" "length s' = Suc e"
    using mpn_addmul_1_val [of "s @ [c]" "take (Suc e) vp" "up ! e" s' c'] s' len lenQ v1(2) by (simp_all add: st)
  have st': "store_at (store_at (q0 @ (s @ [c]) @ b # R) e s') (e + Suc e) [c'] = q0 @ s' @ c' # R"
    using lenQ v1(2) v2(2) by (simp add: store_at_def)
  have tk: "take (Suc e) up = take e up @ [up ! e]" "take (Suc e) vp = take e vp @ [vp ! e]"
    using len by (simp_all add: take_Suc_conv_app_nth)
  have "lval q0 + Bpow e * lval q1 = lval (take e up) * lval (take e vp)"
    using q lenQ by (simp add: stored_def q')
  from odd_identity [OF this v1(1), of "lval s' + Bpow (Suc e) * unat c'" "unat (up ! e)"]
  have "lval (q0 @ s' @ [c']) = lval (take (Suc e) up) * lval (take (Suc e) vp)"
    using v2 v1(2) lenQ len by (simp add: tk)
  then show ?thesis
    unfolding st st' using lenQ v2(2) len lq R by (simp add: stored_def)
qed

lemma kara_cases:
  obtains (basecase) "n < KARATSUBA_THRESHOLD"
  | (even) k where "n = 2 * k" "0 < k" "\<not> n < KARATSUBA_THRESHOLD"
  | (odd) e where "n = Suc e" "0 < e" "e mod 2 = 0" "\<not> n < KARATSUBA_THRESHOLD"
proof (cases "n < KARATSUBA_THRESHOLD")
  case True
  then show thesis by (rule basecase)
next
  case False
  then have "n = 2 * (n div 2) \<and> 0 < n div 2 \<or> n = Suc (n - 1) \<and> 0 < n - 1 \<and> (n - 1) mod 2 = 0"
    unfolding KARATSUBA_THRESHOLD_def by presburger
  then show thesis
  proof
    assume "n = 2 * (n div 2) \<and> 0 < n div 2"
    then show thesis using False even [of "n div 2"] by simp
  next
    assume "n = Suc (n - 1) \<and> 0 < n - 1 \<and> (n - 1) mod 2 = 0"
    then show thesis using False odd [of "n - 1"] by simp
  qed
qed

lemma MPN_MUL_N_RECURSE_multiplies: "0 < n \<Longrightarrow> multiplies MPN_MUL_N_RECURSE n"
proof (induction n rule: less_induct)
  case (less n)
  show ?case
    unfolding multiplies_def
  proof (intro allI impI, goal_cases)
    case (1 p u v t)
    note len = 1
    show ?case
    proof (cases n rule: kara_cases)
      case basecase
      then show ?thesis
        using impn_mul_n_basecase_val [OF less.prems len(1-3)] by (simp add: MPN_MUL_N_RECURSE.simps)
    next
      case k: (even k)
      then have IH: "multiplies MPN_MUL_N_RECURSE k" using less.IH [of k] by simp
      show ?thesis
        using kara_even [OF k(2) IH, of u v p t] len k
        by (auto simp: MPN_MUL_N_RECURSE.simps [of p] impn_mul_n.simps Let_def split: prod.splits)
    next
      case e: (odd e)
      then have IH: "multiplies MPN_MUL_N_RECURSE e" using less.IH [of e] by simp
      obtain q t' where q: "MPN_MUL_N_RECURSE p u v e t = (q, t')" by fastforce
      then have "stored (2 * e) (lval (take e u) * lval (take e v)) p q" "length t' = length t"
        using multipliesD [OF IH _ _ _ _ q] len e by simp_all
      then show ?thesis
        using kara_odd [of e u v p q] len e q
        by (auto simp: MPN_MUL_N_RECURSE.simps [of p u v "Suc e"] impn_mul_n.simps Let_def mod_Suc split: prod.splits)
    qed
  qed
qed

definition squares :: "(limb list \<Rightarrow> limb list \<Rightarrow> nat \<Rightarrow> limb list \<Rightarrow> limb list \<times> limb list) \<Rightarrow> nat \<Rightarrow> bool" where
  "squares f k =
     (\<forall>p u t. k \<le> length u \<longrightarrow> 2 * k \<le> length p \<longrightarrow> 2 * k \<le> length t \<longrightarrow>
        (case f p u k t of (q, t') \<Rightarrow> stored (2 * k) (lval (take k u) * lval (take k u)) p q \<and> length t' = length t))"

lemma squaresD:
  "\<lbrakk>squares f k; k \<le> length u; 2 * k \<le> length p; 2 * k \<le> length t; f p u k t = (q, t')\<rbrakk> \<Longrightarrow>
    stored (2 * k) (lval (take k u) * lval (take k u)) p q \<and> length t' = length t"
  unfolding squares_def by fastforce

lemma squaresE:
  assumes "squares f k" "k \<le> length u" "2 * k \<le> length p" "2 * k \<le> length t"
  obtains r t' where "f p u k t = (r @ drop (2 * k) p, t')" "length r = 2 * k" "lval r = lval (take k u) * lval (take k u)"
    "length t' = length t"
proof -
  obtain q t' where q: "f p u k t = (q, t')" by fastforce
  have "stored (2 * k) (lval (take k u) * lval (take k u)) p q" "length t' = length t"
    using squaresD [OF assms q] by simp_all
  then show thesis
    using that [of "take (2 * k) q" t'] q assms(3) append_take_drop_id [of "2 * k" q] by (simp add: stored_def)
qed

lemma kara_sqr_even:
  assumes k: "0 < k" "squares f k" and len: "2 * k \<le> length up" "4 * k \<le> length prodp" "4 * k \<le> length tspace"
    and p: "f (drop (2 * k) prodp) (drop k up) k tspace = (p, t1)"
    and m: "f (take (2 * k) t1) (store_at (take (2 * k) prodp @ p) 0 (fst (kara_diff up k))) k (drop (2 * k) t1) = (m, t2)"
    and hm: "kara_add_hm (store_at (take (2 * k) prodp @ p) 0 (fst (kara_diff up k))) (m @ t2) (2 * k) True = (p', cy)"
    and l: "f (take (2 * k) (m @ t2)) up k (drop (2 * k) (m @ t2)) = (l, t3)"
  shows "stored (4 * k) (lval (take (2 * k) up) * lval (take (2 * k) up)) prodp (kara_add_l p' (l @ t3) (2 * k) cy)"
    "length (l @ t3) = length tspace"
proof -
  let ?R = "drop (4 * k) prodp"
  obtain su nu where su: "kara_diff up k = (su, nu)" by fastforce
  note d = kara_diff_val [OF len(1) su]
  obtain h where h: "p = h @ ?R" "length h = 2 * k" "lval h = lval (take k (drop k up)) * lval (take k (drop k up))" "length t1 = length tspace"
    by (rule squaresE [OF k(2), of "drop k up" "drop (2 * k) prodp" tspace]) (use len p in auto)
  obtain x y where xy: "take (2 * k) prodp = x @ y" "length x = k" "length y = k"
    using split_halves [of "take (2 * k) prodp" k] len by auto
  have P: "store_at (take (2 * k) prodp @ p) 0 (fst (kara_diff up k)) = su @ y @ h @ ?R"
    using xy d(2) by (simp add: h(1) su store_at_def)
  have M: "length m = 2 * k" "lval m = lval su * lval su" "length t2 = length tspace - 2 * k"
    by (rule squaresE [OF k(2), of "su @ y @ h @ ?R" "take (2 * k) t1" "drop (2 * k) t1"];
        use len m d(2) h(4) in \<open>simp add: P\<close>)+
  have L: "length l = 2 * k" "lval l = lval (take k up) * lval (take k up)" "length t3 = length t2"
    by (rule squaresE [OF k(2), of up m t2]; use len l M in simp)+
  show "stored (4 * k) (lval (take (2 * k) up) * lval (take (2 * k) up)) prodp (kara_add_l p' (l @ t3) (2 * k) cy)"
    using kara_blocks_steps [OF d(2) h(2) M(1) L(1) k(1) xy(3) hm [unfolded P]]
      kara_combine [OF len(1,1) k(1) h(2) M(1) L(1) su su h(3) M(2) L(2)] len by (cases nu) (simp_all add: stored_def)
  show "length (l @ t3) = length tspace" using L M len by simp
qed

lemma MPN_SQR_N_RECURSE_squares: "0 < n \<Longrightarrow> squares MPN_SQR_N_RECURSE n"
proof (induction n rule: less_induct)
  case (less n)
  show ?case
    unfolding squares_def
  proof (intro allI impI, goal_cases)
    case (1 p u t)
    note len = 1
    show ?case
    proof (cases n rule: kara_cases)
      case basecase
      then show ?thesis
        using impn_mul_n_basecase_val [OF less.prems len(1,1,2)]
        by (simp add: MPN_SQR_N_RECURSE.simps impn_sqr_n_basecase_def impn_mul_n_basecase_def)
    next
      case k: (even k)
      then have IH: "squares MPN_SQR_N_RECURSE k" using less.IH [of k] by simp
      show ?thesis
        using kara_sqr_even [OF k(2) IH, of u p t] len k
        by (auto simp: MPN_SQR_N_RECURSE.simps [of p] impn_sqr_n.simps Let_def split: prod.splits)
    next
      case e: (odd e)
      then have IH: "squares MPN_SQR_N_RECURSE e" using less.IH [of e] by simp
      obtain q t' where q: "MPN_SQR_N_RECURSE p u e t = (q, t')" by fastforce
      then have "stored (2 * e) (lval (take e u) * lval (take e u)) p q" "length t' = length t"
        using squaresD [OF IH _ _ _ q] len e by simp_all
      then show ?thesis
        using kara_odd [of e u u p q] len e q
        by (auto simp: MPN_SQR_N_RECURSE.simps [of p u "Suc e"] impn_sqr_n.simps Let_def mod_Suc split: prod.splits)
    qed
  qed
qed

end
