(* ===== verification/Mpn_Mul.thy ===== *)
theory Mpn_Mul
  imports Mpn_Karatsuba
begin

text \<open>
  The entry points \<open>mpn_mul_n\<close> of \<open>stdlib/mul_n.c\<close>, for two numbers of the same size, and \<open>mpn_mul\<close> of
  \<open>stdlib/mul.c\<close>, for any two.

  \<open>tmp_alloc\<close> stands for \<open>TMP_ALLOC\<close>, the stack memory of a routine: a size gives an array of that many limbs, of
  unknown contents.  \<open>up_eq_vp\<close> says whether the pointers \<open>up\<close> and \<open>vp\<close> are the same.
\<close>

definition mpn_mul_n :: "(nat \<Rightarrow> limb list) \<Rightarrow> bool \<Rightarrow> limb list \<Rightarrow> limb list \<Rightarrow> limb list \<Rightarrow> nat \<Rightarrow> limb list" where
  "mpn_mul_n tmp_alloc up_eq_vp prodp up vp n =
     (if up_eq_vp
      then (if n < KARATSUBA_THRESHOLD then impn_sqr_n_basecase prodp (take n up)
            else fst (impn_sqr_n prodp up n (tmp_alloc (2 * n))))
      else (if n < KARATSUBA_THRESHOLD then impn_mul_n_basecase prodp (take n up) (take n vp)
            else fst (impn_mul_n prodp up vp n (tmp_alloc (2 * n)))))"

text \<open>
  The end of a round: the product \<open>tp\<close> of \<open>k\<close> limbs of \<open>up\<close> and of \<open>vp\<close> is added at \<open>prodp + i\<close>, where its low
  limbs meet the high ones of what is there and its high limbs are new.
\<close>

definition mul_add_block :: "limb list \<Rightarrow> nat \<Rightarrow> limb list \<Rightarrow> nat \<Rightarrow> nat \<Rightarrow> limb list" where
  "mul_add_block prodp i tp vsize k =
     (let (s, cy) = mpn_add_n (take vsize (drop i prodp)) (take vsize tp);
          prodp = store_at prodp i s
      in store_at prodp (i + vsize) (fst (mpn_add_1 (take k (drop vsize tp)) cy)))"

function mul_chunks ::
  "limb list \<Rightarrow> nat \<Rightarrow> limb list \<Rightarrow> limb list \<Rightarrow> limb list \<Rightarrow> limb list \<Rightarrow> limb list \<times> nat \<times> limb list" where
  "mul_chunks prodp i up vp tspace tp =
     (let vsize = length vp in
      if length up - i \<ge> vsize \<and> 0 < vsize
      then let (tp, tspace) = MPN_MUL_N_RECURSE tp (drop i up) vp vsize tspace;
               prodp = mul_add_block prodp i tp vsize vsize
           in mul_chunks prodp (i + vsize) up vp tspace tp
      else (prodp, i, tspace))"
  by pat_completeness auto
termination
proof (relation "measure (\<lambda>(_, i, up, _). length up - i)", goal_cases)
  case (2 prodp i up vp tspace tp x)
  then have "0 < length vp" "length vp \<le> length up - i" "x = length vp" by simp_all
  then have "length up - (i + x) < length up - i" by linarith
  then show ?case by simp
qed simp

declare mul_chunks.simps [simp del]

lemma mul_chunks_exit: "vp \<noteq> [] \<Longrightarrow> mul_chunks prodp i up vp tspace tp = (q, j, t) \<Longrightarrow> length up - j < length vp"
  by (induction prodp i up vp tspace tp rule: mul_chunks.induct)
    (subst (asm) (2) mul_chunks.simps; auto simp: Let_def split: if_splits prod.splits)

function mpn_mul :: "(nat \<Rightarrow> limb list) \<Rightarrow> limb list \<Rightarrow> limb list \<Rightarrow> limb list \<Rightarrow> limb list \<times> limb" where
  "mpn_mul tmp_alloc prodp up vp =
     (let usize = length up; vsize = length vp in
      if vsize < KARATSUBA_THRESHOLD
      then (if vsize = 0 then (prodp, 0) else mul_basecase prodp up vp)
      else let (prodp, tspace) = MPN_MUL_N_RECURSE prodp up vp vsize (tmp_alloc (2 * vsize));
               (prodp, i, tspace) =
                 (if usize - vsize \<ge> vsize then mul_chunks prodp vsize up vp tspace (tmp_alloc (2 * vsize))
                  else (prodp, vsize, tspace));
               prodp =
                 (if usize - i \<noteq> 0
                  then mul_add_block prodp i (fst (mpn_mul tmp_alloc tspace vp (drop i up))) vsize (usize - i)
                  else prodp)
           in (prodp, prodp ! (usize + vsize - 1)))"
  by pat_completeness auto
termination
proof (relation "measure (\<lambda>(_, _, _, vp). length vp)", goal_cases)
  case (2 tmp_alloc prodp up vp x xa xb y z xc xd ya xe yb)
  have "vp \<noteq> []" using 2(2,3) by (auto simp: KARATSUBA_THRESHOLD_def)
  then have "mul_chunks p i up vp t t' = (q, j, s) \<Longrightarrow> length up - j < length vp" for p i t t' q j s
    by (rule mul_chunks_exit)
  then show ?case using 2 by (auto split: if_splits dest: sym)
qed simp

declare mpn_mul.simps [simp del]

lemma mul_fits:
  fixes b :: nat
  assumes "p < b" "x < c" "v < b"
  shows "p + x * v < b * c"
proof -
  have "p + x * v < b + x * b" using assms by (intro add_less_le_mono) simp_all
  also have "\<dots> = Suc x * b" by simp
  also have "\<dots> \<le> c * b" using assms(2) by (intro mult_le_mono1) simp
  finally show ?thesis by (simp add: mult.commute)
qed

lemma no_carry:
  fixes b :: nat
  assumes "s + b * (r + d * c) < b * d"
  shows "s + b * (r + d * c) = s + b * r"
proof (cases c)
  case (Suc n)
  have "b * d \<le> b * (d * c)" using Suc by simp
  also have "\<dots> \<le> s + b * (r + d * c)" by (simp add: distrib_left)
  finally show ?thesis using assms by simp
qed simp

lemma mul_add_block_val:
  assumes prod: "stored (i + vs) (lval (take i up) * V) prodp0 prodp" and V: "V < Bpow vs" and k: "0 < k"
    and len: "i + k + vs \<le> length prodp" "i + k \<le> length up" "vs + k \<le> length tp"
    and tp: "lval (take (vs + k) tp) = lval (take k (drop i up)) * V"
  shows "stored (i + k + vs) (lval (take (i + k) up) * V) prodp0 (mul_add_block prodp i tp vs k)"
proof -
  define p0 p1 R where P: "p0 = take i prodp" "p1 = take vs (drop i prodp)" "R = drop (i + vs + k) prodp"
  define t0 t1 where T: "t0 = take vs tp" "t1 = take k (drop vs tp)"
  define X where "X = lval (take k (drop i up))"
  have l: "length p0 = i" "length p1 = vs" "length t0 = vs" "length t1 = k" using len by (simp_all add: P T)
  obtain s cy where s: "mpn_add_n p1 t0 = (s, cy)" by fastforce
  obtain r c where r: "mpn_add_1 t1 cy = (r, c)" by fastforce
  have s': "lval s + Bpow vs * unat cy = lval p1 + lval t0" "length s = vs" "unat cy \<le> 1"
    using mpn_add_n_val [OF s] l by simp_all
  have r': "lval r + Bpow k * unat c = lval t1 + unat cy" "length r = k"
    using mpn_add_1_val [of t1 cy r c] r l k by auto
  have tv: "lval t0 + Bpow vs * lval t1 = X * V"
    using tp l by (simp add: take_add T X_def)
  have pv: "lval p0 + Bpow i * lval p1 = lval (take i up) * V"
    using prod len(1) by (simp add: stored_def take_add P min_absorb2)
  have eq: "mul_add_block prodp i tp vs k = p0 @ s @ r @ R"
  proof -
    define y where "y = take k (drop (i + vs) prodp)"
    have y: "length y = k" using len by (simp add: y_def)
    have "prodp = p0 @ p1 @ y @ R"
      using append_take_drop_id [of i prodp] append_take_drop_id [of vs "drop i prodp"] append_take_drop_id [of k "drop (i + vs) prodp"]
      by (simp add: P y_def add.commute)
    then show ?thesis
      using l s'(2) r'(2) y s r by (simp add: mul_add_block_def Let_def store_at_def T)
  qed
  have "lval s + Bpow vs * (lval r + Bpow k * unat c) = lval p1 + X * V"
    using s'(1) r'(1) tv by (simp add: algebra_simps)
  moreover have "lval p1 + X * V < Bpow vs * Bpow k"
    using V lval_less [of p1] lval_less [of "take k (drop i up)"] l len by (intro mul_fits) (simp_all add: X_def)
  ultimately have "lval s + Bpow vs * lval r = lval p1 + X * V"
    using no_carry [of "lval s" "Bpow vs" "lval r" "Bpow k" "unat c"] by simp
  then have "lval (p0 @ s @ r) = lval (take (i + k) up) * V"
    using pv l s'(2) len by (simp add: take_add X_def algebra_simps)
  moreover have "R = drop (i + k + vs) prodp0"
  proof -
    have "R = drop k (drop (i + vs) prodp)" by (simp add: P add.commute)
    also have "\<dots> = drop k (drop (i + vs) prodp0)" using prod by (simp only: stored_def)
    finally show ?thesis by (simp add: ac_simps)
  qed
  ultimately show ?thesis
    using prod l s'(2) r'(2) len by (simp add: stored_def eq)
qed

lemma mul_chunks_step:
  assumes "length vp \<le> length up - i" "0 < length vp" "MPN_MUL_N_RECURSE tp (drop i up) vp (length vp) tspace = (tp', ts)"
  shows "mul_chunks prodp i up vp tspace tp =
    mul_chunks (mul_add_block prodp i tp' (length vp) (length vp)) (i + length vp) up vp ts tp'"
  using assms by (subst mul_chunks.simps) (simp add: Let_def)

lemma mul_chunks_val:
  assumes "mul_chunks prodp i up vp tspace tp = (q, j, t)" "vp \<noteq> []" "length up + length vp \<le> length prodp0" "i \<le> length up"
    "2 * length vp \<le> length tp" "2 * length vp \<le> length tspace"
    "stored (i + length vp) (lval (take i up) * lval vp) prodp0 prodp"
  shows "stored (j + length vp) (lval (take j up) * lval vp) prodp0 q \<and> length t = length tspace \<and> j \<le> length up"
  using assms
proof (induction prodp i up vp tspace tp arbitrary: q j t rule: mul_chunks.induct)
  case (1 prodp i up vp tspace tp)
  let ?v = "length vp"
  show ?case
  proof (cases "?v \<le> length up - i")
    case True
    then have iv: "i + ?v \<le> length up" "0 < ?v" using 1(3,5) by auto
    obtain tp' ts where rec: "MPN_MUL_N_RECURSE tp (drop i up) vp ?v tspace = (tp', ts)" by fastforce
    from multipliesD [OF MPN_MUL_N_RECURSE_multiplies [OF iv(2)] _ _ _ _ rec] 1(6,7) iv
    have tp': "stored (2 * ?v) (lval (take ?v (drop i up)) * lval vp) tp tp'" "length ts = length tspace" by simp_all
    have st: "stored (i + ?v + ?v) (lval (take (i + ?v) up) * lval vp) prodp0 (mul_add_block prodp i tp' ?v ?v)"
      by (rule mul_add_block_val [OF 1(8) lval_less [of vp]])
        (use 1(4,6,8) iv tp' in \<open>simp_all add: stored_def mult_2\<close>)
    have nxt: "mul_chunks (mul_add_block prodp i tp' ?v ?v) (i + ?v) up vp ts tp' = (q, j, t)"
      using 1(2) mul_chunks_step [OF True iv(2) rec] by simp
    have len: "2 * ?v \<le> length tp'" "2 * ?v \<le> length ts" using tp' 1(6,7) by (simp_all add: stored_def)
    have cond: "?v \<le> length up - i \<and> 0 < ?v" using True iv(2) by simp
    show ?thesis
      unfolding tp'(2) [symmetric] by (rule 1(1) [OF refl cond refl rec [symmetric] refl nxt 1(3,4) iv(1) len st])
  next
    case False
    then show ?thesis using 1(5,8) 1(2) [unfolded mul_chunks.simps [of prodp i]] by (simp add: Let_def)
  qed
qed

lemma mul_chunks_from:
  assumes ch: "(if length up - length vp \<ge> length vp then mul_chunks q1 (length vp) up vp t1 tp else (q1, length vp, t1)) = (q2, i, t2)"
    and len: "vp \<noteq> []" "length vp \<le> length up" "length up + length vp \<le> length prodp"
      "length t1 = 2 * length vp" "length tp = 2 * length vp"
    and q1: "stored (length vp + length vp) (lval (take (length vp) up) * lval vp) prodp q1"
  shows "stored (i + length vp) (lval (take i up) * lval vp) prodp q2 \<and> length t2 = 2 * length vp \<and> i \<le> length up \<and>
    length up - i < length vp"
proof (cases "length vp \<le> length up - length vp")
  case True
  then have "mul_chunks q1 (length vp) up vp t1 tp = (q2, i, t2)" using ch by simp
  then show ?thesis
    using mul_chunks_val [OF _ len(1,3,2) _ _ q1, of t1 tp q2 i t2] mul_chunks_exit [OF len(1), of q1 "length vp" up t1 tp q2 i t2] len(4,5)
    by simp
next
  case False
  then show ?thesis using ch q1 len by simp
qed

lemma mpn_mul_big:
  assumes "\<not> length vp < KARATSUBA_THRESHOLD"
    and "MPN_MUL_N_RECURSE prodp up vp (length vp) (tmp_alloc (2 * length vp)) = (q1, t1)"
    and "(if length up - length vp \<ge> length vp then mul_chunks q1 (length vp) up vp t1 (tmp_alloc (2 * length vp))
          else (q1, length vp, t1)) = (q2, i, t2)"
  shows "mpn_mul tmp_alloc prodp up vp =
    (let q = (if length up - i \<noteq> 0
              then mul_add_block q2 i (fst (mpn_mul tmp_alloc t2 vp (drop i up))) (length vp) (length up - i) else q2)
     in (q, q ! (length up + length vp - 1)))"
  unfolding mpn_mul.simps [of tmp_alloc prodp] Let_def assms(2) prod.case assms(3) using assms(1) by simp

lemma mpn_mul_val:
  assumes "mpn_mul tmp_alloc prodp up vp = (q, c)" "\<And>n. length (tmp_alloc n) = n" "vp \<noteq> []" "length vp \<le> length up"
    "length up + length vp \<le> length prodp"
  shows "stored (length up + length vp) (lval up * lval vp) prodp q \<and> c = q ! (length up + length vp - 1)"
  using assms
proof (induction "length vp" arbitrary: prodp up vp q c rule: less_induct)
  case less
  let ?u = "length up" and ?v = "length vp"
  show ?case
  proof (cases "?v < KARATSUBA_THRESHOLD")
    case True
    then show ?thesis
      using mul_basecase_val [of up vp prodp q c] less.prems(3-5) less.prems(1) [unfolded mpn_mul.simps [of tmp_alloc prodp]]
      by (cases up) auto
  next
    case False
    obtain q1 t1 where rec: "MPN_MUL_N_RECURSE prodp up vp ?v (tmp_alloc (2 * ?v)) = (q1, t1)" by fastforce
    have v: "0 < ?v" using less.prems(3) by simp
    from multipliesD [OF MPN_MUL_N_RECURSE_multiplies [OF v] _ _ _ _ rec] less.prems(2-5)
    have q1: "stored (?v + ?v) (lval (take ?v up) * lval vp) prodp q1" "length t1 = 2 * ?v" by (simp_all add: mult_2)
    obtain q2 i t2 where ch: "(if ?u - ?v \<ge> ?v then mul_chunks q1 ?v up vp t1 (tmp_alloc (2 * ?v)) else (q1, ?v, t1)) = (q2, i, t2)"
      by (rule prod_cases3)
    have q2: "stored (i + ?v) (lval (take i up) * lval vp) prodp q2" "length t2 = 2 * ?v" "i \<le> ?u" "?u - i < ?v"
      using mul_chunks_from [OF ch less.prems(3-5) _ _ q1(1)] q1(2) less.prems(2) by simp_all
    have q: "q = (if ?u - i \<noteq> 0 then mul_add_block q2 i (fst (mpn_mul tmp_alloc t2 vp (drop i up))) ?v (?u - i) else q2)"
      "c = q ! (?u + ?v - 1)"
      using less.prems(1) unfolding mpn_mul_big [where tmp_alloc = tmp_alloc, OF False rec ch] Let_def by auto
    show ?thesis
    proof (cases "?u - i = 0")
      case True
      then show ?thesis using q q2 by (simp)
    next
      case ne: False
      obtain tp d where tp: "mpn_mul tmp_alloc t2 vp (drop i up) = (tp, d)" by fastforce
      have tp': "stored (?v + (?u - i)) (lval vp * lval (drop i up)) t2 tp"
        using less.hyps [of "drop i up" t2 vp tp d] tp q2 ne less.prems(2) by simp
      have k: "0 < ?u - i" "i + (?u - i) + ?v \<le> length q2" "i + (?u - i) \<le> ?u" "?v + (?u - i) \<le> length tp"
        using ne less.prems(5) q2 tp' by (simp_all add: stored_def)
      have "lval (take (?v + (?u - i)) tp) = lval (take (?u - i) (drop i up)) * lval vp"
        using tp' by (simp add: stored_def mult.commute)
      from mul_add_block_val [OF q2(1) lval_less k this]
      have "stored (?u + ?v) (lval up * lval vp) prodp (mul_add_block q2 i tp ?v (?u - i))"
        using q2(3) by simp
      then show ?thesis using q ne tp q2(3) by simp
    qed
  qed
qed

section \<open>Properties\<close>

lemma lval_inject: "\<lbrakk>length xs = length ys; lval xs = lval ys\<rbrakk> \<Longrightarrow> xs = ys"
proof (induction xs ys rule: list_induct2)
  case (Cons x xs y ys)
  have "unat x = lval (x # xs) mod 2 ^ 64" "lval xs = lval (x # xs) div 2 ^ 64"
    "unat y = lval (y # ys) mod 2 ^ 64" "lval ys = lval (y # ys) div 2 ^ 64"
    using unat_lt2p [of x] unat_lt2p [of y] by simp_all
  then have "unat x = unat y" "lval xs = lval ys" using Cons.prems by metis+
  then show ?case using Cons.IH by (simp add: word_unat_eq_iff)
qed simp

lemma stored_unique:
  assumes "stored n r p q" "stored n r p q'" "n \<le> length p"
  shows "q = q'"
  using assms lval_inject [of "take n q" "take n q'"] append_take_drop_id [of n q] append_take_drop_id [of n q']
  by (metis length_take stored_def)

text \<open>
  C25: \<open>mpn_mul_n\<close>, with Karatsuba's recursion and with its special case for squares, leaves the same limbs as the
  schoolbook method, whatever the scratch space holds.
\<close>

theorem mpn_mul_n_schoolbook:
  assumes "0 < n" "n \<le> length up" "n \<le> length vp" "2 * n \<le> length prodp" "up_eq_vp \<Longrightarrow> up = vp"
    and "\<And>k. length (tmp_alloc k) = k"
  shows "mpn_mul_n tmp_alloc up_eq_vp prodp up vp n = impn_mul_n_basecase prodp (take n up) (take n vp)"
proof -
  let ?r = "lval (take n up) * lval (take n vp)"
  have "mpn_mul_n tmp_alloc up_eq_vp prodp up vp n =
    (if up_eq_vp then fst (MPN_SQR_N_RECURSE prodp up n (tmp_alloc (2 * n)))
     else fst (MPN_MUL_N_RECURSE prodp up vp n (tmp_alloc (2 * n))))"
    by (simp add: mpn_mul_n_def MPN_SQR_N_RECURSE.simps MPN_MUL_N_RECURSE.simps)
  moreover obtain q t where q: "MPN_MUL_N_RECURSE prodp up vp n (tmp_alloc (2 * n)) = (q, t)" by fastforce
  moreover obtain q' t' where q': "MPN_SQR_N_RECURSE prodp up n (tmp_alloc (2 * n)) = (q', t')" by fastforce
  moreover have "stored (2 * n) ?r prodp q"
    using multipliesD [OF MPN_MUL_N_RECURSE_multiplies [OF assms(1)] assms(2-4) _ q] assms(6) by simp
  moreover have "up = vp \<Longrightarrow> stored (2 * n) ?r prodp q'"
    using squaresD [OF MPN_SQR_N_RECURSE_squares [OF assms(1)] assms(2,4) _ q'] assms(6) by simp
  ultimately have "stored (2 * n) ?r prodp (mpn_mul_n tmp_alloc up_eq_vp prodp up vp n)"
    using assms(5) by (cases up_eq_vp) simp_all
  then show ?thesis by (rule stored_unique [OF _ impn_mul_n_basecase_val [OF assms(1-4)] assms(4)])
qed

theorem mpn_mul_n_schoolbook_witness:
  "mpn_mul_n (\<lambda>k. replicate k 9) True (replicate 90 1) (replicate 41 (- 1)) (replicate 41 (- 1)) 41 =
   impn_mul_n_basecase (replicate 90 1) (replicate 41 (- 1)) (replicate 41 (- 1))"
  using mpn_mul_n_schoolbook [of 41 "replicate 41 (- 1)" "replicate 41 (- 1)" "replicate 90 1" True "\<lambda>k. replicate k 9"]
  by simp

text \<open>
  C26: \<open>mpn_mul\<close> stores the product of two numbers of any sizes, the second not longer than the first and not
  empty: the product fills as many limbs as the operands have together, no other limb of the destination is
  written, and the most significant limb is returned.
\<close>

theorem mpn_mul_product:
  assumes "mpn_mul tmp_alloc prodp up vp = (q, c)" "\<And>n. length (tmp_alloc n) = n" "vp \<noteq> []" "length vp \<le> length up"
    "length up + length vp \<le> length prodp"
  shows "lval (take (length up + length vp) q) = lval up * lval vp \<and> length q = length prodp \<and>
    drop (length up + length vp) q = drop (length up + length vp) prodp \<and> c = q ! (length up + length vp - 1)"
  using mpn_mul_val [OF assms] by (simp add: stored_def)

theorem mpn_mul_product_witness:
  "\<exists>q c. mpn_mul (\<lambda>k. replicate k 9) (replicate 150 1) (replicate 100 7) (replicate 40 (- 1)) = (q, c) \<and>
     lval (take 140 q) = lval (replicate 100 7) * lval (replicate 40 (- 1)) \<and> drop 140 q = replicate 10 1"
proof -
  obtain q c where q: "mpn_mul (\<lambda>k. replicate k 9) (replicate 150 1) (replicate 100 7) (replicate 40 (- 1)) = (q, c)"
    by fastforce
  then show ?thesis using mpn_mul_product [OF q] by auto
qed

end
