(* ===== verification/Mpn_Udiv.thy ===== *)
theory Mpn_Udiv
  imports Mpn_Mul
begin

text \<open>
  Division of a number by one limb: \<open>__udiv_qrnnd_c\<close> and \<open>count_leading_zeros\<close> of \<open>stdlib/longlong.h\<close>,
  \<open>stdlib/divmod_1.c\<close> and \<open>stdlib/mod_1.c\<close>.

  \<open>UDIV_TIME\<close> is \<open>UMUL_TIME\<close>, so the branches of the two routines that multiply by the inverse of the divisor are never
  taken, and \<open>UDIV_NEEDS_NORMALIZATION\<close> is set, since \<open>udiv_qrnnd\<close> is the version in C.  The digits of
  \<open>__udiv_qrnnd_c\<close> are two half limbs; \<open>udiv_half\<close> is the code for one of them, which the macro has twice.
\<close>

unbundle bit_operations_syntax

section \<open>Two limbs by one\<close>

definition udiv_half :: "limb \<Rightarrow> limb \<Rightarrow> limb \<Rightarrow> limb \<times> limb" where
  "udiv_half n x d =
     (let d1 = ll_highpart d; d0 = ll_lowpart d;
          r1 = n mod d1; q1 = n div d1;
          m = q1 * d0;
          r1 = r1 * ll_B OR x;
          (q1, r1) =
            (if r1 < m
             then let q1 = q1 - 1; r1 = r1 + d
                  in if r1 \<ge> d then (if r1 < m then (q1 - 1, r1 + d) else (q1, r1)) else (q1, r1)
             else (q1, r1))
      in (q1, r1 - m))"

definition udiv_qrnnd :: "limb \<Rightarrow> limb \<Rightarrow> limb \<Rightarrow> limb \<times> limb" where
  "udiv_qrnnd n1 n0 d =
     (let (q1, r1) = udiv_half n1 (ll_highpart n0) d;
          (q0, r0) = udiv_half r1 (ll_lowpart n0) d
      in (q1 * ll_B OR q0, r0))"

lemma or_high_low:
  fixes h l :: limb
  assumes "unat l < 2 ^ 32" "unat h < 2 ^ 32"
  shows "unat (h * ll_B OR l) = unat h * 2 ^ 32 + unat l"
proof -
  have e: "h * ll_B = push_bit 32 h" by (simp add: ll_B_def push_bit_eq_mult)
  have h: "unat (push_bit 32 h) = unat h * 2 ^ 32"
    unfolding e [symmetric] using assms(2) by (subst unat_mult_small) (simp_all add: unat_ll_parts)
  have "take_bit 32 l = l"
    using assms(1) by (simp add: word_unat_eq_iff unsigned_take_bit_eq take_bit_nat_eq_self)
  moreover have "push_bit 32 h AND take_bit 32 l = 0" by (intro bit_word_eqI) (auto simp: bit_simps)
  ultimately have "unat (push_bit 32 h) AND unat l = 0" by (metis unsigned_0 unsigned_and_eq)
  then show ?thesis
    unfolding e using h by (simp add: unsigned_or_eq flip: disjunctive_add_eq_or)
qed

lemma half_estimate:
  fixes b :: int
  assumes "d = d1 * b + d0" "0 \<le> d0" "d0 < b" "b \<le> 2 * d1" "0 \<le> n" "n < d" "0 \<le> x" "x < b"
  defines "q \<equiv> n div d1" and "r \<equiv> n mod d1 * b + x"
  shows "0 \<le> q" "q \<le> b + 1" "0 \<le> r" "r < d" "q * d0 < b * b" "n * b + x = q * d + (r - q * d0)"
proof -
  have d1: "0 < d1" using assms by linarith
  have nd: "n = q * d1 + n mod d1" "0 \<le> n mod d1" "n mod d1 < d1"
    using d1 by (simp_all add: q_def)
  show q0: "0 \<le> q" using d1 assms(5) by (simp add: q_def pos_imp_zdiv_nonneg_iff)
  show "0 \<le> r" using nd assms by (simp add: r_def)
  have "n mod d1 * b \<le> (d1 - 1) * b" using nd assms by (intro mult_right_mono) auto
  then show "r < d" using assms by (simp add: r_def algebra_simps)
  show qb: "q \<le> b + 1"
  proof (rule ccontr)
    assume "\<not> q \<le> b + 1"
    then have "(b + 2) * d1 \<le> q * d1" using d1 by (intro mult_right_mono) auto
    moreover have "(b + 2) * d1 = d1 * b + 2 * d1" by (simp add: algebra_simps)
    ultimately show False using nd assms(1,3,4,6) by linarith
  qed
  have "q * d0 \<le> (b + 1) * (b - 1)" using qb q0 assms by (intro mult_mono) auto
  then show "q * d0 < b * b" by (simp add: algebra_simps)
  have "n * b = (q * d1 + n mod d1) * b" using nd(1) by simp
  then show "n * b + x = q * d + (r - q * d0)" unfolding r_def assms(1) by (simp add: algebra_simps)
qed

lemma div_unique_range:
  fixes q d :: int
  assumes "q * d + r = n" "0 \<le> r" "r < d" "0 \<le> n" "n < c * d"
  shows "0 \<le> q" "q < c"
proof -
  show "0 \<le> q"
  proof (rule ccontr)
    assume "\<not> 0 \<le> q"
    then have "q * d \<le> (- 1) * d" using assms(2,3) by (intro mult_right_mono) auto
    then show False using assms by linarith
  qed
  show "q < c"
  proof (rule ccontr)
    assume "\<not> q < c"
    then have "c * d \<le> q * d" using assms(2,3) by (intro mult_right_mono) auto
    then show False using assms by linarith
  qed
qed

lemma uint_of_int_limb: "0 \<le> i \<Longrightarrow> i < 2 ^ 64 \<Longrightarrow> uint (word_of_int i :: limb) = i"
  by (simp add: uint_word_of_int_eq take_bit_int_eq_self)

lemma limb_uint:
  fixes v w :: limb
  shows "unat v < unat w \<longleftrightarrow> uint v < uint w" "unat w < 2 ^ k \<longleftrightarrow> uint w < 2 ^ k" "2 ^ k \<le> unat w \<longleftrightarrow> 2 ^ k \<le> uint w"
proof -
  have "int (2 ^ k) = 2 ^ k" by simp
  then show "unat v < unat w \<longleftrightarrow> uint v < uint w" "unat w < 2 ^ k \<longleftrightarrow> uint w < 2 ^ k" "2 ^ k \<le> unat w \<longleftrightarrow> 2 ^ k \<le> uint w"
    unfolding uint_nat by (metis of_nat_less_iff of_nat_le_iff)+
qed

lemma udiv_half_spec:
  assumes d: "2 ^ 63 \<le> unat d" and n: "unat n < unat d" and x: "unat x < 2 ^ 32" and r: "udiv_half n x d = (q, r)"
  shows "unat q * unat d + unat r = unat n * 2 ^ 32 + unat x" "unat r < unat d" "unat q < 2 ^ 32"
proof -
  define d1 d0 where dd: "d1 = ll_highpart d" "d0 = ll_lowpart d"
  define q1 m r1 where w: "q1 = n div d1" "m = q1 * d0" "r1 = n mod d1 * ll_B OR x"
  have ud: "uint d1 = uint d div 2 ^ 32" "uint d0 = uint d mod 2 ^ 32"
    unfolding dd uint_nat unat_ll_parts by (simp_all add: zdiv_int zmod_int)
  have lt: "uint d < 2 ^ 64" "2 ^ 63 \<le> uint d" "uint n < uint d" "uint x < 2 ^ 32"
    using uint_lt2p [of d] d n x unfolding limb_uint by simp_all
  have D: "uint d = uint d1 * 2 ^ 32 + uint d0" "0 \<le> uint d0" "uint d0 < 2 ^ 32" "2 ^ 32 \<le> 2 * uint d1"
    using lt(2) unfolding ud by simp_all
  note est = half_estimate [OF D uint_ge_0 lt(3) uint_ge_0 lt(4)]
  have q1: "uint q1 = uint n div uint d1" by (simp add: w uint_div)
  have r1: "uint r1 = uint n mod uint d1 * 2 ^ 32 + uint x"
  proof -
    have "unat d1 < 2 ^ 32" using unat_lt2p [of d] by (simp add: dd unat_ll_parts less_mult_imp_div_less)
    moreover have "0 < unat d1" using D(4) by (cases "d1 = 0") (simp_all add: unat_gt_0)
    then have "unat (n mod d1) < unat d1" by (simp add: unat_mod)
    ultimately have "unat (n mod d1) < 2 ^ 32" by linarith
    from arg_cong [where f = int, OF or_high_low [OF x this]] show ?thesis by (simp add: w uint_mod)
  qed
  have m: "uint m = uint q1 * uint d0"
    using est(1,5) D(2) unfolding w(2) by (simp add: uint_word_ariths q1)
  obtain k :: int where k: "q = word_of_int (uint q1 - k)" "r = word_of_int (uint r1 + k * uint d - uint m)"
    "0 \<le> uint r1 + k * uint d - uint m" "uint r1 + k * uint d - uint m < uint d"
  proof -
    have qr: "(q, r) = (let (q1, r1) = (if r1 < m then if r1 + d \<ge> d \<and> r1 + d < m then (q1 - 1 - 1, r1 + d + d) else (q1 - 1, r1 + d) else (q1, r1))
        in (q1, r1 - m))"
      using r by (auto simp: udiv_half_def Let_def dd w split: if_splits)
    note rm = est(3-5) [folded q1, folded r1, folded m]
    have sum: "uint (r1 + d) = (if uint r1 + uint d < 2 ^ 64 then uint r1 + uint d else uint r1 + uint d - 2 ^ 64)"
      using uint_lt2p [of r1] lt(1) by (simp add: uint_plus_if_size word_size)
    consider "uint m \<le> uint r1" | "uint r1 < uint m" "uint r1 + uint d < uint m"
      | "uint r1 < uint m" "uint m \<le> uint r1 + uint d" by linarith
    then show thesis
    proof cases
      case 1
      moreover have "uint r1 - uint m < uint d" using rm(2) uint_ge_0 [of m] by linarith
      ultimately show ?thesis using qr that [of 0] by (simp add: word_less_def)
    next
      case 2
      then have "uint (r1 + d) = uint r1 + uint d" using sum uint_lt2p [of m] by simp
      then have "d \<le> r1 + d" "r1 + d < m" "r1 < m" using 2 uint_ge_0 [of r1] unfolding word_less_def not_less [of "r1 + d" d, symmetric] by linarith+
      then have "q = q1 - 2" "r = r1 + 2 * d - m" using qr by simp_all
      moreover have "uint m < 2 * uint d" using lt(2) uint_lt2p [of m] by simp
      then have "uint m \<le> uint r1 + 2 * uint d" using uint_ge_0 [of r1] by linarith
      ultimately show ?thesis using 2 that [of 2] by simp
    next
      case 3
      then have "r1 < m" "\<not> (d \<le> r1 + d \<and> r1 + d < m)"
        using sum lt(1) rm(2) unfolding word_less_def not_less [of "r1 + d" d, symmetric] by (auto split: if_splits)
      then have "q = q1 - 1" "r = r1 + d - m" using qr by (simp_all split: if_splits)
      then show ?thesis using 3 that [of 1] by simp
    qed
  qed
  define R Q where RQ: "R = uint r1 + k * uint d - uint m" "Q = uint q1 - k"
  have e: "Q * uint d + R = uint n * 2 ^ 32 + uint x"
    using est(6) unfolding RQ m q1 r1 by (simp add: algebra_simps)
  have N: "0 \<le> uint n * 2 ^ 32 + uint x" "uint n * 2 ^ 32 + uint x < 2 ^ 32 * uint d"
    using lt(3,4) by simp_all
  have Q: "0 \<le> Q" "Q < 2 ^ 32"
    using div_unique_range [OF e k(3,4) [folded RQ] N] by simp_all
  have RU: "uint r = R" "uint q = Q"
    using k lt(1) Q by (simp_all add: uint_of_int_limb flip: RQ)
  then have u: "int (unat r) = R" "int (unat q) = Q" by simp_all
  have "int (unat q * unat d + unat r) = int (unat n * 2 ^ 32 + unat x)"
    using e by (simp add: RU)
  then show "unat q * unat d + unat r = unat n * 2 ^ 32 + unat x" by (simp only: of_nat_eq_iff)
  have "int (unat r) < int (unat d)" using k(4) RQ u by simp
  then show "unat r < unat d" by (simp only: of_nat_less_iff)
  have "int (unat q) < int (2 ^ 32)" using Q u by simp
  then show "unat q < 2 ^ 32" by (simp only: of_nat_less_iff)
qed

lemma udiv_qrnnd_spec:
  assumes d: "2 ^ 63 \<le> unat d" and n: "unat n1 < unat d" and r: "udiv_qrnnd n1 n0 d = (q, r)"
  shows "unat q * unat d + unat r = unat n1 * 2 ^ 64 + unat n0" "unat r < unat d"
proof -
  obtain q1 r1 where 1: "udiv_half n1 (ll_highpart n0) d = (q1, r1)" by fastforce
  obtain q0 r0 where 0: "udiv_half r1 (ll_lowpart n0) d = (q0, r0)" by fastforce
  have parts: "unat (ll_highpart n0) < 2 ^ 32" "unat (ll_lowpart n0) < 2 ^ 32"
    using unat_lt2p [of n0] by (simp_all add: unat_ll_parts less_mult_imp_div_less)
  note h1 = udiv_half_spec [OF d n parts(1) 1]
  note h0 = udiv_half_spec [OF d h1(2) parts(2) 0]
  have qr: "q = q1 * ll_B OR q0" "r = r0" using r 1 0 by (simp_all add: udiv_qrnnd_def)
  have n0: "unat n0 = unat (ll_highpart n0) * 2 ^ 32 + unat (ll_lowpart n0)" by (simp add: unat_ll_parts)
  have "unat q = unat q1 * 2 ^ 32 + unat q0" unfolding qr(1) by (rule or_high_low [OF h0(3) h1(3)])
  moreover have "(x1 * b + x0) * y + z = n * (b * b) + (h * b + l)"
    if "x1 * y + t = n * b + h" "x0 * y + z = t * b + l" for x1 x0 y z n h l t b :: nat
    using that by algebra
  from this [OF h1(1) h0(1)] have "(unat q1 * 2 ^ 32 + unat q0) * unat d + unat r0 = unat n1 * 2 ^ 64 + unat n0"
    unfolding n0 by (simp add: algebra_simps)
  ultimately show "unat q * unat d + unat r = unat n1 * 2 ^ 64 + unat n0" by (simp add: qr)
  show "unat r < unat d" using h0(2) qr by simp
qed

section \<open>Leading zeros\<close>

definition clz_tab :: "byte list" where
  "clz_tab = [0, 1, 2, 2] @ replicate 4 3 @ replicate 8 4 @ replicate 16 5 @ replicate 32 6 @ replicate 64 7 @ replicate 128 8"

fun clz_loop :: "nat \<Rightarrow> limb \<Rightarrow> nat" where
  "clz_loop a xr = (if a > 0 then if drop_bit a xr AND 0xff \<noteq> 0 then a else clz_loop (a - 8) xr else a)"

declare clz_loop.simps [simp del]

definition count_leading_zeros :: "limb \<Rightarrow> nat" where
  "count_leading_zeros x = (let a = clz_loop (64 - 8) x in 64 - (unat (clz_tab ! unat (drop_bit a x)) + a))"

lemma unat_drop_bit_limb: "unat (drop_bit n (w :: limb)) = unat w div 2 ^ n"
  unfolding unsigned_drop_bit_eq using unat_lt2p [of w] by (simp add: drop_bit_eq_div take_bit_nat_eq_self)

lemma clz_tab_bounds:
  assumes "0 < i" "i < 256"
  shows "2 ^ (unat (clz_tab ! i) - 1) \<le> i \<and> i < 2 ^ unat (clz_tab ! i) \<and> 0 < unat (clz_tab ! i) \<and> unat (clz_tab ! i) \<le> 8"
proof -
  have "\<forall>i \<in> set [1..<256]. 2 ^ (unat (clz_tab ! i) - 1) \<le> i \<and> i < 2 ^ unat (clz_tab ! i) \<and>
      0 < unat (clz_tab ! i) \<and> unat (clz_tab ! i) \<le> 8"
    by code_simp
  then show ?thesis using assms by simp
qed

lemma clz_loop_spec:
  assumes "unat x < 2 ^ (a + 8)" "x \<noteq> 0" "8 dvd a"
  shows "0 < unat x div 2 ^ clz_loop a x \<and> unat x div 2 ^ clz_loop a x < 256 \<and> clz_loop a x \<le> a"
  using assms
proof (induction a x rule: clz_loop.induct)
  case (1 a x)
  have lt: "unat x div 2 ^ a < 256" using 1(2) by (simp add: less_mult_imp_div_less power_add mult.commute)
  have "unat (drop_bit a x AND 0xff) = unat x div 2 ^ a mod 256"
    using unat_and_mask_word [of "drop_bit a x" 8] by (simp add: unat_drop_bit_limb mask_numeral)
  then have z: "drop_bit a x AND 0xff = 0 \<longleftrightarrow> unat x div 2 ^ a = 0" using lt by (simp add: word_unat_eq_iff)
  show ?case
  proof (cases "a = 0")
    case True
    then show ?thesis using lt 1(3) by (simp add: clz_loop.simps unat_gt_0)
  next
    case False
    show ?thesis
    proof (cases "unat x div 2 ^ a = 0")
      case True
      then have "unat x < 2 ^ a" by (simp add: div_eq_0_iff)
      moreover have "a = a - 8 + 8" using False 1(4) dvd_imp_le [of 8 a] by simp
      ultimately have "unat x < 2 ^ (a - 8 + 8)" "8 dvd a - 8" using 1(4) by (simp_all add: dvd_diff_nat)
      moreover have "clz_loop a x = clz_loop (a - 8) x" using False True z by (subst clz_loop.simps) simp
      ultimately show ?thesis using 1(1) [OF _ _ _ 1(3)] False True z by simp linarith
    next
      case ne: False
      then have "clz_loop a x = a" using False z by (subst clz_loop.simps) simp
      then show ?thesis using ne lt by simp
    qed
  qed
qed

lemma count_leading_zeros_spec:
  assumes "x \<noteq> 0"
  shows "2 ^ 63 \<le> unat x * 2 ^ count_leading_zeros x" "unat x * 2 ^ count_leading_zeros x < 2 ^ 64" "count_leading_zeros x < 64"
proof -
  define a where "a = clz_loop 56 x"
  define y where "y = unat x div 2 ^ a"
  define l where "l = unat (clz_tab ! y)"
  have a: "0 < y" "y < 256" "a \<le> 56"
    using clz_loop_spec [of x 56] assms unat_lt2p [of x] by (simp_all add: a_def y_def)
  have l: "2 ^ (l - 1) \<le> y" "y < 2 ^ l" "0 < l" "l \<le> 8"
    using clz_tab_bounds [OF a(1,2)] by (simp_all add: l_def)
  have c: "count_leading_zeros x = 64 - (l + a)"
    by (simp add: count_leading_zeros_def Let_def a_def y_def l_def unat_drop_bit_limb)
  have x: "2 ^ (l - 1 + a) \<le> unat x" "unat x < 2 ^ (l + a)"
    using l(1,2) by (simp_all add: y_def less_eq_div_iff_mult_less_eq div_less_iff_less_mult power_add)
  have "2 ^ (l - 1 + a) * 2 ^ (64 - (l + a)) = (2 :: nat) ^ 63" "2 ^ (l + a) * 2 ^ (64 - (l + a)) = (2 :: nat) ^ 64"
    using l a by (simp_all flip: power_add)
  then show "2 ^ 63 \<le> unat x * 2 ^ count_leading_zeros x" "unat x * 2 ^ count_leading_zeros x < 2 ^ 64" "count_leading_zeros x < 64"
    using x l by (simp_all add: c) (metis mult_le_mono1 mult_less_mono1 zero_less_power zero_less_numeral)+
qed

section \<open>Division by a limb\<close>

text \<open>
  The loops go from the most significant limb of the dividend to the least significant one: their dividends and
  quotients are lists with the most significant limb first.
\<close>

fun udiv_loop :: "limb \<Rightarrow> limb list \<Rightarrow> limb \<Rightarrow> limb list \<times> limb" where
  "udiv_loop r [] d = ([], r)"
| "udiv_loop r (n0 # ns) d =
     (let (q, r) = udiv_qrnnd r n0 d;
          (qs, r) = udiv_loop r ns d
      in (q # qs, r))"

fun udiv_norm_loop :: "nat \<Rightarrow> limb \<Rightarrow> limb \<Rightarrow> limb list \<Rightarrow> limb \<Rightarrow> limb list \<times> limb" where
  "udiv_norm_loop normalization_steps n1 r [] d =
     (let (q, r) = udiv_qrnnd r (push_bit normalization_steps n1) d in ([q], r))"
| "udiv_norm_loop normalization_steps n1 r (n0 # ns) d =
     (let (q, r) = udiv_qrnnd r (push_bit normalization_steps n1 OR drop_bit (64 - normalization_steps) n0) d;
          (qs, r) = udiv_norm_loop normalization_steps n0 r ns d
      in (q # qs, r))"

definition mpn_divmod_1 :: "limb list \<Rightarrow> limb \<Rightarrow> limb list \<times> limb" where
  "mpn_divmod_1 dividend divisor_limb =
     (if dividend = [] then ([], 0)
      else let normalization_steps = count_leading_zeros divisor_limb in
           if normalization_steps \<noteq> 0
           then let divisor_limb = push_bit normalization_steps divisor_limb;
                    n1 = last dividend;
                    r = drop_bit (64 - normalization_steps) n1;
                    (qs, r) = udiv_norm_loop normalization_steps n1 r (tl (rev dividend)) divisor_limb
                in (rev qs, drop_bit normalization_steps r)
           else let r = last dividend;
                    (qs, r) =
                      (if r \<ge> divisor_limb then udiv_loop 0 (rev dividend) divisor_limb
                       else let (qs, r) = udiv_loop r (tl (rev dividend)) divisor_limb in (0 # qs, r))
                in (rev qs, r))"

definition mpn_mod_1 :: "limb list \<Rightarrow> limb \<Rightarrow> limb" where
  "mpn_mod_1 dividend divisor_limb =
     (if dividend = [] then 0
      else let normalization_steps = count_leading_zeros divisor_limb in
           if normalization_steps \<noteq> 0
           then let divisor_limb = push_bit normalization_steps divisor_limb;
                    n1 = last dividend;
                    r = drop_bit (64 - normalization_steps) n1;
                    r = snd (udiv_norm_loop normalization_steps n1 r (tl (rev dividend)) divisor_limb)
                in drop_bit normalization_steps r
           else let r = last dividend
                in if r \<ge> divisor_limb then snd (udiv_loop 0 (rev dividend) divisor_limb)
                   else snd (udiv_loop r (tl (rev dividend)) divisor_limb))"

lemma quotient_step:
  fixes d :: nat
  assumes "q * d + r1 = r * b + n" "Q * d + r' = r1 * p + l"
  shows "(Q + p * q) * d + r' = r * (b * p) + (l + p * n)"
  using assms by algebra

lemma udiv_loop_val:
  assumes "2 ^ 63 \<le> unat d" "unat r < unat d" "udiv_loop r ns d = (qs, r')"
  shows "lval (rev qs) * unat d + unat r' = unat r * Bpow (length ns) + lval (rev ns) \<and> unat r' < unat d \<and> length qs = length ns"
  using assms
proof (induction r ns d arbitrary: qs r' rule: udiv_loop.induct)
  case (2 r n0 ns d)
  obtain q r1 where q: "udiv_qrnnd r n0 d = (q, r1)" by fastforce
  obtain ps where ps: "udiv_loop r1 ns d = (ps, r')" "qs = q # ps" using 2(4) q by (auto simp: Let_def split: prod.splits)
  note s = udiv_qrnnd_spec [OF 2(2,3) q]
  from 2(1) [OF q [symmetric] refl 2(2) s(2) ps(1)] quotient_step [OF s(1)] show ?case by (simp add: ps(2) power_add)
qed simp

lemma norm_step:
  fixes d :: nat
  assumes "q * d + r1 = r * b + (h + l)" "Q * d + r' = r1 * (b * p) + h0 * p + L * e" "h0 + b * l = n0 * e"
  shows "(Q + b * p * q) * d + r' = r * (b * (b * p)) + h * (b * p) + (L + p * n0) * e"
proof -
  have "(L + p * n0) * e = L * e + p * (h0 + b * l)" unfolding assms(3) by (simp add: algebra_simps)
  then show ?thesis using assms(1,2) by algebra
qed

lemma udiv_norm_loop_val:
  assumes "2 ^ 63 \<le> unat d" "unat r < unat d" "udiv_norm_loop s n1 r ns d = (qs, r')" "s \<le> 64"
  shows "lval (rev qs) * unat d + unat r' =
      unat r * Bpow (Suc (length ns)) + unat (push_bit s n1) * Bpow (length ns) + lval (rev ns) * 2 ^ s \<and>
    unat r' < unat d \<and> length qs = Suc (length ns)"
  using assms
proof (induction s n1 r ns d arbitrary: qs r' rule: udiv_norm_loop.induct)
  case (1 s n1 r d)
  then obtain q where "udiv_qrnnd r (push_bit s n1) d = (q, r')" "qs = [q]" by (auto split: prod.splits)
  then show ?case using udiv_qrnnd_spec [OF 1(1,2)] by simp
next
  case (2 s n1 r n0 ns d)
  obtain q r1 where q: "udiv_qrnnd r (push_bit s n1 OR drop_bit (64 - s) n0) d = (q, r1)" by fastforce
  obtain ps where ps: "udiv_norm_loop s n0 r1 ns d = (ps, r')" "qs = q # ps" using 2(4) q by (auto simp: Let_def split: prod.splits)
  note s = udiv_qrnnd_spec [OF 2(2,3) q]
  from 2(1) [OF q [symmetric] refl 2(2) s(2) ps(1) 2(5)]
    norm_step [OF s(1) [unfolded unat_or_shifts [OF 2(5)]] _ limb_shift_split [OF 2(5)]]
  show ?case by (simp add: ps(2) power_add)
qed

lemma last_rev_limbs: "xs \<noteq> [] \<Longrightarrow> rev xs = last xs # tl (rev xs)"
  by (cases xs rule: rev_cases) auto

lemma divmod_unique:
  fixes q :: nat
  assumes "q * d + r = n" "r < d"
  shows "q = n div d" "r = n mod d"
  using assms by auto

lemma mpn_divmod_1_val:
  assumes "d \<noteq> 0" "mpn_divmod_1 xs d = (q, r)" "xs \<noteq> []"
  shows "lval q = lval xs div unat d \<and> unat r = lval xs mod unat d \<and> length q = length xs"
proof -
  let ?s = "count_leading_zeros d"
  note clz = count_leading_zeros_spec [OF assms(1)]
  obtain n1 ns where ns: "rev xs = n1 # ns" "last xs = n1" using last_rev_limbs [OF assms(3)] by blast
  then have xs: "xs = rev ns @ [n1]" by (metis rev.simps(2) rev_rev_ident)
  show ?thesis
  proof (cases "?s = 0")
    case True
    then have d: "2 ^ 63 \<le> unat d" using clz(1) by simp
    obtain qs r' where qs: "udiv_loop 0 (n1 # ns) d = (qs, r')" by fastforce
    obtain ps r'' where ps: "udiv_loop n1 ns d = (ps, r'')" by fastforce
    have qr: "(q, r) = (if d \<le> n1 then (rev qs, r') else (rev ps @ [0], r''))"
      using assms(2,3) True qs ps ns by (simp add: mpn_divmod_1_def split: if_splits)
    have v: "lval q * unat d + unat r = lval xs \<and> unat r < unat d \<and> length q = length xs"
    proof (cases "d \<le> n1")
      case True
      then show ?thesis using udiv_loop_val [OF d _ qs] d qr xs by simp
    next
      case False
      then have "q = rev ps @ [0]" "r = r''" "unat n1 < unat d" using qr by (simp_all add: word_le_nat_alt)
      then show ?thesis using udiv_loop_val [OF d _ ps] xs by (simp add: algebra_simps)
    qed
    then show ?thesis using divmod_unique [of "lval q" "unat d" "unat r" "lval xs"] by simp
  next
    case False
    let ?d = "push_bit ?s d" and ?r = "drop_bit (64 - ?s) n1"
    have d: "unat ?d = unat d * 2 ^ ?s"
      unfolding unsigned_push_bit_eq using clz(2) by (simp add: push_bit_eq_mult take_bit_nat_eq_self)
    obtain qs r' where qs: "udiv_norm_loop ?s n1 ?r ns ?d = (qs, r')" by fastforce
    have qr: "q = rev qs" "r = drop_bit ?s r'"
      using assms(2,3) False qs ns by (simp_all add: mpn_divmod_1_def)
    have "unat ?r < 2 ^ ?s"
      using unat_lt2p [of n1] clz(3) by (simp add: unat_drop_bit_limb div_less_iff_less_mult flip: power_add)
    moreover have "2 ^ ?s \<le> unat ?d" using assms(1) by (simp add: d unat_gt_0 Suc_le_eq)
    ultimately have lt: "unat ?r < unat ?d" by simp
    have s: "?s \<le> 64" "2 ^ 63 \<le> unat ?d" using clz d by simp_all
    note v = udiv_norm_loop_val [OF s(2) lt qs s(1)]
    have "unat ?r * Bpow (Suc (length ns)) + unat (push_bit ?s n1) * Bpow (length ns) = n1' * 2 ^ ?s * Bpow (length ns)"
      if "n1' = unat n1" for n1'
      unfolding that limb_shift_split [OF s(1), symmetric] by (simp add: power_add algebra_simps)
    then have e: "lval q * (unat d * 2 ^ ?s) + unat r' = lval xs * 2 ^ ?s"
      using v by (simp add: qr d xs algebra_simps)
    have "unat r' = (lval xs - lval q * unat d) * 2 ^ ?s" using e by (simp add: diff_mult_distrib algebra_simps)
    moreover have "unat r' < unat d * 2 ^ ?s" using v d by simp
    ultimately have "unat r = lval xs - lval q * unat d" "lval xs - lval q * unat d < unat d"
      by (simp_all add: qr unat_drop_bit_limb)
    moreover have "lval q * unat d * 2 ^ ?s \<le> lval xs * 2 ^ ?s" using e by (metis mult.assoc le_add1)
    then have "lval q * unat d \<le> lval xs" by simp
    ultimately show ?thesis
      using divmod_unique [of "lval q" "unat d" "unat r" "lval xs"] v xs qr by simp
  qed
qed

lemma mpn_mod_1_divmod_1: "mpn_mod_1 xs d = snd (mpn_divmod_1 xs d)"
  by (simp add: mpn_mod_1_def mpn_divmod_1_def Let_def split: prod.split)

end
