(* ===== verification/Mpn_Div.thy ===== *)
theory Mpn_Div
  imports Mpn_Udiv
begin

text \<open>
  \<open>mpn_divrem\<close> of \<open>stdlib/divrem.c\<close>: division of a number by a number whose top bit is set, with the cases of one limb, two
  limbs and more.

  The dividend \<open>np\<close> is an array that is overwritten, and \<open>off\<close> is how far the pointer \<open>np\<close> of the code is beyond its start, an
  integer that is negative for a pointer before it.  All stores go through \<open>store_limbs\<close>: a store before the start or
  beyond the end of the array makes the list longer, so that the list keeps its length exactly when every limb that is
  stored is one of the array.  The limbs of the quotient are the ones that are stored at \<open>qp\<close>,
  which is apart from the operands.  The result is \<open>None\<close> when the code divides by zero.
\<close>

section \<open>Division by two and more limbs\<close>

lemma limb_add_no_carry: "r + d \<ge> d \<Longrightarrow> unat (r + d :: limb) = unat r + unat d"
  using word_add_carry [of r d] by (simp add: not_less [symmetric])

text \<open>
  The correction of an estimated quotient.  The test for a zero divisor ends a loop that the code would never leave;
  a limb that is zero has been divided by before.
\<close>

function q_test :: "limb \<Rightarrow> limb \<Rightarrow> limb \<Rightarrow> limb \<Rightarrow> limb \<Rightarrow> limb \<Rightarrow> limb \<Rightarrow> limb \<times> limb \<times> limb \<times> limb" where
  "q_test q r n1 n0 n2 d1 d0 =
     (if n1 > r \<or> n1 = r \<and> n0 > n2
      then let q = q - 1;
               (n1, n0) = sub_ddmmss n1 n0 0 d0;
               r = r + d1
           in if r \<ge> d1 \<and> d1 \<noteq> 0 then q_test q r n1 n0 n2 d1 d0 else (q, r, n1, n0)
      else (q, r, n1, n0))"
  by pat_completeness auto
termination
proof (relation "measure (\<lambda>(_, r, _). 2 ^ 64 - unat r)", goal_cases)
  case (2 q r n1 n0 n2 d1 d0 x xa xb y xc)
  then have "unat xc = unat r + unat d1" "0 < unat d1" by (simp_all add: limb_add_no_carry unat_gt_0)
  moreover have "unat xc < 2 ^ 64" using unat_lt2p [of xc] by simp
  ultimately show ?case by simp
qed simp

function qhat_loop :: "limb \<Rightarrow> limb \<Rightarrow> limb \<Rightarrow> limb \<Rightarrow> limb \<Rightarrow> limb \<Rightarrow> limb \<Rightarrow> limb" where
  "qhat_loop q r n1 n0 ny dX d1 =
     (if n1 > r \<or> n1 = r \<and> n0 > ny
      then let q = q - 1;
               r = r + dX
           in if r < dX \<or> dX = 0 then q else qhat_loop q r (n1 - of_bool (n0 < d1)) (n0 - d1) ny dX d1
      else q)"
  by pat_completeness auto
termination
proof (relation "measure (\<lambda>(_, r, _). 2 ^ 64 - unat r)", goal_cases)
  case (2 q r n1 n0 ny dX d1 x xa)
  then have "unat xa = unat r + unat dX" "0 < unat dX" by (simp_all add: limb_add_no_carry unat_gt_0 not_less)
  moreover have "unat xa < 2 ^ 64" using unat_lt2p [of xa] by simp
  ultimately show ?case by simp
qed simp

declare q_test.simps [simp del] qhat_loop.simps [simp del]

lemma qhat_loop_q_test: "qhat_loop q r n1 n0 ny dX d1 = fst (q_test q r n1 n0 ny dX d1)"
proof (induction q r n1 n0 ny dX d1 rule: q_test.induct)
  case (1 q r n1 n0 n2 d1 d0)
  have "sub_ddmmss n1 n0 0 d0 = (n1 - of_bool (n0 < d0), n0 - d0)"
    by (simp add: sub_ddmmss_def Let_def word_diff_greater)
  note sub = this
  show ?case
  proof (cases "(n1 > r \<or> n1 = r \<and> n0 > n2) \<and> r + d1 \<ge> d1 \<and> d1 \<noteq> 0")
    case True
    then have "qhat_loop (q - 1) (r + d1) (n1 - of_bool (n0 < d0)) (n0 - d0) n2 d1 d0 =
      fst (q_test (q - 1) (r + d1) (n1 - of_bool (n0 < d0)) (n0 - d0) n2 d1 d0)"
      by (intro 1 [OF _ refl sub [symmetric] refl refl]) simp_all
    then show ?thesis
      using True unfolding qhat_loop.simps [of q] q_test.simps [of q] sub by (auto simp: Let_def not_less)
  next
    case False
    then show ?thesis
      unfolding qhat_loop.simps [of q] q_test.simps [of q] sub by (auto simp: Let_def not_less)
  qed
qed

lemma limb_pair_less:
  "unat b1 * 2 ^ 64 + unat b0 < unat a1 * 2 ^ 64 + unat a0 \<longleftrightarrow> b1 < a1 \<or> a1 = b1 \<and> b0 < (a0 :: limb)"
proof -
  have lt: "unat a0 < 2 ^ 64" "unat b0 < 2 ^ 64" using unat_lt2p [of a0] unat_lt2p [of b0] by simp_all
  consider "unat b1 < unat a1" | "unat b1 = unat a1" | "unat a1 < unat b1" by linarith
  then show ?thesis
  proof cases
    case 1
    then have "(unat b1 + 1) * 2 ^ 64 \<le> unat a1 * 2 ^ 64" by (intro mult_right_mono) auto
    then show ?thesis using 1 lt by (simp add: word_less_nat_alt)
  next
    case 2
    then show ?thesis by (simp add: word_less_nat_alt word_unat_eq_iff)
  next
    case 3
    then have "(unat a1 + 1) * 2 ^ 64 \<le> unat b1 * 2 ^ 64" by (intro mult_right_mono) auto
    then show ?thesis using 3 lt by (auto simp: word_less_nat_alt word_unat_eq_iff)
  qed
qed

lemma limb_pair_bound: "unat (a :: limb) * 2 ^ 64 + unat (b :: limb) < 2 ^ 64 * 2 ^ 64"
proof -
  have "unat a * 2 ^ 64 \<le> (2 ^ 64 - 1) * 2 ^ 64" using unat_lt2p [of a] by (intro mult_right_mono) simp_all
  then show ?thesis using unat_lt2p [of b] by simp
qed

lemma sub_ddmmss_mod:
  assumes "sub_ddmmss ah al bh bl = (sh, sl)"
  obtains k where "unat sh * 2 ^ 64 + unat sl + (unat bh * 2 ^ 64 + unat bl) = unat ah * 2 ^ 64 + unat al + k * (2 ^ 64 * 2 ^ 64)"
proof -
  define c :: nat where "c = of_bool (al < bl)"
  have s: "sl = al - bl" "ah = sh + bh + of_bool (al < bl)" using assms by (auto simp: sub_ddmmss_def Let_def word_diff_greater)
  have l: "unat sl + unat bl = unat al + c * 2 ^ 64"
    using word_add_carry [of "al - bl" bl] by (simp add: s(1) c_def)
  have "unat ah = (unat sh + unat bh + c) mod 2 ^ 64" by (simp add: s(2) c_def unat_word_ariths mod_simps)
  then obtain k where h: "unat sh + unat bh + c = unat ah + 2 ^ 64 * k" by (metis mod_mult_div_eq)
  have "(unat sh + unat bh + c) * 2 ^ 64 = (unat ah + 2 ^ 64 * k) * 2 ^ 64" using h by (simp only:)
  then have "unat sh * 2 ^ 64 + unat sl + (unat bh * 2 ^ 64 + unat bl) = unat ah * 2 ^ 64 + unat al + k * (2 ^ 64 * 2 ^ 64)"
    using l by (simp add: algebra_simps)
  then show thesis by (rule that)
qed

lemma congruent_eq:
  fixes a b m :: int
  assumes "a = b + c * m" "0 \<le> a" "a < m" "0 \<le> b" "b < m"
  shows "a = b"
proof -
  have "a mod m = a" "b mod m = b" using assms(2-5) by simp_all
  moreover have "a mod m = b mod m" using assms(1) by simp
  ultimately show ?thesis by metis
qed

lemma sub_ddmmss_spec:
  assumes "unat bh * 2 ^ 64 + unat bl \<le> unat ah * 2 ^ 64 + unat al" "sub_ddmmss ah al bh bl = (sh, sl)"
  shows "unat sh * 2 ^ 64 + unat sl + (unat bh * 2 ^ 64 + unat bl) = unat ah * 2 ^ 64 + unat al"
proof -
  let ?a = "unat ah * 2 ^ 64 + unat al" and ?b = "unat bh * 2 ^ 64 + unat bl" and ?s = "unat sh * 2 ^ 64 + unat sl"
  obtain k where k: "?s + ?b = ?a + k * (2 ^ 64 * 2 ^ 64)" by (rule sub_ddmmss_mod [OF assms(2)])
  have lt: "?s < 2 ^ 64 * 2 ^ 64" by (rule limb_pair_bound)
  have "k = 0"
  proof (rule ccontr)
    assume "k \<noteq> 0"
    then have "1 * (2 ^ 64 * 2 ^ 64) \<le> k * (2 ^ 64 * 2 ^ 64)" by (intro mult_right_mono) simp_all
    then show False using k lt assms(1) by linarith
  qed
  then show ?thesis using k by simp
qed

text \<open>
  The loop finds the quotient: it starts from a number that is not too small, with the remainder \<open>r\<close> of the division
  of the two high limbs \<open>m\<close> by \<open>d1\<close> and the product \<open>n1\<close>, \<open>n0\<close> of the number and \<open>d0\<close>.
\<close>

lemma q_test_spec:
  fixes m :: nat
  assumes "2 ^ 63 \<le> unat d1" "unat q * unat d1 + unat r = m" "unat n1 * 2 ^ 64 + unat n0 = unat q * unat d0"
    and "m * 2 ^ 64 + unat n2 < (unat q + 1) * (unat d1 * 2 ^ 64 + unat d0)"
    and "q_test q r n1 n0 n2 d1 d0 = (q', r', p1, p0)"
  shows "unat q' = (m * 2 ^ 64 + unat n2) div (unat d1 * 2 ^ 64 + unat d0) \<and>
    unat p1 * 2 ^ 64 + unat p0 = unat q' * unat d0 \<and> r' = of_nat (m - unat q' * unat d1)"
  using assms
proof (induction q r n1 n0 n2 d1 d0 rule: q_test.induct)
  case (1 q r n1 n0 n2 d1 d0)
  let ?B = "2 ^ 64 :: nat" and ?D = "unat d1 * 2 ^ 64 + unat d0"
  let ?P = "unat n1 * ?B + unat n0"
  have mr: "m - unat q * unat d1 = unat r" using 1(3) by simp
  have qD: "unat q * ?D + unat r * ?B = m * ?B + ?P"
    using 1(4) by (simp add: algebra_simps flip: 1(3))
  show ?case
  proof (cases "n1 > r \<or> n1 = r \<and> n0 > n2")
    case False
    then have "\<not> unat r * ?B + unat n2 < ?P" unfolding limb_pair_less by blast
    then have "unat q * ?D \<le> m * ?B + unat n2" using qD by linarith
    then have "(m * ?B + unat n2) div ?D = unat q"
      using 1(5) by (intro div_nat_eqI) (simp_all add: mult.commute)
    moreover have "q' = q" "r' = r" "p1 = n1" "p0 = n0"
      using 1(6) False by (subst (asm) q_test.simps; simp)+
    ultimately show ?thesis using 1(4) mr by simp
  next
    case True
    then have lt: "unat r * ?B + unat n2 < ?P" unfolding limb_pair_less by blast
    then have N: "m * ?B + unat n2 < unat q * ?D" using qD by linarith
    then have q0: "q \<noteq> 0" by auto
    then have q1: "unat (q - 1) + 1 = unat q" by (simp add: unat_minus_one unat_gt_0)
    obtain s1 s0 where s: "sub_ddmmss n1 n0 0 d0 = (s1, s0)" by fastforce
    have "unat d0 \<le> unat q * unat d0" using q1 by (cases "unat q") simp_all
    then have "unat s1 * ?B + unat s0 + unat d0 = unat q * unat d0"
      using sub_ddmmss_spec [OF _ s] 1(4) by simp
    then have s': "unat s1 * ?B + unat s0 = unat (q - 1) * unat d0"
      unfolding q1 [symmetric] by simp
    have step: "q_test q r n1 n0 n2 d1 d0 =
      (if r + d1 \<ge> d1 \<and> d1 \<noteq> 0 then q_test (q - 1) (r + d1) s1 s0 n2 d1 d0 else (q - 1, r + d1, s1, s0))"
      using True unfolding q_test.simps [of q] s by (simp add: Let_def)
    have d1: "d1 \<noteq> 0" using 1(2) by auto
    show ?thesis
    proof (cases "r + d1 \<ge> d1")
      case nc: True
      have m: "unat (q - 1) * unat d1 + unat (r + d1) = m"
        using 1(3) limb_add_no_carry [OF nc] by (simp flip: q1)
      have N': "m * ?B + unat n2 < (unat (q - 1) + 1) * ?D" unfolding q1 by (rule N)
      have cond: "r + d1 \<ge> d1 \<and> d1 \<noteq> 0" using nc d1 by blast
      have "q_test (q - 1) (r + d1) s1 s0 n2 d1 d0 = (q', r', p1, p0)" using 1(6) cond by (simp add: step)
      from 1(1) [OF True refl s [symmetric] refl refl cond 1(2) m s' N' this] show ?thesis .
    next
      case False
      then have c: "unat r + unat d1 = ?B + unat (r + d1)" using word_add_carry [of r d1] by simp
      have e: "q' = q - 1" "r' = r + d1" "p1 = s1" "p0 = s0" using 1(6) False by (simp_all add: step)
      have m: "unat (q - 1) * unat d1 + (unat r + unat d1) = m" using 1(3) by (simp flip: q1)
      have "unat (q - 1) * ?D + (unat r + unat d1) * ?B = m * ?B + (unat s1 * ?B + unat s0)"
        unfolding s' m [symmetric] by (simp add: algebra_simps)
      moreover have "unat s1 * ?B + unat s0 < ?B * ?B"
        using limb_pair_bound [of s1 s0] by simp
      moreover have "?B * ?B \<le> (unat r + unat d1) * ?B" unfolding c by simp
      ultimately have "unat (q - 1) * ?D \<le> m * ?B + unat n2" by linarith
      then have "(m * ?B + unat n2) div ?D = unat (q - 1)"
        using N q1 by (intro div_nat_eqI) (simp_all add: mult.commute)
      moreover have "r + d1 = of_nat (m - unat (q - 1) * unat d1)" using m by (simp add: algebra_simps flip: m)
      ultimately show ?thesis using e s' by simp
    qed
  qed
qed

lemma qhat_bounds:
  fixes B :: nat
  assumes N: "N = (n0 * B * B + x * B + y) * P + nl" "nl < P" "x < B" "y < B" and D: "D = (dX * B + d1) * P + dl" "dl < P" "d1 < B"
    and "B \<le> 2 * dX" "N < D * B" "n0 \<le> dX" "0 < B"
    and q: "q = (if n0 = dX then B - 1 else (n0 * B * B + x * B + y) div (dX * B + d1))"
  shows "N div D \<le> q" "q \<le> N div D + 1"
proof -
  define M E where M: "M = n0 * B * B + x * B + y" "E = dX * B + d1"
  have "0 < dX" using assms(8,11) by simp
  then have BE: "B \<le> E" by (simp add: M trans_le_add1)
  have D0: "E * P \<le> D" "D < (E + 1) * P" "M * P \<le> N" "N < (M + 1) * P"
    using N(1,2) D(1,2) by (simp_all add: M algebra_simps)
  have pos: "0 < D" "0 < P" "0 < E" using D0(1) BE assms(11) N(2) by (auto intro: Nat.gr0I)
  have est: "t \<le> N div D" if t: "t * (E + 1) \<le> M" for t
  proof -
    have "t * D \<le> t * ((E + 1) * P)" using D0(2) by (intro mult_left_mono) simp_all
    also have "\<dots> = t * (E + 1) * P" by (simp only: mult.assoc)
    also have "\<dots> \<le> M * P" using t by (rule mult_le_mono1)
    finally show ?thesis using D0(3) pos(1) by (simp add: less_eq_div_iff_mult_less_eq)
  qed
  have "q \<le> N div D + 1 \<and> N div D \<le> q"
  proof (cases "n0 = dX")
    case True
    have "(B - 2) * (E + 1) \<le> M"
    proof (cases "2 \<le> B")
      case c: True
      then obtain c where c: "B = c + 2" by (metis add.commute le_Suc_ex)
      have "c * (E + 1) \<le> c * ((dX + 1) * B)" using D(3) by (intro mult_left_mono) (simp_all add: M)
      also have "\<dots> = c * (dX + 1) * B" by (simp only: mult.assoc)
      also have "\<dots> \<le> dX * B * B" using assms(8) c by (intro mult_right_mono) (simp_all add: algebra_simps)
      finally show ?thesis using True c by (simp add: M)
    qed simp
    then have "B - 2 \<le> N div D" by (rule est)
    moreover have "N div D < B" using assms(9) by (simp add: less_mult_imp_div_less mult.commute)
    moreover have "q = B - 1" using True q by simp
    ultimately show ?thesis by (intro conjI) linarith+
  next
    case False
    then have q: "q = M div E" using q by (simp add: M)
    then have qE: "q * E \<le> M" by simp
    have "(x + 1) * B \<le> B * B" using N(3) by (intro mult_right_mono) simp_all
    then have "x * B + y < B * B" using N(4) by simp
    then have "M < (n0 + 1) * B * B" by (simp add: M distrib_right)
    also have "\<dots> \<le> dX * B * B" using False assms(10) by (intro mult_right_mono) simp_all
    also have "\<dots> \<le> E * B" by (simp add: M)
    finally have "q < B" unfolding q by (simp add: less_mult_imp_div_less mult.commute)
    have "N div D * E * P \<le> N div D * D" using D0(1) by simp
    also have "\<dots> \<le> N" by simp
    finally have "N div D * E * P < (M + 1) * P" using D0(4) by simp
    then have "N div D * E \<le> M" unfolding mult_less_cancel2 by simp
    then have le: "N div D \<le> q" using pos(3) by (simp add: q less_eq_div_iff_mult_less_eq)
    have "(q - 1) * (E + 1) \<le> M" using qE BE \<open>q < B\<close> by (cases q) simp_all
    then have "q - 1 \<le> N div D" by (rule est)
    then show ?thesis using le by simp
  qed
  then show "N div D \<le> q" "q \<le> N div D + 1" by simp_all
qed

definition store_limbs :: "limb list \<Rightarrow> int \<Rightarrow> limb list \<Rightarrow> limb list" where
  "store_limbs np off src = (if off < 0 then src @ np else store_at np (nat off) src)"

lemma store_limbs_int [simp]:
  "store_limbs np (int off) src = store_at np off src" "store_limbs np (int off + 1) src = store_at np (off + 1) src"
  "store_limbs np 0 src = store_at np 0 src" "store_limbs np 1 src = store_at np 1 src"
  by (simp_all add: store_limbs_def nat_add_distrib)

lemma store_limbs_inside:
  "src \<noteq> [] \<Longrightarrow> length (store_limbs np off src) = length np \<longleftrightarrow> 0 \<le> off \<and> off + int (length src) \<le> int (length np)"
  by (cases "off < 0"; cases "length src") (auto simp: store_limbs_def store_at_def min_def split: if_splits)

lemma store_limbs_longer: "length np \<le> length (store_limbs np off src)"
  by (auto simp: store_limbs_def store_at_def)

lemma nat_pointer [simp]: "nat (int off + int n - 1) = off + n - 1" "nat (int off + int n - 2) = off + n - 2"
  by simp_all

definition divrem_2_rest :: "limb \<Rightarrow> limb \<Rightarrow> limb \<Rightarrow> limb \<Rightarrow> limb \<Rightarrow> limb \<Rightarrow> limb \<Rightarrow> limb \<times> limb \<times> limb" where
  "divrem_2_rest q r n1 n0 n2 d1 d0 =
     (let (q, r, n1, n0) = q_test q r n1 n0 n2 d1 d0;
          (n1, n0) = sub_ddmmss r n2 n1 n0
      in (q, n1, n0))"

definition divrem_2_step :: "limb \<Rightarrow> limb \<Rightarrow> limb \<Rightarrow> limb \<Rightarrow> limb \<Rightarrow> limb \<times> limb \<times> limb" where
  "divrem_2_step n1 n0 n2 d1 d0 =
     (if n1 = d1
      then let q = NOT 0;
               r = n0 + d1
           in if r < d1 then let (n1, n0) = add_ssaaaa (r - d0) n2 0 d0 in (q, n1, n0)
              else divrem_2_rest q r (d0 - of_bool (d0 \<noteq> 0)) (- d0) n2 d1 d0
      else let (q, r) = udiv_qrnnd n1 n0 d1;
               (n1, n0) = umul_ppmm d0 q
           in divrem_2_rest q r n1 n0 n2 d1 d0)"

fun divrem_2_loop ::
  "nat \<Rightarrow> nat \<Rightarrow> limb list \<Rightarrow> int \<Rightarrow> limb \<Rightarrow> limb \<Rightarrow> limb \<Rightarrow> limb \<Rightarrow> limb list \<times> limb list \<times> int \<times> limb \<times> limb" where
  "divrem_2_loop 0 qextra_limbs np off n1 n0 d1 d0 = ([], np, off, n1, n0)"
| "divrem_2_loop (Suc i) qextra_limbs np off n1 n0 d1 d0 =
     (let (np, off) = (if i \<ge> qextra_limbs then (np, off - 1) else (store_limbs np off [0], off));
          (q, n1, n0) = divrem_2_step n1 n0 (np ! nat off) d1 d0;
          (qp, st) = divrem_2_loop i qextra_limbs np off n1 n0 d1 d0
      in (qp @ [q], st))"

definition divrem_qhat :: "limb \<Rightarrow> limb \<Rightarrow> limb \<Rightarrow> limb \<Rightarrow> limb \<Rightarrow> limb" where
  "divrem_qhat n0 nx ny dX d1 =
     (if n0 = dX then NOT 0
      else let (q, r) = udiv_qrnnd n0 nx dX;
               (n1, n0) = umul_ppmm d1 q
           in qhat_loop q r n1 n0 ny dX d1)"

definition divrem_step :: "limb list \<Rightarrow> int \<Rightarrow> limb \<Rightarrow> limb \<Rightarrow> limb list \<Rightarrow> limb \<times> limb list" where
  "divrem_step np off n0 n2 dp =
     (let dsize = length dp;
          q = divrem_qhat n0 (np ! nat (off + int dsize - 1)) (np ! nat (off + int dsize - 2))
                (dp ! (dsize - 1)) (dp ! (dsize - 2));
          (s, cy_limb) = mpn_submul_1 (take dsize (drop (nat off) np)) dp q;
          np = store_limbs np off s
      in if n2 \<noteq> cy_limb then (q - 1, store_limbs np off (fst (mpn_add_n (take dsize (drop (nat off) np)) dp))) else (q, np))"

fun divrem_loop :: "nat \<Rightarrow> nat \<Rightarrow> limb list \<Rightarrow> int \<Rightarrow> limb \<Rightarrow> limb list \<Rightarrow> limb list \<times> limb list" where
  "divrem_loop 0 qextra_limbs np off n0 dp = ([], np)"
| "divrem_loop (Suc i) qextra_limbs np off n0 dp =
     (let dsize = length dp;
          (np, off, n2) =
            (if i \<ge> qextra_limbs then (np, off - 1, np ! nat (off - 1 + int dsize))
             else (store_limbs (store_limbs np (off + 1) (take dsize (drop (nat off) np))) off [0], off,
                   np ! nat (off + int dsize - 1)));
          (q, np) = divrem_step np off n0 n2 dp;
          (qp, np) = divrem_loop i qextra_limbs np off (np ! nat (off + int dsize - 1)) dp
      in (qp @ [q], np))"

definition mpn_divrem :: "nat \<Rightarrow> limb list \<Rightarrow> limb list \<Rightarrow> (limb list \<times> limb list \<times> limb) option" where
  "mpn_divrem qextra_limbs np dp =
     (let nsize = length np; dsize = length dp in
      if dsize = 0 then None
      else if dsize = 1
      then let d = dp ! 0;
               n1 = np ! (nsize - 1);
               (n1, most_significant_q_limb) = (if n1 \<ge> d then (n1 - d, 1) else (n1, 0));
               (q1, n1) = udiv_loop n1 (rev (take (nsize - 1) np)) d;
               (q0, n1) = udiv_loop n1 (replicate qextra_limbs 0) d
           in Some (rev q0 @ rev q1, store_limbs np 0 [n1], most_significant_q_limb)
      else if dsize = 2
      then let off = int nsize - 2;
               d1 = dp ! 1; d0 = dp ! 0; n1 = np ! nat (off + 1); n0 = np ! nat off;
               (n1, n0, most_significant_q_limb) =
                 (if n1 \<ge> d1 \<and> (n1 > d1 \<or> n0 \<ge> d0)
                  then let (n1, n0) = sub_ddmmss n1 n0 d1 d0 in (n1, n0, 1)
                  else (n1, n0, 0));
               (qp, np, off, n1, n0) = divrem_2_loop (qextra_limbs + nsize - 2) qextra_limbs np off n1 n0 d1 d0
           in Some (qp, store_limbs (store_limbs np (off + 1) [n1]) off [n0], most_significant_q_limb)
      else let off = int nsize - int dsize;
               dX = dp ! (dsize - 1);
               n0 = np ! nat (off + int dsize - 1);
               (np, most_significant_q_limb) =
                 (if n0 \<ge> dX \<and> (n0 > dX \<or> mpn_cmp (drop (nat off) np) dp (dsize - 1) \<ge> 0)
                  then (store_limbs np off (fst (mpn_sub_n (take dsize (drop (nat off) np)) dp)), 1)
                  else (np, 0));
               (qp, np) = divrem_loop (qextra_limbs + nsize - dsize) qextra_limbs np off (np ! nat (off + int dsize - 1)) dp
           in Some (qp, np, most_significant_q_limb))"

lemma div_bounds:
  fixes d :: nat
  assumes "q = n div d"
  shows "0 < d \<Longrightarrow> q * d \<le> n" "0 < d \<Longrightarrow> n < (q + 1) * d"
  using assms dividend_less_div_times [of d n] by (simp_all add: algebra_simps)

lemma div_high_le:
  fixes B :: nat
  assumes "q * (d1 * B + d0) \<le> m * B + n2" "n2 < B"
  shows "q * d1 \<le> m"
proof -
  have "q * d1 * B < (m + 1) * B" using assms by (simp add: algebra_simps)
  then show ?thesis unfolding mult_less_cancel2 by simp
qed

lemma wrapped_remainder:
  fixes B :: nat
  assumes "s + Q * d0 = r * B + n2 + k * (B * B)" "m = Q * d1 + r + B * j"
    and "Q * (d1 * B + d0) \<le> m * B + n2" "m * B + n2 < (Q + 1) * (d1 * B + d0)" "s < B * B" "d1 * B + d0 < B * B"
  shows "Q * (d1 * B + d0) + s = m * B + n2"
proof -
  have "int s = int (m * B + n2) - int (Q * (d1 * B + d0)) + (int k - int j) * int (B * B)"
    using arg_cong [where f = int, OF assms(1)] unfolding assms(2) by (simp add: algebra_simps)
  then have "int s = int (m * B + n2) - int (Q * (d1 * B + d0))"
  proof (rule congruent_eq)
    have "m * B + n2 < Q * (d1 * B + d0) + B * B" using assms(4,6) by (simp only: distrib_right mult_1)
    then show "int (m * B + n2) - int (Q * (d1 * B + d0)) < int (B * B)" by linarith
  qed (use assms(3,5) in linarith)+
  then show ?thesis by linarith
qed

lemma divrem_2_rest_spec:
  fixes m :: nat
  assumes "2 ^ 63 \<le> unat d1" "unat q * unat d1 + unat r = m" "unat n1 * 2 ^ 64 + unat n0 = unat q * unat d0"
    and "m * 2 ^ 64 + unat n2 < (unat q + 1) * (unat d1 * 2 ^ 64 + unat d0)"
    and "divrem_2_rest q r n1 n0 n2 d1 d0 = (q', r1, r0)"
  shows "unat q' * (unat d1 * 2 ^ 64 + unat d0) + (unat r1 * 2 ^ 64 + unat r0) = m * 2 ^ 64 + unat n2 \<and>
    unat r1 * 2 ^ 64 + unat r0 < unat d1 * 2 ^ 64 + unat d0"
proof -
  let ?B = "2 ^ 64 :: nat" and ?D = "unat d1 * 2 ^ 64 + unat d0" and ?N = "m * 2 ^ 64 + unat n2"
  obtain q'' r' p1 p0 where qt: "q_test q r n1 n0 n2 d1 d0 = (q'', r', p1, p0)" by (rule prod_cases4)
  then have sub: "q'' = q'" "sub_ddmmss r' n2 p1 p0 = (r1, r0)"
    using assms(5) by (auto simp: divrem_2_rest_def split: prod.splits)
  from q_test_spec [OF assms(1-4) qt] have spec: "unat q' = ?N div ?D"
    "unat p1 * ?B + unat p0 = unat q' * unat d0" "r' = of_nat (m - unat q' * unat d1)" by (simp_all add: sub(1))
  obtain k where k: "unat r1 * ?B + unat r0 + unat q' * unat d0 = unat r' * ?B + unat n2 + k * (?B * ?B)"
    by (rule sub_ddmmss_mod [OF sub(2)]) (simp only: spec(2))
  note QD = div_bounds [OF spec(1)]
  have D: "0 < ?D" using assms(1) by simp
  have "unat q' * unat d1 \<le> m" by (rule div_high_le [OF QD(1) [OF D]]) (use unat_lt2p [of n2] in simp)
  moreover have "m - unat q' * unat d1 = unat r' + ?B * ((m - unat q' * unat d1) div ?B)"
    unfolding spec(3) unat_of_nat by simp
  then obtain j where "m - unat q' * unat d1 = unat r' + ?B * j" by (rule that)
  ultimately have "m = unat q' * unat d1 + unat r' + ?B * j" by linarith
  then have e: "unat q' * ?D + (unat r1 * ?B + unat r0) = ?N" 
    by (intro wrapped_remainder [OF k _ QD [OF D]] limb_pair_bound)
  moreover have "unat r1 * ?B + unat r0 < ?D" using e QD(2) [OF D] by (simp only: distrib_right mult_1)
  ultimately show ?thesis by blast
qed

lemma unat_all_ones: "unat (NOT 0 :: limb) = 2 ^ 64 - 1"
  by (simp add: unsigned_minus_1_eq_mask mask_eq_exp_minus_1)

lemma unat_all_ones_times: "unat (d - of_bool (d \<noteq> 0)) * 2 ^ 64 + unat (- d) = unat (NOT 0 :: limb) * unat (d :: limb)"
proof (cases "d = 0")
  case False
  then have "unat (d - 1) + 1 = unat d" by (simp add: unat_minus_one unat_gt_0)
  moreover have "unat (- d) + unat d = 2 ^ 64" using word_add_carry [of "- d" d] False by (simp add: word_greater_zero_iff)
  moreover have "x * b + y = (b - 1) * z" if "x + 1 = z" "y + z = b" for x y z b :: nat
    using that by (auto simp: algebra_simps)
  ultimately show ?thesis using False unfolding unat_all_ones by simp
qed simp

lemma pair_less:
  fixes B :: nat
  assumes "a + 1 \<le> b" "x < B"
  shows "a * B + (y + x) < b * B + y"
proof -
  have "(a + 1) * B \<le> b * B" using assms(1) by (intro mult_right_mono) simp_all
  then show ?thesis using assms(2) by simp
qed

lemma divrem_2_max:
  fixes B :: nat
  assumes "t + d0 = n0 + d1" "0 < B"
  shows "(B - 1) * (d1 * B + d0) + (t * B + (d0 + n2)) = (d1 * B + n0) * B + n2"
proof -
  obtain b where b: "B = Suc b" using assms(2) by (cases B) auto
  have "t * B + d0 * B = n0 * B + d1 * B" using assms(1) by (metis distrib_right)
  then show ?thesis unfolding b by (simp add: algebra_simps)
qed

lemma estimate_large_enough:
  fixes B :: nat
  assumes "m < (q + 1) * d1" "n2 < B"
  shows "m * B + n2 < (q + 1) * (d1 * B + d0)"
proof -
  have "m * B + n2 < (m + 1) * B" using assms(2) by simp
  also have "\<dots> \<le> (q + 1) * d1 * B" using assms(1) by (intro mult_right_mono) simp_all
  also have "\<dots> \<le> (q + 1) * (d1 * B + d0)" by (simp add: algebra_simps)
  finally show ?thesis .
qed

lemma udiv_estimate:
  fixes n2 d0 :: limb
  assumes "2 ^ 63 \<le> unat d1" "n1 < d1" "udiv_qrnnd n1 n0 d1 = (q, r)"
  shows "unat q * unat d1 + unat r = unat n1 * 2 ^ 64 + unat n0"
    "(unat n1 * 2 ^ 64 + unat n0) * 2 ^ 64 + unat n2 < (unat q + 1) * (unat d1 * 2 ^ 64 + unat d0)"
proof -
  note d = udiv_qrnnd_spec [OF assms(1) _ assms(3)]
  show e: "unat q * unat d1 + unat r = unat n1 * 2 ^ 64 + unat n0" using d(1) assms(2) by (simp add: word_less_nat_alt)
  have "unat q * unat d1 + unat r < (unat q + 1) * unat d1" using d(2) assms(2) by (simp add: word_less_nat_alt)
  then show "(unat n1 * 2 ^ 64 + unat n0) * 2 ^ 64 + unat n2 < (unat q + 1) * (unat d1 * 2 ^ 64 + unat d0)"
    unfolding e by (rule estimate_large_enough) (use unat_lt2p [of n2] in simp)
qed

lemma divrem_qhat_spec:
  assumes "2 ^ 63 \<le> unat dX" "n0 \<le> dX"
  shows "unat (divrem_qhat n0 nx ny dX d1) =
    (if n0 = dX then 2 ^ 64 - 1
     else ((unat n0 * 2 ^ 64 + unat nx) * 2 ^ 64 + unat ny) div (unat dX * 2 ^ 64 + unat d1))"
proof (cases "n0 = dX")
  case True
  then show ?thesis by (simp only: divrem_qhat_def unat_all_ones if_True refl)
next
  case False
  then have lt: "n0 < dX" using assms(2) by simp
  obtain q r where q: "udiv_qrnnd n0 nx dX = (q, r)" by fastforce
  obtain p1 p0 where p: "umul_ppmm d1 q = (p1, p0)" by fastforce
  obtain q' r' s1 s0 where t: "q_test q r p1 p0 ny dX d1 = (q', r', s1, s0)" by (rule prod_cases4)
  have "unat p1 * 2 ^ 64 + unat p0 = unat q * unat d1" using umul_ppmm_spec [OF p] by (simp only: mult.commute)
  from q_test_spec [OF assms(1) udiv_estimate(1) [OF assms(1) lt q] this udiv_estimate(2) [OF assms(1) lt q] t] False
  show ?thesis by (simp only: divrem_qhat_def q p qhat_loop_q_test t Let_def prod.case fst_conv if_False)
qed

lemma divrem_2_step_spec:
  assumes "2 ^ 63 \<le> unat d1" "unat n1 * 2 ^ 64 + unat n0 < unat d1 * 2 ^ 64 + unat d0" "divrem_2_step n1 n0 n2 d1 d0 = (q, r1, r0)"
  shows "unat q * (unat d1 * 2 ^ 64 + unat d0) + (unat r1 * 2 ^ 64 + unat r0) = (unat n1 * 2 ^ 64 + unat n0) * 2 ^ 64 + unat n2 \<and>
    unat r1 * 2 ^ 64 + unat r0 < unat d1 * 2 ^ 64 + unat d0"
proof (cases "n1 = d1")
  case False
  then have lt: "n1 < d1" using assms(2) unfolding limb_pair_less by blast
  obtain p r where p: "udiv_qrnnd n1 n0 d1 = (p, r)" by fastforce
  obtain p1 p0 where m: "umul_ppmm d0 p = (p1, p0)" by fastforce
  have "unat p1 * 2 ^ 64 + unat p0 = unat p * unat d0" using umul_ppmm_spec [OF m] by (simp only: mult.commute)
  moreover have "divrem_2_rest p r p1 p0 n2 d1 d0 = (q, r1, r0)"
    using assms(3) False by (simp add: divrem_2_step_def p m)
  ultimately show ?thesis
    by (rule divrem_2_rest_spec [OF assms(1) udiv_estimate(1) [OF assms(1) lt p] _ udiv_estimate(2) [OF assms(1) lt p]])
next
  case True
  then have n0: "n0 < d0" using assms(2) unfolding limb_pair_less by blast
  let ?B = "2 ^ 64 :: nat" and ?q = "NOT 0 :: limb" and ?r = "n0 + d1"
  show ?thesis
  proof (cases "?r < d1")
    case c: True
    then have s: "unat n0 + unat d1 = ?B + unat ?r" using word_add_carry [of n0 d1] by simp
    have t: "unat (d0 - n0) = unat d0 - unat n0" using n0 by (simp add: unat_sub)
    then have "d0 - n0 \<le> d1" using s unat_lt2p [of d0] by (simp add: word_le_nat_alt)
    then have "unat (d1 - (d0 - n0)) = unat d1 - (unat d0 - unat n0)" by (simp add: unat_sub t)
    moreover have "unat d0 - unat n0 \<le> unat d1" using t \<open>d0 - n0 \<le> d1\<close> by (simp add: word_le_nat_alt)
    ultimately have u: "unat (?r - d0) + unat d0 = unat n0 + unat d1" "unat (?r - d0) + 1 \<le> unat d1"
      using n0 by (simp_all add: algebra_simps word_less_nat_alt)
    obtain x1 x0 where x: "add_ssaaaa (?r - d0) n2 0 d0 = (x1, x0)" by fastforce
    have "divrem_2_step n1 n0 n2 d1 d0 = (?q, x1, x0)" using True c x by (simp add: divrem_2_step_def Let_def)
    then have e: "q = ?q" "r1 = x1" "r0 = x0" using assms(3) by simp_all
    have lt: "unat (?r - d0) * ?B + (unat d0 + unat n2) < unat d1 * ?B + unat d0"
      using pair_less [OF u(2), of "unat n2" ?B "unat d0"] unat_lt2p [of n2] by simp
    have "unat (?r - d0 + of_bool (d0 + n2 < n2)) * ?B + unat (d0 + n2) = unat (?r - d0) * ?B + unat d0 + unat n2"
      by (rule carry_in) (use lt limb_pair_bound [of d1 d0] in simp)
    then have "unat x1 * ?B + unat x0 = unat (?r - d0) * ?B + (unat d0 + unat n2)"
      using x by (auto simp: add_ssaaaa_def Let_def add.commute)
    then show ?thesis
      using divrem_2_max [OF u(1), of ?B "unat n2"] lt unfolding e True unat_all_ones by simp
  next
    case nc: False
    have "divrem_2_step n1 n0 n2 d1 d0 = divrem_2_rest ?q ?r (d0 - of_bool (d0 \<noteq> 0)) (- d0) n2 d1 d0"
      using True nc by (simp add: divrem_2_step_def Let_def)
    then have rest: "divrem_2_rest ?q ?r (d0 - of_bool (d0 \<noteq> 0)) (- d0) n2 d1 d0 = (q, r1, r0)" using assms(3) by simp
    have "unat ?r = unat n0 + unat d1" using nc by (intro limb_add_no_carry) (simp add: not_less)
    then have "unat ?q * unat d1 + unat ?r = unat n1 * ?B + unat n0"
      unfolding unat_all_ones True by simp
    moreover have "(unat n1 * ?B + unat n0) * ?B + unat n2 < (unat ?q + 1) * (unat d1 * ?B + unat d0)"
      unfolding unat_all_ones using pair_less [of "unat n1 * ?B + unat n0" "unat d1 * ?B + unat d0" "unat n2" ?B 0] assms(2) unat_lt2p [of n2]
      by simp
    ultimately show ?thesis
      by (rule divrem_2_rest_spec [OF assms(1) _ unat_all_ones_times _ rest])
  qed
qed

lemma add_back:
  fixes P :: nat
  assumes s: "s + qh * D = L + P * cy" "N = L + P * n2" "s < P" and q: "N div D \<le> qh" "qh \<le> N div D + 1" and D: "0 < D" "D \<le> P"
  shows "n2 = cy \<Longrightarrow> qh = N div D \<and> s = N mod D" "n2 \<noteq> cy \<Longrightarrow> qh = N div D + 1 \<and> s + D = P + N mod D"
proof -
  define Q R where QR: "Q = N div D" "R = N mod D"
  have N: "N = Q * D + R" "R < D" using D(1) by (simp_all add: QR)
  show "qh = N div D \<and> s = N mod D" if "n2 = cy"
  proof -
    have e: "qh * D + s = N" using s(1,2) that by simp
    then have "qh * D \<le> N" by linarith
    then have "qh \<le> N div D" using D(1) by (simp add: less_eq_div_iff_mult_less_eq)
    then have "qh = Q" using q(1) by (simp add: QR)
    moreover from this have "s = R" using e N(1) by simp
    ultimately show ?thesis by (simp only: QR)
  qed
  show "qh = N div D + 1 \<and> s + D = P + N mod D" if ne: "n2 \<noteq> cy"
  proof -
    define c where "c = int cy - int n2"
    have i: "int s + int qh * int D = int Q * int D + int R + int P * c"
      using arg_cong [where f = int, OF s(1)] arg_cong [where f = int, OF s(2) [unfolded N(1)]] by (simp add: c_def algebra_simps)
    have less: "c < z" if "int P * c < int P * z" for z using that by (rule mult_left_less_imp_less) simp
    have more: "z < c" if "int P * z < int P * c" for z using that by (rule mult_left_less_imp_less) simp
    have "qh \<noteq> Q"
    proof
      assume "qh = Q"
      then have "int s - int R = int P * c" using i by simp
      then have "int P * c < int P * 1" "int P * (- 1) < int P * c" using s(3) N(2) D(2) by linarith+
      then have "c = 0" using less [of 1] more [of "- 1"] by linarith
      then show False using ne by (simp add: c_def)
    qed
    then have qh: "qh = Q + 1" using q by (simp add: QR)
    then have e: "int s + int D - int R = int P * c" using i by (simp add: algebra_simps)
    then have "int P * c < int P * 2" "int P * 0 < int P * c" using s(3) N(2) D(2) by linarith+
    then have "c = 1" using less [of 2] more [of 0] by linarith
    then have "s + D = P + R" using e by simp
    then show ?thesis using qh by (simp only: QR)
  qed
qed

lemma top_limb_bound:
  assumes "lval (lo @ [ny, nx]) + Bpow (length lo + 2) * unat n2 < lval (dl @ [d1, dX]) * 2 ^ 64" "length lo = length dl"
  shows "n2 \<le> dX"
proof -
  have gen: "l + p * x < (x + 1) * p" if "l < p" for l p x :: nat using that by (simp add: algebra_simps)
  have "lval (dl @ [d1, dX]) = lval (dl @ [d1]) + Bpow (length lo + 1) * unat dX"
    using lval_append [of "dl @ [d1]" "[dX]"] assms(2) by simp
  also have "\<dots> < (unat dX + 1) * Bpow (length lo + 1)"
    using lval_less [of "dl @ [d1]"] assms(2) by (intro gen) simp
  finally have "lval (dl @ [d1, dX]) < (unat dX + 1) * Bpow (length lo + 1)" .
  then have "lval (dl @ [d1, dX]) * 2 ^ 64 \<le> (unat dX + 1) * Bpow (length lo + 1) * 2 ^ 64" by simp
  also have "\<dots> = Bpow (length lo + 2) * (unat dX + 1)" by (simp add: power_add)
  finally have "Bpow (length lo + 2) * unat n2 < Bpow (length lo + 2) * (unat dX + 1)" using assms(1) by linarith
  then have "unat n2 < unat dX + 1" unfolding mult_less_cancel1 by blast
  then show ?thesis by (simp add: word_le_nat_alt)
qed

lemma divrem_step_spec:
  assumes dp: "dp = dl @ [d1, dX]" "2 ^ 63 \<le> unat dX"
    and np: "np = pre @ (lo @ [ny, nx]) @ n2 # post" "length pre = off" "length lo = length dl"
    and lt: "lval (lo @ [ny, nx]) + Bpow (length dp) * unat n2 < lval dp * 2 ^ 64"
    and step: "divrem_step np (int off) n2 n2 dp = (q, np')"
  shows "\<exists>s. np' = pre @ s @ n2 # post \<and> length s = length dp \<and> lval s < lval dp \<and>
    unat q * lval dp + lval s = lval (lo @ [ny, nx]) + Bpow (length dp) * unat n2"
proof -
  let ?low = "lo @ [ny, nx]" and ?D = "lval dp" and ?N = "lval (lo @ [ny, nx]) + Bpow (length dp) * unat n2"
  define qh where "qh = divrem_qhat n2 nx ny dX d1"
  have len: "length dp = length lo + 2" using dp(1) np(3) by simp
  have le: "n2 \<le> dX" by (rule top_limb_bound [OF lt [unfolded len, unfolded dp(1)] np(3)])
  obtain s cy where s: "mpn_submul_1 ?low dp qh = (s, cy)" by fastforce
  note sv = mpn_submul_1_val [OF s]
  have D: "0 < ?D" "?D \<le> Bpow (length dp)" using lval_less [of dp] dp(2) by (simp_all add: dp(1))
  have bounds: "?N div ?D \<le> unat qh" "unat qh \<le> ?N div ?D + 1"
  proof -
    have N: "?N = (unat n2 * 2 ^ 64 * 2 ^ 64 + unat nx * 2 ^ 64 + unat ny) * Bpow (length lo) + lval lo"
      unfolding len by (simp add: power_add algebra_simps)
    have D: "?D = (unat dX * 2 ^ 64 + unat d1) * Bpow (length lo) + lval dl"
      unfolding dp(1) np(3) by (simp add: algebra_simps)
    have q: "unat qh = (if unat n2 = unat dX then 2 ^ 64 - 1
        else (unat n2 * 2 ^ 64 * 2 ^ 64 + unat nx * 2 ^ 64 + unat ny) div (unat dX * 2 ^ 64 + unat d1))"
      using divrem_qhat_spec [OF dp(2) le, of nx ny d1] by (simp add: qh_def word_unat_eq_iff distrib_right)
    have lts: "unat nx < 2 ^ 64" "unat ny < 2 ^ 64" "unat d1 < 2 ^ 64" "lval lo < Bpow (length lo)" "lval dl < Bpow (length lo)"
      "2 ^ 64 \<le> 2 * unat dX" "unat n2 \<le> unat dX" "(0 :: nat) < 2 ^ 64"
      using unat_lt2p [of nx] unat_lt2p [of ny] unat_lt2p [of d1] lval_less [of lo] lval_less [of dl] np(3) dp(2) le
      by (simp_all add: word_le_nat_alt)
    show "?N div ?D \<le> unat qh" "unat qh \<le> ?N div ?D + 1"
      by (rule qhat_bounds [OF N lts(4,1,2) D lts(5,3,6) lt lts(7,8) q])+
  qed
  obtain t c where t: "mpn_add_n s dp = (t, c)" by fastforce
  note tv = mpn_add_n_val [OF t]
  have st: "store_at np off r = pre @ r @ n2 # post" if "length r = length dp" for r
    using that np(2) unfolding np(1) by (simp add: store_at_def len)
  have sl: "length s = length dp" "length t = length dp" using sv(2) tv(2) len by simp_all
  have nth: "np ! (off + length dp - 1) = nx" "np ! (off + length dp - 2) = ny" "dp ! (length dp - 1) = dX" "dp ! (length dp - 2) = d1"
    using np(2) unfolding np(1) len by (simp_all add: dp(1) np(3) nth_append)
  have low: "take (length dp) (drop off np) = ?low" using np(2) by (simp add: np(1) len)
  have low_s: "take (length dp) (drop off (store_at np off s)) = s" using np(2) sl(1) by (simp add: st)
  have res: "(q, np') = (if n2 \<noteq> cy then (qh - 1, store_at (store_at np off s) off t) else (qh, store_at np off s))"
    using step unfolding divrem_step_def Let_def nat_pointer nat_int store_limbs_int nth low qh_def [symmetric] s prod.case low_s t fst_conv by simp
  have st2: "store_at (store_at np off s) off t = pre @ t @ n2 # post"
    unfolding st [OF sl(1)] using sl np(2) by (simp add: store_at_def)
  have lS: "lval s < Bpow (length dp)" "lval t < Bpow (length dp)" using lval_less [of s] lval_less [of t] sl by simp_all
  have "lval s + unat qh * ?D = lval ?low + Bpow (length dp) * unat cy" using sv(1) len by (simp add: mult.commute)
  note ab = add_back [OF this refl lS(1) bounds D]
  show ?thesis
  proof (cases "n2 = cy")
    case True
    then show ?thesis using ab(1) res st [OF sl(1)] sl D(1) by (intro exI [of _ s]) simp
  next
    case False
    then have b: "unat qh = ?N div ?D + 1" "lval s + ?D = Bpow (length dp) + ?N mod ?D" using ab(2) by (auto simp: word_unat_eq_iff)
    have "lval t + Bpow (length dp) * unat c = Bpow (length dp) + ?N mod ?D" using tv(1) b(2) sl by simp
    moreover have "?N mod ?D < Bpow (length dp)" using D mod_less_divisor [of ?D ?N] by linarith
    ultimately have "lval t = ?N mod ?D" using tv(3) lS(2) sl by (cases "unat c") (auto simp: le_Suc_eq)
    moreover have "unat (qh - 1) = ?N div ?D" using b(1) by (subst unat_minus_one) auto
    ultimately show ?thesis using False res st2 sl D(1) by (intro exI [of _ t]) simp
  qed
qed

lemma last_two: "2 \<le> length xs \<Longrightarrow> \<exists>ys a b. xs = ys @ [a, b]"
  by (cases xs rule: rev_cases; cases "butlast xs" rule: rev_cases) auto

lemma divrem_round:
  assumes dp: "2 \<le> length dp" "2 ^ 63 \<le> unat (last dp)" and w: "length w = length dp" "lval w < lval dp"
    and step: "divrem_step (pre @ x # w @ post) (int (length pre)) (last w) (last w) dp = (q, np')"
  obtains s where "np' = pre @ s @ last w # post" "length s = length dp" "lval s < lval dp"
    "unat q * lval dp + lval s = unat x + 2 ^ 64 * lval w"
proof -
  obtain dl d1 dX where d: "dp = dl @ [d1, dX]"
    using last_two [OF dp(1)] by blast
  obtain v where v: "w = v @ [last w]" using w(1) dp(1) by (cases w rule: rev_cases) auto
  have "length w = Suc (length v)" using arg_cong [where f = length, OF v] by simp
  then obtain lo ny nx where lo: "x # v = lo @ [ny, nx]"
    using last_two [of "x # v"] w(1) dp(1) by auto
  have len: "length lo = length dl" using arg_cong [where f = length, OF lo] arg_cong [where f = length, OF v] w(1) d by simp
  have "x # w = (lo @ [ny, nx]) @ [last w]" using lo v by (metis append_Cons)
  then have "lval (x # w) = lval ((lo @ [ny, nx]) @ [last w])" by (rule arg_cong)
  then have val: "lval (lo @ [ny, nx]) + Bpow (length dp) * unat (last w) = unat x + 2 ^ 64 * lval w"
    using len d by (simp add: power_add distrib_left)
  have np: "pre @ x # w @ post = pre @ (lo @ [ny, nx]) @ last w # post" using lo v by (metis append.assoc append_Cons append_Nil)
  have "unat x + 2 ^ 64 * lval w < lval dp * 2 ^ 64" using pair_less [of "lval w" "lval dp" "unat x" "2 ^ 64" 0] w(2) unat_lt2p [of x] by simp
  from divrem_step_spec [OF d _ np refl len this [folded val] step] dp(2) d show thesis
    unfolding val by (auto intro: that)
qed

lemma divrem_window:
  fixes np :: "limb list"
  assumes off: "off = Suc i - qx" "off + n \<le> length np"
  defines "np1 \<equiv> (if i \<ge> qx then np else store_at np off (0 # take n (drop off np)))"
  defines "pre \<equiv> take (i - qx) np1" and "x \<equiv> np1 ! (i - qx)" and "post \<equiv> drop (Suc (i - qx) + n) np1"
  shows "np1 = pre @ x # take n (drop off np) @ post \<and> length pre = i - qx \<and>
    lval (pre @ x # take n (drop off np)) * Bpow (i - (i - qx)) = lval (take (off + n) np) * Bpow (Suc i - off) \<and>
    length np1 = (if i < qx then max (length np) (n + 1) else length np)"
proof (cases "i \<ge> qx")
  case True
  then have o: "off = Suc (i - qx)" "Suc i - off = i - (i - qx)" "np1 = np" using off by (auto simp: np1_def Suc_diff_le)
  have split: "take (off + n) np = pre @ x # take n (drop off np)"
    using take_add [of "i - qx" "Suc n" np] Cons_nth_drop_Suc [of "i - qx" np, symmetric] off(2) by (simp add: o pre_def x_def)
  have "np1 = take (off + n) np @ post" using append_take_drop_id [of "off + n" np] by (simp add: post_def o)
  then show ?thesis using split True off(2) o by (simp add: pre_def)
next
  case False
  then have o: "off = 0" "i - qx = 0" "np1 = 0 # take n np @ drop (Suc n) np" using off by (auto simp: np1_def store_at_def)
  then show ?thesis
    using off False by (simp add: pre_def x_def post_def power_add)
qed

lemma loop_identity:
  fixes d :: nat
  assumes "Q * d + r = (p + a * s) * e" "q * d + s = n"
  shows "(Q + a * e * q) * d + r = (p + a * n) * e"
  using assms by algebra

lemma shift_up:
  "off + length w \<le> length np \<Longrightarrow> store_at (store_at np (off + 1) w) off [x] = store_at np off (x # w)"
  by (cases w) (auto simp: store_at_def min_def drop_append)

lemma divrem_loop_spec:
  assumes "2 \<le> length dp" "2 ^ 63 \<le> unat (last dp)"
    and "off = i - qx" "off + length dp \<le> length np" "n0 = np ! (off + length dp - 1)"
    and "lval (take (length dp) (drop off np)) < lval dp" "divrem_loop i qx np (int off) n0 dp = (qp, np')"
  shows "lval qp * lval dp + lval (take (length dp) np') = lval (take (off + length dp) np) * Bpow (i - off) \<and>
    lval (take (length dp) np') < lval dp \<and> length qp = i \<and>
    length np' = (if 0 < i \<and> 0 < qx then max (length np) (length dp + 1) else length np)"
  using assms(3-)
proof (induction i arbitrary: np off n0 qp np')
  case 0
  then show ?case by simp
next
  case (Suc i)
  let ?ds = "length dp" and ?w = "take (length dp) (drop off np)"
  define np1 where "np1 = (if i \<ge> qx then np else store_at np off (0 # ?w))"
  define pre x post where D: "pre = take (i - qx) np1" "x = np1 ! (i - qx)" "post = drop (Suc (i - qx) + ?ds) np1"
  have ne: "?w \<noteq> []" using assms(1) Suc(3) by auto
  have w: "length ?w = ?ds" "last ?w = n0"
    using assms(1) Suc(3,4) unfolding last_conv_nth [OF ne] by simp_all
  have np1: "np1 = pre @ x # ?w @ post" "length pre = i - qx"
    "lval (pre @ x # ?w) * Bpow (i - (i - qx)) = lval (take (off + ?ds) np) * Bpow (Suc i - off)"
    "length np1 = (if i < qx then max (length np) (?ds + 1) else length np)"
    using divrem_window [OF Suc(2,3), folded np1_def, folded D] by blast+
  obtain q np2 where q: "divrem_step np1 (int (i - qx)) n0 n0 dp = (q, np2)" by fastforce
  obtain s where s: "np2 = pre @ s @ last ?w # post" "length s = ?ds" "lval s < lval dp"
      "unat q * lval dp + lval s = unat x + 2 ^ 64 * lval ?w"
    using divrem_round [OF assms(1,2) w(1) Suc(5), of pre x post q np2] q w(2) np1(1,2) by metis
  have "store_limbs (store_limbs np (int off + 1) ?w) (int off) [0] = store_at np off (0 # ?w)"
    using shift_up [of off ?w np] Suc(3) w(1) by simp
  then have hd: "(if i \<ge> qx then (np, int off - 1, np ! nat (int off - 1 + int ?ds))
             else (store_limbs (store_limbs np (int off + 1) ?w) (int off) [0], int off, np ! (off + ?ds - 1))) =
      (np1, int (i - qx), n0)"
    using Suc(2,4) assms(1) by (auto simp: np1_def Suc_diff_le of_nat_diff nat_diff_distrib' nat_add_distrib)
  obtain qp' where qp': "divrem_loop i qx np2 (int (i - qx)) (np2 ! (i - qx + ?ds - 1)) dp = (qp', np')" "qp = qp' @ [q]"
    using Suc(6) unfolding divrem_loop.simps Let_def nat_int hd prod.case q nat_pointer by (auto split: prod.splits)
  have "lval qp' * lval dp + lval (take ?ds np') = lval (take (i - qx + ?ds) np2) * Bpow (i - (i - qx)) \<and>
      lval (take ?ds np') < lval dp \<and> length qp' = i \<and>
      length np' = (if 0 < i \<and> 0 < qx then max (length np2) (?ds + 1) else length np2)"
    by (rule Suc.IH [OF refl _ refl _ qp'(1)]) (use s np1(2) in simp_all)
  then have IH: "lval qp' * lval dp + lval (take ?ds np') = (lval pre + Bpow (i - qx) * lval s) * Bpow (i - (i - qx))"
      "lval (take ?ds np') < lval dp" "length qp' = i"
      "length np' = (if 0 < i \<and> 0 < qx then max (length np2) (?ds + 1) else length np2)"
    using s(1,2) np1(2) by simp_all
  have "Bpow i = Bpow (i - qx) * Bpow (i - (i - qx))" by (simp flip: power_add distrib_left)
  moreover have "(lval pre + Bpow (i - qx) * (unat x + 2 ^ 64 * lval ?w)) * Bpow (i - (i - qx)) =
      lval (take (off + ?ds) np) * Bpow (Suc i - off)"
    using np1(3) by (simp add: np1(2))
  ultimately have "lval qp * lval dp + lval (take ?ds np') = lval (take (off + ?ds) np) * Bpow (Suc i - off)"
    using loop_identity [OF IH(1) s(4)] IH(3) by (simp add: qp'(2))
  moreover have "length np2 = length np1" using np1(1) s(1,2) w by simp
  ultimately show ?case using IH(2-4) qp'(2) np1(4) by auto
qed

lemma divrem_2_loop_spec:
  assumes "2 ^ 63 \<le> unat d1" "off = i - qx" "off + 2 \<le> length np" "unat n1 * 2 ^ 64 + unat n0 < unat d1 * 2 ^ 64 + unat d0"
    and "divrem_2_loop i qx np (int off) n1 n0 d1 d0 = (qp, np', off', r1, r0)"
  shows "lval qp * (unat d1 * 2 ^ 64 + unat d0) + (unat r1 * 2 ^ 64 + unat r0) =
      (lval (take off np) + Bpow off * (unat n1 * 2 ^ 64 + unat n0)) * Bpow (i - off) \<and>
    unat r1 * 2 ^ 64 + unat r0 < unat d1 * 2 ^ 64 + unat d0 \<and> length qp = i \<and> off' = 0 \<and> length np' = length np"
  using assms(2-)
proof (induction i arbitrary: np off n1 n0 qp np')
  case 0
  then show ?case by simp
next
  case (Suc i)
  let ?W = "unat n1 * 2 ^ 64 + unat n0" and ?D = "unat d1 * 2 ^ 64 + unat d0"
  define np1 where "np1 = (if i \<ge> qx then np else store_at np off [0])"
  define x where "x = np1 ! (i - qx)"
  have hd: "(if i \<ge> qx then (np, int off - 1) else (store_limbs np (int off) [0], int off)) = (np1, int (i - qx))"
    using Suc(2) by (auto simp: np1_def of_nat_diff)
  have val: "(lval (take (i - qx) np1) + Bpow (i - qx) * (unat x + 2 ^ 64 * ?W)) * Bpow (i - (i - qx)) =
      (lval (take off np) + Bpow off * ?W) * Bpow (Suc i - off)"
  proof (cases "i \<ge> qx")
    case True
    then have "off = Suc (i - qx)" "Suc i - off = i - (i - qx)" "np1 = np" using Suc(2) by (auto simp: np1_def Suc_diff_le)
    then show ?thesis using Suc(3) by (simp add: x_def take_Suc_conv_app_nth power_add algebra_simps)
  next
    case False
    then have "off = 0" "i - qx = 0" "np1 = store_at np 0 [0]" using Suc(2) by (auto simp: np1_def)
    moreover from this have "x = 0" unfolding x_def by (simp add: store_at_def)
    ultimately show ?thesis by (simp add: power_add)
  qed
  obtain q m1 m0 where q: "divrem_2_step n1 n0 x d1 d0 = (q, m1, m0)" by (rule prod_cases3)
  have step: "unat q * ?D + (unat m1 * 2 ^ 64 + unat m0) = unat x + 2 ^ 64 * ?W" "unat m1 * 2 ^ 64 + unat m0 < ?D"
    using divrem_2_step_spec [OF assms(1) Suc(4) q] by (simp_all only: mult.commute [of "2 ^ 64"] add.commute [of "unat x"])
  obtain qp' where qp': "divrem_2_loop i qx np1 (int (i - qx)) m1 m0 d1 d0 = (qp', np', off', r1, r0)" "qp = qp' @ [q]"
    using Suc(5) unfolding divrem_2_loop.simps Let_def hd prod.case nat_int x_def [symmetric] q by (auto split: prod.splits)
  have "length np1 = length np" using Suc(3) by (simp add: np1_def)
  then have IH: "lval qp' * ?D + (unat r1 * 2 ^ 64 + unat r0) =
      (lval (take (i - qx) np1) + Bpow (i - qx) * (unat m1 * 2 ^ 64 + unat m0)) * Bpow (i - (i - qx)) \<and>
    unat r1 * 2 ^ 64 + unat r0 < ?D \<and> length qp' = i \<and> off' = 0 \<and> length np' = length np1"
    using Suc(2,3) by (intro Suc.IH [OF refl _ step(2) qp'(1)]) simp
  have "Bpow i = Bpow (i - qx) * Bpow (i - (i - qx))" by (simp flip: power_add distrib_left)
  moreover have "lval qp = lval qp' + Bpow i * unat q" using IH by (simp add: qp'(2))
  ultimately show ?case
    using loop_identity [OF _ step(1)] IH val \<open>length np1 = length np\<close> by (simp add: qp'(2))
qed

lemma normalized_bound:
  assumes "ds \<noteq> []" "2 ^ 63 \<le> unat (last ds)" "length ws = length ds"
  shows "lval ws < 2 * lval ds"
proof -
  obtain dl dX where d: "ds = dl @ [dX]" using assms(1) by (cases ds rule: rev_cases) auto
  have "Bpow (length ds) = 2 * (Bpow (length dl) * 2 ^ 63)" by (simp add: d power_add)
  also have "\<dots> \<le> 2 * (Bpow (length dl) * unat dX)" using assms(2) by (intro mult_left_mono) (simp_all add: d)
  also have "\<dots> \<le> 2 * lval ds" by (simp add: d)
  finally show ?thesis using lval_less [of ws] assms(3) by simp
qed

text \<open>
  The first quotient limb is 0 or 1: the high part \<open>w\<close> of the dividend is less than twice the divisor.  The loops divide
  what is left.
\<close>

lemma first_quotient_limb:
  fixes d :: nat
  assumes "w = m * d + w'" "q * d + r = (l + p * w') * e"
  shows "(m * (p * e) + q) * d + r = (l + p * w) * e"
  using assms by algebra

lemma mpn_divrem_1_limb:
  assumes "2 ^ 63 \<le> unat d" "np \<noteq> []" "mpn_divrem qx np [d] = Some (qp, np', m)"
  shows "(unat m * Bpow (length np - 1 + qx) + lval qp) * unat d + lval (take 1 np') = lval np * Bpow qx \<and>
    lval (take 1 np') < unat d \<and> length qp = length np - 1 + qx \<and> unat m \<le> 1 \<and> length np' = length np"
proof -
  obtain lo n1 where np: "np = lo @ [n1]" using assms(2) by (cases np rule: rev_cases) auto
  define n1' where "n1' = (if n1 \<ge> d then n1 - d else n1)"
  obtain q1 r1 where 1: "udiv_loop n1' (rev lo) d = (q1, r1)" by fastforce
  obtain q0 r0 where 0: "udiv_loop r1 (replicate qx 0) d = (q0, r0)" by fastforce
  have res: "qp = rev q0 @ rev q1" "np' = store_at np 0 [r0]" "m = of_bool (n1 \<ge> d)"
    using assms(3) 1 0 by (simp_all add: store_limbs_def mpn_divrem_def np n1'_def Let_def split: if_splits)
  have "unat n1 < 2 * unat d" using assms(1) unat_lt2p [of n1] by simp
  then have w: "unat n1 = unat m * unat d + unat n1'" "unat n1' < unat d"
    by (auto simp: res(3) n1'_def unat_sub word_le_nat_alt not_le)
  have v1: "lval (rev q1) * unat d + unat r1 = unat n1' * Bpow (length lo) + lval lo" "unat r1 < unat d" "length q1 = length lo"
    using udiv_loop_val [OF assms(1) w(2) 1] by simp_all
  have v0: "lval (rev q0) * unat d + unat r0 = unat r1 * Bpow qx" "unat r0 < unat d" "length q0 = qx"
    using udiv_loop_val [OF assms(1) v1(2) 0] by simp_all
  have "(q0 + e * q1) * d + r0 = (l + p * n) * e" if "q1 * d + r1 = n * p + l" "q0 * d + r0 = r1 * e" for q0 q1 d r0 r1 n p l e :: nat
    using that by algebra
  note e = first_quotient_limb [OF w(1) this [OF v1(1) v0(1)]]
  have t: "take 1 np' = [r0]" "length np' = length np" using assms(2) by (cases np; simp add: res(2) store_at_def)+
  have m: "unat m \<le> 1" by (simp add: res(3))
  show ?thesis unfolding t using e v0 v1(3) m by (simp add: res(1) np power_add distrib_left)
qed

lemma mpn_divrem_2_limbs:
  assumes "2 ^ 63 \<le> unat d1" "2 \<le> length np" "mpn_divrem qx np [d0, d1] = Some (qp, np', m)"
  shows "(unat m * Bpow (length np - 2 + qx) + lval qp) * lval [d0, d1] + lval (take 2 np') = lval np * Bpow qx \<and>
    lval (take 2 np') < lval [d0, d1] \<and> length qp = length np - 2 + qx \<and> unat m \<le> 1 \<and> length np' = length np"
proof -
  obtain lo n0 n1 where np: "np = lo @ [n0, n1]" using last_two [OF assms(2)] by blast
  let ?D = "unat d1 * 2 ^ 64 + unat d0" and ?W = "unat n1 * 2 ^ 64 + unat n0"
  have ge: "n1 \<ge> d1 \<and> (n1 > d1 \<or> n0 \<ge> d0) \<longleftrightarrow> \<not> ?W < ?D" unfolding limb_pair_less by auto
  obtain m1 m0 where m: "(if \<not> ?W < ?D then sub_ddmmss n1 n0 d1 d0 else (n1, n0)) = (m1, m0)" by fastforce
  obtain np1 off r1 r0 where l: "divrem_2_loop (length lo + qx) qx np (int (length lo)) m1 m0 d1 d0 = (qp, np1, off, r1, r0)"
    and res: "np' = store_limbs (store_limbs np1 (off + 1) [r1]) off [r0]" "m = of_bool (\<not> ?W < ?D)"
  proof -
    have hd: "(if n1 \<ge> d1 \<and> (n1 > d1 \<or> n0 \<ge> d0) then let (n1, n0) = sub_ddmmss n1 n0 d1 d0 in (n1, n0, 1) else (n1, n0, 0)) =
        (m1, m0, of_bool (\<not> ?W < ?D) :: limb)"
      using m unfolding ge by (auto split: if_splits)
    have length_two: "length [d0, d1] = 2" "[d0, d1] ! 1 = d1" "[d0, d1] ! 0 = d0" by simp_all
    have ix: "int (length np) - 2 = int (length lo)" "qx + length np - 2 = length lo + qx" "np ! nat (int (length lo) + 1) = n1"
      "np ! nat (int (length lo)) = n0" by (simp_all add: np nth_append nat_add_distrib)
    obtain qp' np1 off r1 r0 where l: "divrem_2_loop (length lo + qx) qx np (int (length lo)) m1 m0 d1 d0 = (qp', np1, off, r1, r0)"
      by (rule prod_cases5)
    have "mpn_divrem qx np [d0, d1] = Some (qp', store_limbs (store_limbs np1 (off + 1) [r1]) off [r0], of_bool (\<not> ?W < ?D))"
      unfolding mpn_divrem_def Let_def ix length_two hd [unfolded Let_def] prod.case l by simp
    then show thesis using that [of np1 off r1 r0] l assms(3) by simp
  qed
  have "?W < 2 * ?D" using normalized_bound [of "[d0, d1]" "[n0, n1]"] assms(1) by simp
  then have w: "?W = unat m * ?D + (unat m1 * 2 ^ 64 + unat m0)" "unat m1 * 2 ^ 64 + unat m0 < ?D"
    using m sub_ddmmss_spec [of d1 d0 n1 n0 m1 m0] unfolding res(2) by (auto split: if_splits)
  have v: "lval qp * ?D + (unat r1 * 2 ^ 64 + unat r0) =
      (lval lo + Bpow (length lo) * (unat m1 * 2 ^ 64 + unat m0)) * Bpow qx"
    "unat r1 * 2 ^ 64 + unat r0 < ?D" "length qp = length lo + qx" "off = 0" "length np1 = length np"
    using divrem_2_loop_spec [OF assms(1) _ _ w(2) l] np by simp_all
  have "2 \<le> length np1" using v(5) assms(2) by simp
  then obtain a b rest where "np1 = a # b # rest" by (cases np1; cases "tl np1") auto
  then have t: "take 2 np' = [r0, r1]" "length np' = length np"
    using v(4,5) by (simp_all add: res(1) store_limbs_def store_at_def)
  show ?thesis
    unfolding t using first_quotient_limb [OF w(1) v(1)] v np res(2) by (simp add: power_add distrib_left algebra_simps)
qed

lemma lex_le:
  fixes d :: nat
  assumes "dl < p" "wl < p"
  shows "d \<le> w \<and> (d < w \<or> dl \<le> wl) \<longleftrightarrow> dl + p * d \<le> wl + p * w"
proof -
  have lt: "x + p * a < y + p * b" if "x < p" "a < b" for x y a b
  proof -
    have "p * (a + 1) \<le> p * b" using that(2) by (intro mult_left_mono) simp_all
    then show ?thesis using that(1) by simp
  qed
  consider "d < w" | "d = w" | "w < d" by linarith
  then show ?thesis using lt [of dl d w wl] lt [of wl w d dl] assms by cases auto
qed

lemma mpn_divrem_limbs:
  assumes "2 ^ 63 \<le> unat (last dp)" "3 \<le> length dp" "length dp \<le> length np" "mpn_divrem qx np dp = Some (qp, np', m)"
  shows "(unat m * Bpow (length np - length dp + qx) + lval qp) * lval dp + lval (take (length dp) np') = lval np * Bpow qx \<and>
    lval (take (length dp) np') < lval dp \<and> length qp = length np - length dp + qx \<and> unat m \<le> 1 \<and>
    length np' = (if 0 < qx then max (length np) (length dp + 1) else length np)"
proof -
  let ?ds = "length dp" and ?off = "length np - length dp"
  let ?w = "drop ?off np"
  define lo where "lo = take ?off np"
  have np: "np = lo @ ?w" "length lo = ?off" "length ?w = ?ds" using assms(3) by (simp_all add: lo_def)
  obtain wl wt dl dX where sp: "?w = wl @ [wt]" "dp = dl @ [dX]" "length wl = length dl"
    using assms(2) np(3) by (cases ?w rule: rev_cases; cases dp rule: rev_cases) auto
  have off: "int (length np) - int ?ds = int ?off" using assms(3) by simp
  have ge: "np ! (?off + ?ds - 1) \<ge> dp ! (?ds - 1) \<and> (np ! (?off + ?ds - 1) > dp ! (?ds - 1) \<or> mpn_cmp ?w dp (?ds - 1) \<ge> 0) \<longleftrightarrow>
      lval dp \<le> lval ?w"
  proof -
    have "np ! (?off + ?ds - 1) = wt"
      using np sp assms(2) by (metis add_diff_assoc length_append_singleton nth_append_length nth_append_length_plus sp(3) One_nat_def diff_Suc_1 le_add1 plus_1_eq_Suc)
    moreover have "mpn_cmp ?w dp (?ds - 1) = sgn (int (lval wl) - int (lval dl))"
      unfolding sp(1) using mpn_cmp_val [of "length dl" "wl @ [wt]" "dl @ [dX]"] by (simp add: sp(2,3))
    moreover have "(0 :: int) \<le> sgn (int (lval wl) - int (lval dl)) \<longleftrightarrow> lval dl \<le> lval wl" by (simp add: sgn_if)
    ultimately show ?thesis
      using lex_le [of "lval dl" "Bpow (length dl)" "lval wl" "unat dX" "unat wt"] lval_less [of dl] lval_less [of wl] sp
      by (simp add: word_le_nat_alt word_less_nat_alt)
  qed
  obtain s c where s: "mpn_sub_n ?w dp = (s, c)" by fastforce
  define w' where "w' = (if lval dp \<le> lval ?w then s else ?w)"
  have m: "m = of_bool (lval dp \<le> lval ?w)"
    and l: "divrem_loop (?off + qx) qx (lo @ w') (int ?off) ((lo @ w') ! (?off + ?ds - 1)) dp = (qp, np')"
  proof -
    have "store_at np ?off r = lo @ r" if "length r = ?ds" for r
      using that np assms(3) by (simp add: store_at_def lo_def)
    moreover have "length s = ?ds" using mpn_sub_n_val(2) [OF s] np(3) by simp
    moreover have "take ?ds ?w = ?w" using np(3) by simp
    ultimately have "(if lval dp \<le> lval ?w then (store_at np ?off (fst (mpn_sub_n (take ?ds ?w) dp)), 1) else (np, 0)) =
        (lo @ w', of_bool (lval dp \<le> lval ?w) :: limb)"
      using s np(1) by (auto simp: w'_def)
    moreover have "\<not> ?ds = 0" "\<not> ?ds = 1" "\<not> ?ds = 2" "qx + length np - ?ds = ?off + qx" using assms(2,3) by auto
    ultimately show "m = of_bool (lval dp \<le> lval ?w)" "divrem_loop (?off + qx) qx (lo @ w') (int ?off) ((lo @ w') ! (?off + ?ds - 1)) dp = (qp, np')"
      using assms(4) unfolding mpn_divrem_def Let_def off nat_pointer nat_int store_limbs_int ge by (auto split: prod.splits)
  qed
  have "lval ?w < 2 * lval dp" using assms(1,2) np(3) by (intro normalized_bound) auto
  then have w: "lval ?w = unat m * lval dp + lval w'" "lval w' < lval dp" "length w' = ?ds"
  proof -
    note sv = mpn_sub_n_val [OF s np(3)]
    have "unat c = 0" if "lval dp \<le> lval ?w"
    proof (rule ccontr)
      assume "unat c \<noteq> 0"
      then have "unat c = 1" using sv(3) by simp
      then show False using sv(1,2) lval_less [of s] that by simp
    qed
    then show "lval ?w = unat m * lval dp + lval w'" "lval w' < lval dp" "length w' = ?ds"
      using sv \<open>lval ?w < 2 * lval dp\<close> np(3) by (auto simp: m w'_def)
  qed
  have v: "lval qp * lval dp + lval (take ?ds np') = (lval lo + Bpow ?off * lval w') * Bpow qx \<and>
    lval (take ?ds np') < lval dp \<and> length qp = ?off + qx \<and>
    length np' = (if 0 < ?off + qx \<and> 0 < qx then max (length np) (?ds + 1) else length np)"
    using divrem_loop_spec [OF _ assms(1) _ _ refl _ l] assms(2,3) w np by simp
  have "lval np = lval lo + Bpow ?off * lval ?w" using np by (metis lval_append)
  then show ?thesis
    using first_quotient_limb [OF w(1), of "lval qp" _ "lval lo" "Bpow ?off" "Bpow qx"] v m by (simp add: power_add distrib_left)
qed

lemma divrem_cases:
  assumes "dp \<noteq> []" "2 ^ 63 \<le> unat (last dp)" "length dp \<le> length np" "mpn_divrem qx np dp = Some (qp, np', m)"
  shows "(unat m * Bpow (length np - length dp + qx) + lval qp) * lval dp + lval (take (length dp) np') = lval np * Bpow qx \<and>
    lval (take (length dp) np') < lval dp \<and> length qp = length np - length dp + qx \<and> unat m \<le> 1 \<and>
    length np' = (if 3 \<le> length dp \<and> length np = length dp \<and> 0 < qx then length np + 1 else length np)"
proof -
  consider d where "dp = [d]" | d0 d1 where "dp = [d0, d1]" | "3 \<le> length dp"
    using assms(1) by (cases dp; cases "tl dp"; cases "tl (tl dp)") auto
  then show ?thesis
  proof cases
    case 1
    have l: "length dp = 1" "lval dp = unat d" by (simp_all add: 1)
    have "2 ^ 63 \<le> unat d" "np \<noteq> []" "mpn_divrem qx np [d] = Some (qp, np', m)" using assms 1 by auto
    from mpn_divrem_1_limb [OF this] show ?thesis unfolding l by simp
  next
    case 2
    have l: "length dp = 2" "lval dp = lval [d0, d1]" by (simp_all add: 2)
    have "2 ^ 63 \<le> unat d1" "2 \<le> length np" "mpn_divrem qx np [d0, d1] = Some (qp, np', m)" using assms 2 by auto
    from mpn_divrem_2_limbs [OF this] show ?thesis unfolding l by simp
  next
    case 3
    then show ?thesis using mpn_divrem_limbs [OF assms(2) 3 assms(3,4)] assms(3) by auto
  qed
qed

lemma mpn_divrem_returns: "dp \<noteq> [] \<Longrightarrow> mpn_divrem qx np dp \<noteq> None"
  by (auto simp: mpn_divrem_def Let_def split: prod.splits)

section \<open>Properties\<close>

text \<open>
  C27: division of a number by a limb that is not zero, normalized or not: \<open>mpn_divmod_1\<close> stores the quotient, in
  as many limbs as the dividend has, and returns the remainder, and \<open>mpn_mod_1\<close> returns the same remainder.
\<close>

theorem mpn_divmod_1_quotient:
  assumes "d \<noteq> 0" "xs \<noteq> []" "mpn_divmod_1 xs d = (q, r)"
  shows "lval q = lval xs div unat d \<and> unat r = lval xs mod unat d \<and> length q = length xs \<and> mpn_mod_1 xs d = r"
  using mpn_divmod_1_val [OF assms(1,3,2)] assms(3) by (simp add: mpn_mod_1_divmod_1)

theorem mpn_divmod_1_quotient_witness:
  "\<exists>q r. mpn_divmod_1 [5, 7, 11] 13 = (q, r) \<and> lval q = (5 + 2 ^ 64 * (7 + 2 ^ 64 * 11)) div 13 \<and> mpn_mod_1 [5, 7, 11] 13 = r"
proof -
  obtain q r where "mpn_divmod_1 [5, 7, 11] 13 = (q, r)" by fastforce
  then show ?thesis using mpn_divmod_1_quotient [of 13 "[5, 7, 11]" q r] by simp
qed

text \<open>
  C28: \<open>mpn_divrem\<close> returns for every divisor that is not empty and whose top bit is set, and a dividend with at least as many limbs:
  the quotient of the dividend, extended by \<open>qextra_limbs\<close> zero limbs at the low end, is in the limbs that are stored
  with the limb that is returned, which is 0 or 1, on top, and the remainder is in the low limbs of the dividend.
\<close>

theorem mpn_divrem_quotient:
  assumes "dp \<noteq> []" "2 ^ 63 \<le> unat (last dp)" "length dp \<le> length np"
  shows "\<exists>qp np' m. mpn_divrem qx np dp = Some (qp, np', m) \<and>
    unat m * Bpow (length qp) + lval qp = lval np * Bpow qx div lval dp \<and>
    lval (take (length dp) np') = lval np * Bpow qx mod lval dp \<and> length qp = length np - length dp + qx \<and> unat m \<le> 1"
proof -
  obtain qp np' m where r: "mpn_divrem qx np dp = Some (qp, np', m)"
    using mpn_divrem_returns [OF assms(1)] by (metis not_None_eq prod_cases3)
  from divrem_cases [OF assms r] show ?thesis
    using r divmod_unique [of "unat m * Bpow (length qp) + lval qp" "lval dp" "lval (take (length dp) np')" "lval np * Bpow qx"]
    by simp
qed

theorem mpn_divrem_quotient_witness:
  "\<exists>qp np' m. mpn_divrem 1 [1, 2, 3, 4] [5, 6, 0x8000000000000000] = Some (qp, np', m) \<and>
     unat m * Bpow 2 + lval qp = lval [0, 1, 2, 3, 4] div lval [5, 6, 0x8000000000000000]"
  using mpn_divrem_quotient [of "[5, 6, 0x8000000000000000]" "[1, 2, 3, 4]" 1] by auto

text \<open>
  C29: every limb that \<open>mpn_divrem\<close> writes through \<open>np\<close> is a limb of the dividend, neither before its start nor beyond its
  end, with one exception: with three or more limbs in the divisor, as many in the dividend, and extra quotient limbs,
  one limb beyond the end of the dividend is written.  A store outside makes the list longer and no store makes it
  shorter (lemmas \<open>store_limbs_inside\<close> and \<open>store_limbs_longer\<close>), so the length of the list says whether there was one.
\<close>

theorem mpn_divrem_overrun:
  assumes "dp \<noteq> []" "2 ^ 63 \<le> unat (last dp)" "length dp \<le> length np" "mpn_divrem qx np dp = Some (qp, np', m)"
  shows "length np' = (if 3 \<le> length dp \<and> length np = length dp \<and> 0 < qx then length np + 1 else length np)"
  using divrem_cases [OF assms] by simp

theorem mpn_divrem_overrun_witness:
  "\<exists>qp np' m. mpn_divrem 1 [1, 2, 3] [5, 6, 0x8000000000000000] = Some (qp, np', m) \<and> length np' = 4"
proof -
  obtain qp np' m where r: "mpn_divrem 1 [1, 2, 3] [5, 6, 0x8000000000000000] = Some (qp, np', m)"
    using mpn_divrem_returns [of "[5, 6, 0x8000000000000000]" 1 "[1, 2, 3]"] by auto
  then show ?thesis using mpn_divrem_overrun [OF _ _ _ r] by simp
qed

end
