(* ===== verification/Hsearch.thy ===== *)
theory Hsearch
  imports Prelude
begin

text \<open>
  The hash table of \<open>misc/hsearch_r.c\<close>: double hashing with open addressing.

  A key is the list of the bytes of the string, without the final zero byte, and \<open>data\<close> is the pointer that the caller
  stores with it.  An entry that \<open>calloc\<close> has cleared has the key and the pointer \<open>NULL\<close>, here \<open>[]\<close> and 0; the
  code never looks at them, since \<open>used\<close> is 0.  \<open>ht_size\<close> is the field \<open>size\<close>.  A result pointer is the index of the
  entry it points to.

  \<open>None\<close> is a loop that does not end.  A search has one of several outcomes: it returns, or it uses the table that is
  \<open>NULL\<close>, takes a remainder by zero, or reads the entry at an index outside the table.
\<close>

section \<open>The code\<close>

record ENTRY =
  key :: "byte list"
  data :: u64

record USED_ENTRY =
  used :: u32
  entry :: ENTRY

record hsearch_data =
  table :: "USED_ENTRY list option"
  ht_size :: u32
  filled :: u32

datatype ACTION = FIND | ENTER

datatype herror = EINVAL | ENOMEM | ESRCH

datatype 'a outcome = Returns 'a | Null_Table | Div_Zero | Outside u32

partial_function (option) isprime_loop :: "u32 \<Rightarrow> u32 \<Rightarrow> u32 option" where
  "isprime_loop number d = (if d * d < number \<and> number mod d \<noteq> 0 then isprime_loop number (d + 2) else Some d)"

definition isprime :: "u32 \<Rightarrow> bool option" where
  "isprime number = map_option (\<lambda>d. number mod d \<noteq> 0) (isprime_loop number 3)"

partial_function (option) next_size :: "u64 \<Rightarrow> u64 option" where
  "next_size nel =
     (case isprime (ucast nel) of
        None \<Rightarrow> None
      | Some p \<Rightarrow> if p then Some nel else next_size (nel + 2))"

definition hcreate_r :: "(nat \<Rightarrow> bool) \<Rightarrow> u64 \<Rightarrow> hsearch_data option \<Rightarrow> (bool \<times> herror option \<times> hsearch_data option) option" where
  "hcreate_r calloc_ok nel htab =
     (case htab of
        None \<Rightarrow> Some (False, Some EINVAL, None)
      | Some h \<Rightarrow>
          if table h \<noteq> None then Some (False, None, Some h)
          else let nel = (if nel < 3 then 3 else nel);
                   nel = nel OR 1
               in case next_size nel of
                    None \<Rightarrow> None
                  | Some nel \<Rightarrow>
                      let h = h\<lparr>ht_size := ucast nel, filled := 0\<rparr>;
                          n = unat (ht_size h + 1)
                      in if calloc_ok n
                         then Some (True, None, Some (h\<lparr>table := Some (replicate n \<lparr>used = 0, entry = \<lparr>key = [], data = 0\<rparr>\<rparr>)\<rparr>))
                         else Some (False, None, Some (h\<lparr>table := None\<rparr>)))"

definition hdestroy_r :: "hsearch_data option \<Rightarrow> herror option \<times> hsearch_data option" where
  "hdestroy_r htab =
     (case htab of None \<Rightarrow> (Some EINVAL, None) | Some h \<Rightarrow> (None, Some (h\<lparr>table := None\<rparr>)))"

fun hash_loop :: "byte list \<Rightarrow> nat \<Rightarrow> u32 \<Rightarrow> u32" where
  "hash_loop k 0 hval = hval"
| "hash_loop k (Suc count) hval = hash_loop k count (push_bit 4 hval + scast (k ! count))"

definition hash_value :: "byte list \<Rightarrow> u32" where
  "hash_value k =
     (let len = of_nat (length k) :: u32;
          hval = hash_loop k (unat len) len
      in if hval = 0 then hval + 1 else hval)"

definition tab_get :: "USED_ENTRY list \<Rightarrow> u32 \<Rightarrow> USED_ENTRY option" where
  "tab_get t idx = (if unat idx < length t then Some (t ! unat idx) else None)"

definition hit :: "u32 \<Rightarrow> byte list \<Rightarrow> USED_ENTRY \<Rightarrow> bool" where
  "hit hval k e = (used e = hval \<and> k = key (entry e))"

definition next_idx :: "u32 \<Rightarrow> u32 \<Rightarrow> u32 \<Rightarrow> u32" where
  "next_idx sz hval2 idx = (if idx \<le> hval2 then sz + idx - hval2 else idx - hval2)"

partial_function (option) probe_loop ::
  "USED_ENTRY list \<Rightarrow> u32 \<Rightarrow> u32 \<Rightarrow> byte list \<Rightarrow> u32 \<Rightarrow> u32 \<Rightarrow> u32 \<Rightarrow> (u32 \<times> bool) outcome option" where
  "probe_loop t sz hval k hval2 first_idx idx =
     (let idx = next_idx sz hval2 idx in
      if idx = first_idx then Some (Returns (idx, False))
      else case tab_get t idx of
             None \<Rightarrow> Some (Outside idx)
           | Some e \<Rightarrow>
               if hit hval k e then Some (Returns (idx, True))
               else if used e \<noteq> 0 then probe_loop t sz hval k hval2 first_idx idx
               else Some (Returns (idx, False)))"

definition locate :: "USED_ENTRY list \<Rightarrow> u32 \<Rightarrow> u32 \<Rightarrow> byte list \<Rightarrow> (u32 \<times> bool) outcome option" where
  "locate t sz hval k =
     (if sz = 0 then Some Div_Zero
      else let idx = hval mod sz + 1
           in case tab_get t idx of
                None \<Rightarrow> Some (Outside idx)
              | Some e \<Rightarrow>
                  if used e \<noteq> 0
                  then if hit hval k e then Some (Returns (idx, True))
                       else if sz = 2 then Some Div_Zero
                       else let hval2 = 1 + hval mod (sz - 2)
                            in probe_loop t sz hval k hval2 idx idx
                  else Some (Returns (idx, False)))"

definition hsearch_r ::
  "ENTRY \<Rightarrow> ACTION \<Rightarrow> hsearch_data \<Rightarrow> (u32 option \<times> herror option \<times> hsearch_data) outcome option" where
  "hsearch_r item action htab =
     (case table htab of
        None \<Rightarrow> Some Null_Table
      | Some t \<Rightarrow>
          let hval = hash_value (key item)
          in case locate t (ht_size htab) hval (key item) of
               None \<Rightarrow> None
             | Some Null_Table \<Rightarrow> Some Null_Table
             | Some Div_Zero \<Rightarrow> Some Div_Zero
             | Some (Outside i) \<Rightarrow> Some (Outside i)
             | Some (Returns (idx, found)) \<Rightarrow>
                 if found then Some (Returns (Some idx, None, htab))
                 else if action = ENTER
                 then if filled htab = ht_size htab then Some (Returns (None, Some ENOMEM, htab))
                      else let htab = htab\<lparr>table := Some (t[unat idx := \<lparr>used = hval, entry = item\<rparr>])\<rparr>;
                               htab = htab\<lparr>filled := filled htab + 1\<rparr>
                           in Some (Returns (Some idx, None, htab))
                 else Some (Returns (None, Some ESRCH, htab)))"

text \<open>The functions of \<open>misc/hsearch.c\<close> work on one table, the variable \<open>htab\<close> of that file.\<close>

definition hsearch ::
  "ENTRY \<Rightarrow> ACTION \<Rightarrow> hsearch_data \<Rightarrow> (u32 option \<times> herror option \<times> hsearch_data) outcome option" where
  "hsearch item action htab = hsearch_r item action htab"

definition hcreate :: "(nat \<Rightarrow> bool) \<Rightarrow> u64 \<Rightarrow> hsearch_data \<Rightarrow> (bool \<times> herror option \<times> hsearch_data option) option" where
  "hcreate calloc_ok nel htab = hcreate_r calloc_ok nel (Some htab)"

definition hdestroy :: "hsearch_data \<Rightarrow> herror option \<times> hsearch_data option" where
  "hdestroy htab = hdestroy_r (Some htab)"

section \<open>The size\<close>

definition prime_size :: "nat \<Rightarrow> bool" where
  "prime_size p = (1 < p \<and> (\<forall>d. d dvd p \<longrightarrow> d = 1 \<or> d = p))"

lemma prime_size_coprime:
  assumes "prime_size p" "0 < h" "h < p"
  shows "coprime h p"
proof -
  have "gcd h p dvd p" by simp
  then have "gcd h p = 1 \<or> gcd h p = p" using assms(1) by (simp add: prime_size_def)
  moreover have "gcd h p \<le> h" using assms(2) by (simp add: gcd_le1_nat)
  ultimately show ?thesis using assms(3) by (auto simp: coprime_iff_gcd_eq_1)
qed

lemma unat_square: "unat d \<le> 65535 \<Longrightarrow> unat (d * d) = unat d * unat d" for d :: u32
proof -
  assume "unat d \<le> 65535"
  then have "unat d * unat d \<le> 65535 * 65535" by (intro mult_le_mono)
  then show ?thesis by (simp add: unat_word_ariths)
qed

lemma word_mod_eq_0: "number mod d = 0 \<longleftrightarrow> unat d dvd unat number" for number d :: u32
  unfolding word_unat_eq_iff unat_mod_distrib by (simp add: dvd_eq_mod_eq_0)

lemma isprime_loop_returns:
  fixes number d :: u32
  assumes "unat number \<le> 65535 * 65535" "3 \<le> unat d" "odd (unat d)" "unat d \<le> 65535"
    "unat d = 3 \<or> (unat d - 2) * (unat d - 2) < unat number"
    "\<forall>e. odd e \<and> 3 \<le> e \<and> e < unat d \<longrightarrow> \<not> e dvd unat number"
  shows "\<exists>r. isprime_loop number d = Some r \<and> 3 \<le> unat r \<and> odd (unat r) \<and>
           (unat number \<le> unat r * unat r \<or> unat r dvd unat number) \<and>
           (unat r = 3 \<or> (unat r - 2) * (unat r - 2) < unat number) \<and>
           (\<forall>e. odd e \<and> 3 \<le> e \<and> e < unat r \<longrightarrow> \<not> e dvd unat number)"
  using assms(2-)
proof (induction "65536 - unat d" arbitrary: d rule: less_induct)
  case less
  have sq: "d * d < number \<longleftrightarrow> unat d * unat d < unat number"
    unfolding word_less_nat_alt unat_square [OF less.prems(3)] ..
  show ?case
  proof (cases "unat d * unat d < unat number \<and> \<not> unat d dvd unat number")
    case True
    have "unat d < 65535"
    proof (rule ccontr)
      assume "\<not> unat d < 65535"
      then have "65535 * 65535 \<le> unat d * unat d" by (intro mult_le_mono) simp_all
      then show False using True assms(1) by linarith
    qed
    then have "unat d \<le> 65533" using less.prems(2) by presburger
    then have d2: "unat (d + 2) = unat d + 2" by (simp add: unat_word_ariths)
    have "isprime_loop number d = isprime_loop number (d + 2)"
      using True sq word_mod_eq_0 by (subst isprime_loop.simps) simp
    moreover have "\<not> e dvd unat number" if "odd e" "3 \<le> e" "e < unat d + 2" for e
    proof -
      have "e < unat d \<or> e = unat d" using that less.prems(2) by presburger
      then show ?thesis using less.prems(5) that True by blast
    qed
    ultimately show ?thesis
      using less.hyps [of "d + 2"] less.prems True \<open>unat d \<le> 65533\<close> unfolding d2 by simp
  next
    case False
    then have "isprime_loop number d = Some d" using sq word_mod_eq_0 by (subst isprime_loop.simps) auto
    then show ?thesis using False less.prems by auto
  qed
qed

lemma small_divisor:
  fixes n :: nat
  assumes "\<not> prime_size n" "3 \<le> n"
  obtains e where "e dvd n" "1 < e" "e * e \<le> n"
proof -
  obtain d where d: "d dvd n" "d \<noteq> 1" "d \<noteq> n" using assms by (auto simp: prime_size_def)
  then obtain c where c: "n = d * c" by blast
  have "1 < d" "1 < c" using d assms(2) c by (cases d; cases c; auto)+
  then show ?thesis using that [of d] that [of c] c d(1) nat_le_linear [of d c] by (metis dvd_triv_right mult_le_mono1 mult_le_mono2)
qed

lemma isprime_correct:
  assumes "odd (unat number)" "5 \<le> unat number" "unat number \<le> 65535 * 65535"
  shows "isprime number = Some (prime_size (unat number))"
proof -
  have u3: "unat (3 :: u32) = 3" by simp
  have "\<forall>e. odd e \<and> 3 \<le> e \<and> e < (3 :: nat) \<longrightarrow> \<not> e dvd unat number" by (metis not_less)
  then obtain r where r: "isprime_loop number 3 = Some r" "3 \<le> unat r"
      "unat number \<le> unat r * unat r \<or> unat r dvd unat number"
      "unat r = 3 \<or> (unat r - 2) * (unat r - 2) < unat number"
      "\<forall>e. odd e \<and> 3 \<le> e \<and> e < unat r \<longrightarrow> \<not> e dvd unat number"
    using isprime_loop_returns [OF assms(3), of 3, unfolded u3] by auto
  have "\<not> prime_size (unat number)" if dv: "unat r dvd unat number"
  proof -
    have "unat r \<noteq> unat number"
    proof
      assume e: "unat r = unat number"
      then have "(unat number - 2) * 3 \<le> (unat number - 2) * (unat number - 2)" using assms(2) by (intro mult_le_mono) simp_all
      then show False using r(4) assms(2) unfolding e by linarith
    qed
    then show ?thesis using dv r(2) by (auto simp: prime_size_def)
  qed
  moreover have "prime_size (unat number)" if nd: "\<not> unat r dvd unat number"
  proof (rule ccontr)
    assume np: "\<not> prime_size (unat number)"
    have "3 \<le> unat number" using assms(2) by simp
    then obtain e where e: "e dvd unat number" "1 < e" "e * e \<le> unat number" by (rule small_divisor [OF np])
    have odd: "odd e" using e(1) assms(1) dvd_trans by blast
    have "e * e \<le> unat r * unat r" using e(3) r(3) nd by linarith
    then have "e \<le> unat r" using power2_le_imp_le [of e "unat r"] by (simp add: power2_eq_square)
    moreover have "e \<noteq> unat r" using e(1) nd by blast
    moreover have "3 \<le> e" using e(2) odd by presburger
    ultimately show False using r(5) e(1) odd by simp
  qed
  ultimately show ?thesis using r(1) word_mod_eq_0 by (auto simp: isprime_def)
qed

lemma isprime_3: "isprime 3 = Some False"
  by (simp add: isprime_def isprime_loop.simps)

lemma isprime_1: "isprime 1 = Some True"
  by (simp add: isprime_def isprime_loop.simps)

lemma isprime_size:
  assumes "odd (unat number)" "3 \<le> unat number" "unat number \<le> 65535 * 65535"
  shows "isprime number = Some (5 \<le> unat number \<and> prime_size (unat number))"
proof (cases "5 \<le> unat number")
  case True
  then show ?thesis using isprime_correct [OF assms(1) True assms(3)] by simp
next
  case False
  then have "unat number = unat (3 :: u32)" using assms(1,2) by (simp, presburger)
  then have "number = 3" by (simp only: word_unat_eq_iff)
  then show ?thesis using isprime_3 by simp
qed

lemma unat_ucast_small: "unat nel < 2 ^ 32 \<Longrightarrow> unat (ucast nel :: u32) = unat nel" for nel :: u64
  unfolding unsigned_ucast_eq by (simp add: take_bit_nat_eq_self_iff)

lemma prime_size_odd: "prime_size p \<Longrightarrow> 3 \<le> p \<Longrightarrow> odd p"
  unfolding prime_size_def by (auto dest: spec [of _ 2])

definition least_size :: "nat \<Rightarrow> nat \<Rightarrow> bool" where
  "least_size n q = (n \<le> q \<and> 5 \<le> q \<and> prime_size q \<and> (\<forall>p. n \<le> p \<and> 5 \<le> p \<and> prime_size p \<longrightarrow> q \<le> p))"

lemma least_size_step:
  assumes "least_size (n + 2) q" "odd n" "\<not> (5 \<le> n \<and> prime_size n)"
  shows "least_size n q"
  unfolding least_size_def
proof (intro conjI allI impI)
  fix p assume p: "n \<le> p \<and> 5 \<le> p \<and> prime_size p"
  then have "odd p" using prime_size_odd by simp
  moreover have "p \<noteq> n" using p assms(3) by blast
  moreover have "n \<le> p" using p by blast
  ultimately have "n + 2 \<le> p" using assms(2) by presburger
  then show "q \<le> p" using assms(1) p by (simp add: least_size_def)
qed (use assms(1) in \<open>simp_all add: least_size_def\<close>)

lemma next_size_least:
  assumes "odd (unat nel)" "3 \<le> unat nel" "unat nel \<le> p" "5 \<le> p" "prime_size p" "p \<le> 65535 * 65535"
  shows "\<exists>q. next_size nel = Some q \<and> least_size (unat nel) (unat q) \<and> unat q \<le> p"
  using assms(1-3)
proof (induction "p - unat nel" arbitrary: nel rule: less_induct)
  case less
  have u: "unat (ucast nel :: u32) = unat nel" using less.prems(3) assms(6) by (intro unat_ucast_small) simp
  have ip: "isprime (ucast nel) = Some (5 \<le> unat nel \<and> prime_size (unat nel))"
    using isprime_size [of "ucast nel"] less.prems assms(6) unfolding u by linarith
  show ?case
  proof (cases "5 \<le> unat nel \<and> prime_size (unat nel)")
    case True
    then have "next_size nel = Some nel" using ip by (subst next_size.simps) simp
    then show ?thesis using True less.prems(3) by (simp add: least_size_def)
  next
    case False
    have "odd p" using assms(4,5) prime_size_odd by simp
    moreover have "p \<noteq> unat nel" using False assms(4,5) by blast
    ultimately have le: "unat nel + 2 \<le> p" using less.prems(1,3) by presburger
    then have n2: "unat (nel + 2) = unat nel + 2" using assms(6) by (simp add: unat_word_ariths)
    obtain q where q: "next_size (nel + 2) = Some q" "least_size (unat nel + 2) (unat q)" "unat q \<le> p"
      using less.hyps [of "nel + 2"] less.prems le unfolding n2 by fastforce
    have "next_size nel = next_size (nel + 2)" using ip False by (subst next_size.simps) simp
    then show ?thesis using q least_size_step [OF q(2) less.prems(1) False] by simp
  qed
qed

lemma even_word_iff_unat: "even x \<longleftrightarrow> even (unat x)" for x :: u64
  using bit_0 [of x] bit_0 [of "unat x"] by (simp add: bit_unsigned_iff)

lemma unat_make_odd:
  assumes "unat nel \<le> p" "5 \<le> p" "odd p" "p \<le> 65535 * 65535"
  defines "m \<equiv> (if nel < 3 then 3 else nel) OR (1 :: u64)"
  shows "odd (unat m) \<and> 3 \<le> unat m \<and> unat nel \<le> unat m \<and> unat m \<le> p \<and>
         (\<forall>q. odd q \<and> 3 \<le> q \<and> unat nel \<le> q \<longrightarrow> unat m \<le> q)"
proof -
  define x where "x = (if nel < 3 then 3 else nel)"
  have lt: "nel < 3 \<longleftrightarrow> unat nel < 3" by (simp add: word_less_nat_alt)
  have x: "unat x = max 3 (unat nel)" unfolding x_def using lt by auto
  have xp: "unat x \<le> p" using x assms(1,2) by simp
  have "unat m = unat x + of_bool (even (unat x))"
  proof (cases "even (unat x)")
    case True
    have "unat (x + 1) = unat x + 1" using xp assms(4) by (simp add: unat_word_ariths)
    then show ?thesis using True unfolding m_def x_def [symmetric] or_one_eq by (simp add: even_word_iff_unat)
  next
    case False
    then show ?thesis unfolding m_def x_def [symmetric] or_one_eq by (simp add: even_word_iff_unat)
  qed
  then have m: "unat m = (if even (unat x) then unat x + 1 else unat x)" by simp
  have "unat m \<le> p" using xp assms(3) unfolding m by (cases "unat x = p") auto
  moreover have "unat m \<le> q" if "odd q" "3 \<le> q" "unat nel \<le> q" for q
    using that unfolding m x by (cases "unat x = q") (auto simp: x max_def split: if_splits)
  ultimately show ?thesis using m x by auto
qed

section \<open>The probe sequence\<close>

definition nxt :: "nat \<Rightarrow> nat \<Rightarrow> nat \<Rightarrow> nat" where
  "nxt s h p = (if p \<le> h then s + p - h else p - h)"

definition pos :: "nat \<Rightarrow> nat \<Rightarrow> nat \<Rightarrow> nat \<Rightarrow> nat" where
  "pos s h p j = (p - 1 + j * (s - h)) mod s + 1"

lemma pos_range: "0 < s \<Longrightarrow> 1 \<le> pos s h p j \<and> pos s h p j \<le> s"
  by (simp add: pos_def Suc_le_eq)

lemma pos_0: "1 \<le> p \<Longrightarrow> p \<le> s \<Longrightarrow> pos s h p 0 = p"
  by (simp add: pos_def)

lemma pos_Suc:
  assumes "0 < h" "h < s"
  shows "nxt s h (pos s h p j) = pos s h p (Suc j)"
proof -
  define x where "x = (p - 1 + j * (s - h)) mod s"
  have x: "x < s" using assms by (simp add: x_def)
  have "(p - 1 + Suc j * (s - h)) mod s = (x + (s - h)) mod s"
    unfolding x_def mod_add_left_eq by (simp add: ac_simps)
  moreover have "(x + (s - h)) mod s = (if x < h then x + (s - h) else x - h)"
  proof (cases "x < h")
    case False
    then have "x + (s - h) = x - h + s" using assms by simp
    moreover have "(x - h + s) mod s = x - h" unfolding mod_add_self2 using x by simp
    ultimately show ?thesis using False by simp
  qed (use assms in simp)
  ultimately have "pos s h p (Suc j) = (if x < h then x + (s - h) else x - h) + 1" unfolding pos_def by simp
  moreover have "pos s h p j = x + 1" by (simp add: pos_def x_def)
  ultimately show ?thesis using assms x by (auto simp: nxt_def)
qed

lemma pos_inj:
  assumes "coprime (s - h) s" "i \<le> j" "j < s" "pos s h p i = pos s h p j"
  shows "i = j"
proof -
  have "(p - 1 + i * (s - h)) mod s = (p - 1 + j * (s - h)) mod s" using assms(4) by (simp add: pos_def)
  moreover have "p - 1 + i * (s - h) \<le> p - 1 + j * (s - h)" using assms(2) by simp
  ultimately have "s dvd (p - 1 + j * (s - h)) - (p - 1 + i * (s - h))" by (metis mod_eq_dvd_iff_nat)
  then have "s dvd (j - i) * (s - h)" by (simp add: diff_mult_distrib)
  then have "s dvd j - i" using assms(1) by (simp add: coprime_commute coprime_dvd_mult_left_iff)
  then show ?thesis using assms(2,3) by (auto dest!: dvd_imp_le)
qed

lemma pos_wrap:
  assumes "1 \<le> p" "p \<le> s"
  shows "pos s h p s = p"
proof -
  have "(p - 1 + s * (s - h)) mod s = p - 1" unfolding mod_mult_self2 using assms by simp
  then show ?thesis using assms by (simp add: pos_def)
qed

lemma pos_covers:
  assumes "coprime (s - h) s" "0 < s"
  shows "pos s h p ` {..<s} = {1..s}"
proof (rule card_subset_eq)
  have "inj_on (pos s h p) {..<s}"
  proof (rule inj_onI)
    fix i j assume ij: "i \<in> {..<s}" "j \<in> {..<s}" "pos s h p i = pos s h p j"
    then have "i < s" "j < s" by simp_all
    then show "i = j"
      using pos_inj [OF assms(1) _ _ ij(3)] pos_inj [OF assms(1) _ _ ij(3) [symmetric]] nat_le_linear [of i j] by blast
  qed
  then show "card (pos s h p ` {..<s}) = card {1..s}" by (simp add: card_image)
  show "pos s h p ` {..<s} \<subseteq> {1..s}"
    unfolding image_subset_iff atLeastAtMost_iff using pos_range [OF assms(2)] by blast
qed simp

lemma unat_next_idx:
  fixes sz h2 idx :: u32
  assumes "1 \<le> unat idx" "unat idx \<le> unat sz" "0 < unat h2" "unat h2 < unat sz"
  shows "unat (next_idx sz h2 idx) = nxt (unat sz) (unat h2) (unat idx)"
proof (cases "idx \<le> h2")
  case True
  then have l: "unat idx \<le> unat h2" by (simp add: word_le_nat_alt)
  have "next_idx sz h2 idx = sz - (h2 - idx)" using True by (simp add: next_idx_def)
  moreover have "unat (h2 - idx) = unat h2 - unat idx" using True by (simp add: unat_sub)
  moreover have "h2 - idx \<le> sz" using calculation(2) assms by (simp add: word_le_nat_alt)
  ultimately show ?thesis using l assms by (simp add: nxt_def unat_sub)
next
  case False
  then show ?thesis by (simp add: next_idx_def nxt_def unat_sub word_le_nat_alt)
qed

section \<open>The search\<close>

lemma word_len_u32: "LENGTH(32) = 32"
  by simp


definition step2 :: "u32 \<Rightarrow> u32 \<Rightarrow> nat" where
  "step2 sz hval = unat (1 + hval mod (sz - 2))"

definition place :: "u32 \<Rightarrow> u32 \<Rightarrow> nat \<Rightarrow> nat" where
  "place sz hval j = pos (unat sz) (step2 sz hval) (unat (hval mod sz + 1)) j"

lemma unat_u32_less: "unat x < 2 ^ 32" for x :: u32
  using unat_lt2p [of x] unfolding word_len_u32 .

lemma unat_plus_one: "unat x + 1 < 2 ^ 32 \<Longrightarrow> unat (x + 1) = unat x + 1" for x :: u32
  by (simp add: unat_word_ariths)

lemma unat_first:
  fixes sz hval :: u32
  assumes "0 < unat sz"
  shows "unat (hval mod sz + 1) = unat hval mod unat sz + 1"
proof -
  have "unat (hval mod sz) < unat sz" unfolding unat_mod_distrib using assms by (rule mod_less_divisor)
  then have "unat (hval mod sz) + 1 < 2 ^ 32" using unat_u32_less [of sz] by linarith
  then show ?thesis unfolding unat_mod_distrib [symmetric] by (rule unat_plus_one)
qed

lemma mod_minus_2: "5 \<le> s \<Longrightarrow> n mod (s - 2) + 1 < s" for s n :: nat
  using mod_less_divisor [of "s - 2" n] by (simp only: less_diff_conv) simp

lemma step2_unat:
  assumes "5 \<le> unat sz"
  shows "step2 sz hval = unat hval mod (unat sz - 2) + 1"
proof -
  have "2 \<le> sz" unfolding word_le_nat_alt using assms by simp
  then have s2: "unat (hval mod (sz - 2)) = unat hval mod (unat sz - 2)" unfolding unat_mod_distrib by (simp add: unat_sub)
  have "unat (hval mod (sz - 2)) + 1 < 2 ^ 32"
    unfolding s2 by (rule less_trans [OF mod_minus_2 [OF assms] unat_u32_less])
  then show ?thesis unfolding step2_def add.commute [of 1] s2 [symmetric] by (rule unat_plus_one)
qed

lemma step2_range:
  assumes "5 \<le> unat sz"
  shows "0 < step2 sz hval" "step2 sz hval < unat sz"
  unfolding step2_unat [OF assms] using mod_minus_2 [OF assms] by (simp, blast)

definition size_ok :: "u32 \<Rightarrow> bool" where
  "size_ok sz = (5 \<le> unat sz \<and> prime_size (unat sz))"

lemma size_okD: "size_ok sz \<Longrightarrow> 5 \<le> unat sz \<and> 0 < unat sz"
  by (simp add: size_ok_def)

lemma step_coprime:
  assumes "size_ok sz"
  shows "coprime (unat sz - step2 sz hval) (unat sz)"
  using assms step2_range [of sz hval] by (intro prime_size_coprime) (auto simp: size_ok_def)

lemma place_range: "size_ok sz \<Longrightarrow> 1 \<le> place sz hval j \<and> place sz hval j \<le> unat sz"
  unfolding place_def by (rule pos_range) (simp add: size_ok_def)

lemma first_range: "size_ok sz \<Longrightarrow> 1 \<le> unat (hval mod sz + 1) \<and> unat (hval mod sz + 1) \<le> unat sz"
  using mod_less_divisor [of "unat sz" "unat hval"] by (simp only: unat_first size_okD Suc_eq_plus1 [symmetric] Suc_le_eq) simp

lemma place_0: "size_ok sz \<Longrightarrow> place sz hval 0 = unat (hval mod sz + 1)"
  unfolding place_def using first_range [of sz hval] by (simp only: pos_0)

lemma place_wrap: "size_ok sz \<Longrightarrow> place sz hval (unat sz) = unat (hval mod sz + 1)"
  unfolding place_def using first_range [of sz hval] by (simp only: pos_wrap)

lemma place_covers: "size_ok sz \<Longrightarrow> place sz hval ` {..<unat sz} = {1..unat sz}"
  unfolding place_def using pos_covers [OF step_coprime] size_okD by blast

lemma place_not_first:
  assumes "size_ok sz" "0 < j" "j < unat sz"
  shows "place sz hval j \<noteq> unat (hval mod sz + 1)"
proof
  assume "place sz hval j = unat (hval mod sz + 1)"
  then have "place sz hval 0 = place sz hval j" by (simp only: place_0 [OF assms(1)])
  then have "0 = j" unfolding place_def by (rule pos_inj [OF step_coprime [OF assms(1)] le0 assms(3)])
  then show False using assms(2) by simp
qed

lemma next_idx_place:
  assumes "size_ok sz" "unat idx = place sz hval j"
  shows "unat (next_idx sz (1 + hval mod (sz - 2)) idx) = place sz hval (Suc j)"
proof -
  note r = step2_range [of sz hval] and p = place_range [OF assms(1), of hval j]
  have "unat (next_idx sz (1 + hval mod (sz - 2)) idx) = nxt (unat sz) (step2 sz hval) (unat idx)"
    unfolding step2_def using unat_next_idx [of idx sz] r p assms(2) size_okD [OF assms(1)]
    by (simp only: step2_def)
  also have "\<dots> = place sz hval (Suc j)"
    unfolding assms(2) place_def using r size_okD [OF assms(1)] by (simp only: pos_Suc)
  finally show ?thesis .
qed

definition skips :: "USED_ENTRY list \<Rightarrow> u32 \<Rightarrow> byte list \<Rightarrow> nat \<Rightarrow> bool" where
  "skips t hval k i = (used (t ! i) \<noteq> 0 \<and> \<not> hit hval k (t ! i))"

lemma tab_get_in: "unat idx < length t \<Longrightarrow> tab_get t idx = Some (t ! unat idx)"
  by (simp add: tab_get_def)

lemma probe_first:
  "next_idx sz h2 idx = first \<Longrightarrow> probe_loop t sz hval k h2 first idx = Some (Returns (first, False))"
  by (subst probe_loop.simps) (simp add: Let_def)

lemma probe_outside:
  "next_idx sz h2 idx = x \<Longrightarrow> x \<noteq> first \<Longrightarrow> \<not> unat x < length t \<Longrightarrow>
   probe_loop t sz hval k h2 first idx = Some (Outside x)"
  by (subst probe_loop.simps) (simp add: Let_def tab_get_def)

lemma probe_stop:
  assumes "next_idx sz h2 idx = x" "x \<noteq> first" "unat x < length t" "\<not> skips t hval k (unat x)"
  shows "probe_loop t sz hval k h2 first idx = Some (Returns (x, hit hval k (t ! unat x)))"
  using assms by (subst probe_loop.simps) (auto simp: Let_def tab_get_in skips_def)

lemma probe_go:
  assumes "next_idx sz h2 idx = x" "x \<noteq> first" "unat x < length t" "skips t hval k (unat x)"
  shows "probe_loop t sz hval k h2 first idx = probe_loop t sz hval k h2 first x"
  using assms by (subst probe_loop.simps) (simp add: Let_def tab_get_in skips_def)

lemma place_first_iff:
  assumes "size_ok sz" "unat x = place sz hval j" "0 < j" "j \<le> unat sz"
  shows "x = hval mod sz + 1 \<longleftrightarrow> j = unat sz"
proof (cases "j = unat sz")
  case True
  then show ?thesis using assms(2) place_wrap [OF assms(1), of hval] by (simp only: word_unat_eq_iff simp_thms)
next
  case False
  then show ?thesis
    using assms place_not_first [OF assms(1,3), of hval] by (simp only: word_unat_eq_iff order_le_less) blast
qed

lemma probe_loop_run:
  fixes hval sz :: u32
  defines "h2 \<equiv> 1 + hval mod (sz - 2)" and "first \<equiv> hval mod sz + 1"
  assumes "size_ok sz" "length t = unat sz + 1" "unat idx = place sz hval j" "j < n" "n \<le> unat sz"
    "\<forall>i. j < i \<and> i < n \<longrightarrow> skips t hval k (place sz hval i)"
    "n = unat sz \<or> \<not> skips t hval k (place sz hval n)"
  shows "\<exists>r. unat r = place sz hval n \<and>
           probe_loop t sz hval k h2 first idx = Some (Returns (r, n < unat sz \<and> hit hval k (t ! place sz hval n)))"
  using assms(5,6,8)
proof (induction "n - j" arbitrary: j idx)
  case 0
  then show ?case by simp
next
  case (Suc m)
  define x where "x = next_idx sz h2 idx"
  have x: "unat x = place sz hval (Suc j)"
    unfolding x_def h2_def by (rule next_idx_place [OF assms(3) Suc.prems(1)])
  have len: "unat x < length t" unfolding x assms(4) using place_range [OF assms(3), of hval "Suc j"] by linarith
  have first: "x = first \<longleftrightarrow> Suc j = unat sz"
    unfolding first_def using Suc.prems(2) assms(7) by (intro place_first_iff [OF assms(3) x]) simp_all
  consider "Suc j = unat sz" | "Suc j = n" "n < unat sz" | "Suc j < n" using Suc.prems(2) assms(7) by linarith
  then show ?case
  proof cases
    case 1
    then have "n = Suc j" using Suc.prems(2) assms(7) by simp
    then show ?thesis using probe_first [OF x_def [symmetric, unfolded first [THEN iffD2, OF 1]]] x first 1 by auto
  next
    case 2
    then have "\<not> skips t hval k (unat x)" using assms(9) x by simp
    then show ?thesis using probe_stop [OF x_def [symmetric] _ len, of first hval k] first x 2 by auto
  next
    case 3
    then have "skips t hval k (unat x)" using Suc.prems(3) x by simp
    then have "probe_loop t sz hval k h2 first idx = probe_loop t sz hval k h2 first x"
      using probe_go [OF x_def [symmetric] _ len] first 3 assms(7) by simp
    moreover have "\<forall>i. Suc j < i \<and> i < n \<longrightarrow> skips t hval k (place sz hval i)" using Suc.prems(3) by simp
    ultimately show ?thesis using Suc.hyps(1) [OF _ x 3] Suc.hyps(2) by simp
  qed
qed

lemma locate_spec:
  assumes "size_ok sz" "length t = unat sz + 1" "hval \<noteq> 0"
  shows "\<exists>n r. n \<le> unat sz \<and> unat r = place sz hval n \<and> (\<forall>i<n. skips t hval k (place sz hval i)) \<and>
           (n = unat sz \<or> \<not> skips t hval k (place sz hval n)) \<and>
           locate t sz hval k = Some (Returns (r, n < unat sz \<and> hit hval k (t ! place sz hval n)))"
proof -
  define stop where "stop i = (i = unat sz \<or> \<not> skips t hval k (place sz hval i))" for i
  define n where "n = (LEAST i. stop i)"
  have stop: "stop n" unfolding n_def by (rule LeastI [of stop "unat sz"]) (simp add: stop_def)
  have n: "n \<le> unat sz" unfolding n_def by (rule Least_le) (simp add: stop_def)
  have before: "\<not> stop i" if "i < n" for i using that unfolding n_def by (rule not_less_Least)
  then have sk: "\<forall>i<n. skips t hval k (place sz hval i)" by (simp add: stop_def)
  have sz: "sz \<noteq> 0" "sz \<noteq> 2" using assms(1) by (auto simp: size_ok_def)
  define r0 where "r0 = hval mod sz + 1"
  have r0: "unat r0 = place sz hval 0" unfolding r0_def by (simp only: place_0 [OF assms(1)])
  have "unat r0 < length t" unfolding r0 assms(2) using place_range [OF assms(1), of hval 0] by linarith
  then have loc: "locate t sz hval k =
      (if skips t hval k (place sz hval 0) then probe_loop t sz hval k (1 + hval mod (sz - 2)) r0 r0
       else Some (Returns (r0, hit hval k (t ! place sz hval 0))))"
    using sz assms(3) r0 unfolding locate_def r0_def [symmetric] Let_def
    by (auto simp: tab_get_in skips_def hit_def)
  show ?thesis
  proof (cases "n = 0")
    case True
    then have "\<not> skips t hval k (place sz hval 0)" "0 < unat sz" using stop size_okD [OF assms(1)] by (auto simp: stop_def)
    then show ?thesis using True r0 loc by (intro exI [of _ 0] exI [of _ r0]) simp
  next
    case False
    then have "skips t hval k (place sz hval 0)" using sk by simp
    moreover obtain r where "unat r = place sz hval n"
      "probe_loop t sz hval k (1 + hval mod (sz - 2)) r0 r0 = Some (Returns (r, n < unat sz \<and> hit hval k (t ! place sz hval n)))"
      using probe_loop_run [OF assms(1,2) r0, of n k] False n sk stop unfolding stop_def r0_def by blast
    ultimately show ?thesis using n sk stop loc unfolding stop_def by (intro exI [of _ n] exI [of _ r]) simp
  qed
qed

end
