(* ===== verification/Hsearch_Map.thy ===== *)
theory Hsearch_Map
  imports Hsearch
begin

text \<open>
  The hash table of \<open>misc/hsearch_r.c\<close> as a partial map: the invariant of the table, the map it stands for, the contract of
  the search and of sequences of calls, and the properties.
\<close>

section \<open>The invariant and the map\<close>

definition in_use :: "USED_ENTRY list \<Rightarrow> nat set" where
  "in_use t = {i. i < length t \<and> used (t ! i) \<noteq> 0}"

abbreviation key_at :: "USED_ENTRY list \<Rightarrow> nat \<Rightarrow> byte list" where
  "key_at t i \<equiv> key (entry (t ! i))"

definition reached :: "USED_ENTRY list \<Rightarrow> u32 \<Rightarrow> nat \<Rightarrow> bool" where
  "reached t sz i =
     (let h = hash_value (key_at t i)
      in used (t ! i) = h \<and> (\<exists>j<unat sz. i = place sz h j \<and> (\<forall>l<j. place sz h l \<in> in_use t)))"

definition table_ok :: "USED_ENTRY list \<Rightarrow> u32 \<Rightarrow> u32 \<Rightarrow> bool" where
  "table_ok t sz fil =
     (size_ok sz \<and> length t = unat sz + 1 \<and> used (t ! 0) = 0 \<and> unat fil = card (in_use t) \<and>
      (\<forall>i \<in> in_use t. reached t sz i) \<and> inj_on (key_at t) (in_use t))"

definition hash_ok :: "hsearch_data \<Rightarrow> bool" where
  "hash_ok h = (case table h of None \<Rightarrow> False | Some t \<Rightarrow> table_ok t (ht_size h) (filled h))"

definition tab_map :: "USED_ENTRY list \<Rightarrow> byte list \<Rightarrow> u64 option" where
  "tab_map t k = map_option (\<lambda>e. data (entry e)) (List.find (\<lambda>e. used e \<noteq> 0 \<and> key (entry e) = k) t)"

definition hash_map :: "hsearch_data \<Rightarrow> byte list \<Rightarrow> u64 option" where
  "hash_map h = (case table h of None \<Rightarrow> Map.empty | Some t \<Rightarrow> tab_map t)"

lemma hash_value_nonzero: "hash_value k \<noteq> 0"
  by (simp add: hash_value_def Let_def)

lemma tab_map_None: "tab_map t k = None \<longleftrightarrow> k \<notin> key_at t ` in_use t"
  by (auto simp: tab_map_def find_None_iff in_use_def in_set_conv_nth)

lemma tab_map_at:
  assumes "inj_on (key_at t) (in_use t)" "i \<in> in_use t"
  shows "tab_map t (key_at t i) = Some (data (entry (t ! i)))"
proof -
  have "tab_map t (key_at t i) \<noteq> None" unfolding tab_map_None using assms(2) by blast
  then obtain e where e: "List.find (\<lambda>e. used e \<noteq> 0 \<and> key (entry e) = key_at t i) t = Some e"
    by (auto simp: tab_map_def)
  then obtain j where "j < length t" "used (t ! j) \<noteq> 0" "key_at t j = key_at t i" "e = t ! j"
    by (auto simp: find_Some_iff)
  moreover from this have "j = i" using assms by (auto simp: in_use_def inj_on_def)
  ultimately show ?thesis using e by (simp add: tab_map_def)
qed

lemma dom_tab_map: "dom (tab_map t) = key_at t ` in_use t"
  by (rule set_eqI) (simp only: domIff tab_map_None simp_thms)

lemma in_use_range:
  assumes ok: "table_ok t sz fil"
  shows "in_use t \<subseteq> {1..unat sz}"
proof
  fix i
  assume "i \<in> in_use t"
  then have "i < length t" "used (t ! i) \<noteq> 0" by (simp_all add: in_use_def)
  moreover have "length t = unat sz + 1" "used (t ! 0) = 0" using ok by (simp_all add: table_ok_def)
  ultimately have "i \<noteq> 0" "i \<le> unat sz" by (metis, linarith)
  then show "i \<in> {1..unat sz}" by simp
qed

lemma skips_in_use: "skips t hval k i \<Longrightarrow> i < length t \<Longrightarrow> i \<in> in_use t"
  by (simp add: skips_def in_use_def)

lemma place_less: "table_ok t sz fil \<Longrightarrow> place sz hval j < length t"
  using place_range [of sz hval j] by (simp add: table_ok_def)

lemma key_not_skipped:
  assumes "table_ok t sz fil" "i \<in> in_use t"
  shows "\<not> skips t (hash_value (key_at t i)) (key_at t i) i"
  using assms by (simp add: table_ok_def reached_def Let_def skips_def hit_def)

lemma key_absent:
  assumes ok: "table_ok t sz fil" and sk: "\<forall>i<n. skips t (hash_value k) k (place sz (hash_value k) i)"
    and n: "n = unat sz \<or> place sz (hash_value k) n \<notin> in_use t"
  shows "k \<notin> key_at t ` in_use t"
proof
  assume "k \<in> key_at t ` in_use t"
  then obtain i where i: "i \<in> in_use t" "k = key_at t i" by blast
  then have "reached t sz i" using ok by (simp add: table_ok_def)
  then obtain j where j: "j < unat sz" "i = place sz (hash_value k) j" "\<forall>l<j. place sz (hash_value k) l \<in> in_use t"
    unfolding reached_def Let_def i(2) by blast
  have "\<not> skips t (hash_value k) k (place sz (hash_value k) j)"
    using key_not_skipped [OF ok i(1)] unfolding i(2) [symmetric] j(2) [symmetric] .
  then have "n \<le> j" using sk by (meson not_less)
  moreover have "n \<noteq> unat sz" using calculation j(1) by linarith
  then have "place sz (hash_value k) n \<notin> in_use t" using n by blast
  ultimately show False using j(3) i(1) unfolding j(2) by (cases "n = j") auto
qed

lemma locate_cases:
  assumes ok: "table_ok t sz fil"
  obtains (found) r where "locate t sz (hash_value k) k = Some (Returns (r, True))" "unat r \<in> in_use t" "key_at t (unat r) = k"
  | (free) r n where "locate t sz (hash_value k) k = Some (Returns (r, False))" "k \<notin> key_at t ` in_use t"
      "unat r = place sz (hash_value k) n" "n < unat sz" "unat r \<notin> in_use t"
      "\<forall>l<n. place sz (hash_value k) l \<in> in_use t"
  | (full) r where "locate t sz (hash_value k) k = Some (Returns (r, False))" "k \<notin> key_at t ` in_use t" "in_use t = {1..unat sz}"
proof -
  define h where "h = hash_value k"
  have sz: "size_ok sz" "length t = unat sz + 1" using ok by (simp_all add: table_ok_def)
  obtain n r where n: "n \<le> unat sz" "unat r = place sz h n" "\<forall>i<n. skips t h k (place sz h i)"
    "n = unat sz \<or> \<not> skips t h k (place sz h n)"
    "locate t sz h k = Some (Returns (r, n < unat sz \<and> hit h k (t ! place sz h n)))"
    using locate_spec [OF sz hash_value_nonzero] unfolding h_def by blast
  have use: "\<forall>l<n. place sz h l \<in> in_use t" using n(3) skips_in_use place_less [OF ok] by blast
  consider "n = unat sz" | "n < unat sz" "hit h k (t ! place sz h n)" | "n < unat sz" "\<not> hit h k (t ! place sz h n)"
    using n(1) unfolding order_le_less by fast
  then show ?thesis
  proof cases
    case 1
    have "{1..unat sz} \<subseteq> in_use t" 
      unfolding place_covers [OF sz(1), of h, symmetric] image_subset_iff using use unfolding 1 by simp
    then have "in_use t = {1..unat sz}" using in_use_range [OF ok] by (rule equalityI [rotated])
    moreover have "k \<notin> key_at t ` in_use t" using n(3) 1 unfolding h_def by (intro key_absent [OF ok, of n]) simp_all
    moreover have "locate t sz h k = Some (Returns (r, False))" using n(5) 1 by simp
    ultimately show ?thesis unfolding h_def by (intro full)
  next
    case 2
    then have "used (t ! unat r) = h" "key_at t (unat r) = k" unfolding n(2) by (simp_all add: hit_def)
    moreover have "unat r < length t" unfolding n(2) by (rule place_less [OF ok])
    ultimately have "unat r \<in> in_use t" by (simp add: in_use_def h_def hash_value_nonzero)
    moreover have "locate t sz h k = Some (Returns (r, True))" using n(5) 2 by simp
    ultimately show ?thesis using \<open>key_at t (unat r) = k\<close> unfolding h_def by (intro found)
  next
    case 3
    then have notin: "place sz h n \<notin> in_use t" using n(4) by (auto simp: skips_def in_use_def)
    moreover have "k \<notin> key_at t ` in_use t"
      using n(3) notin unfolding h_def by (intro key_absent [OF ok, of n]) simp_all
    moreover have "locate t sz h k = Some (Returns (r, False))" using n(5) 3 by simp
    ultimately show ?thesis using n(2) 3(1) use unfolding h_def by (intro free [of r n]) simp_all
  qed
qed

lemma in_use_update: "i < length t \<Longrightarrow> used e \<noteq> 0 \<Longrightarrow> in_use (t[i := e]) = insert i (in_use t)"
  by (auto simp: in_use_def nth_list_update)

lemma reached_update:
  assumes "reached t sz i" "i \<noteq> r" "in_use t \<subseteq> in_use (t[r := e])"
  shows "reached (t[r := e]) sz i"
  using assms unfolding reached_def Let_def by (simp only: nth_list_update_neq) blast

lemma enter_ok:
  assumes ok: "table_ok t sz fil" and new: "key item \<notin> key_at t ` in_use t"
    and r: "r = place sz (hash_value (key item)) n" "n < unat sz" "r \<notin> in_use t"
      "\<forall>l<n. place sz (hash_value (key item)) l \<in> in_use t"
  shows "table_ok (t[r := \<lparr>used = hash_value (key item), entry = item\<rparr>]) sz (fil + 1)" "fil \<noteq> sz"
proof -
  define t' where "t' = t[r := \<lparr>used = hash_value (key item), entry = item\<rparr>]"
  have sz: "size_ok sz" "length t = unat sz + 1" using ok by (simp_all add: table_ok_def)
  have len: "r < length t" unfolding r(1) by (rule place_less [OF ok])
  have r1: "1 \<le> r" "r \<le> unat sz" using place_range [OF sz(1)] r(1) by blast+
  have use: "in_use t' = insert r (in_use t)" unfolding t'_def by (rule in_use_update [OF len]) (simp add: hash_value_nonzero)
  have fin: "finite (in_use t)" by (simp add: in_use_def)
  have "in_use t \<subset> {1..unat sz}" using in_use_range [OF ok] r1 r(3) by auto
  then have "card (in_use t) < card {1..unat sz}" by (rule psubset_card_mono [rotated]) simp
  then have fil: "unat fil < unat sz" using ok by (simp add: table_ok_def)
  then show "fil \<noteq> sz" by blast
  have "unat (fil + 1) = unat fil + 1" using fil unat_u32_less [of sz] by (intro unat_plus_one) linarith
  then have card: "unat (fil + 1) = card (in_use t')" using ok use fin r(3) by (simp add: table_ok_def)
  have at: "t' ! i = t ! i" if "i \<noteq> r" for i using that by (simp add: t'_def)
  have at_r: "t' ! r = \<lparr>used = hash_value (key item), entry = item\<rparr>" using len by (simp add: t'_def)
  have "reached t' sz r" unfolding reached_def Let_def at_r using r use by auto
  moreover have "reached t' sz i" if "i \<in> in_use t" for i
    unfolding t'_def using that ok r(3) use by (intro reached_update) (auto simp: table_ok_def t'_def)
  ultimately have reach: "\<forall>i \<in> in_use t'. reached t' sz i" unfolding use by blast
  have "key_at t' i = key_at t i" if "i \<in> in_use t" for i using at that r(3) by metis
  then have "inj_on (key_at t') (in_use t) \<and> key_at t' ` in_use t = key_at t ` in_use t"
    using ok by (auto simp: table_ok_def cong: inj_on_cong)
  then have "inj_on (key_at t') (in_use t')" unfolding use inj_on_insert using new at_r r(3) by auto
  then show "table_ok (t[r := \<lparr>used = hash_value (key item), entry = item\<rparr>]) sz (fil + 1)"
    using ok card reach r1 unfolding table_ok_def t'_def by simp
qed

lemma tab_map_enter:
  assumes inj: "inj_on (key_at t) (in_use t)" and inj': "inj_on (key_at t') (in_use t')"
    and t': "t' = t[r := \<lparr>used = h, entry = item\<rparr>]" "r < length t" "h \<noteq> 0" "r \<notin> in_use t"
  shows "tab_map t' = (tab_map t)(key item \<mapsto> data item)"
proof
  fix x
  have use: "in_use t' = insert r (in_use t)" unfolding t'(1) using t'(2,3) by (simp add: in_use_update)
  have at_r: "t' ! r = \<lparr>used = h, entry = item\<rparr>" using t'(1,2) by simp
  have at: "t' ! i = t ! i" if "i \<in> in_use t" for i using that t'(1,4) by (metis nth_list_update_neq)
  consider "x = key item" | i where "x \<noteq> key item" "i \<in> in_use t" "key_at t i = x"
    | "x \<noteq> key item" "x \<notin> key_at t ` in_use t" by blast
  then show "tab_map t' x = ((tab_map t)(key item \<mapsto> data item)) x"
  proof cases
    case 1
    then show ?thesis using tab_map_at [OF inj', of r] use at_r by simp
  next
    case 2
    then show ?thesis using tab_map_at [OF inj', of i] tab_map_at [OF inj, of i] use at [of i] by simp
  next
    case 3
    then have "x \<notin> key_at t' ` in_use t'" unfolding use using at_r at by auto
    then have "tab_map t' x = None" "tab_map t x = None" using 3 unfolding tab_map_None by blast+
    then show ?thesis using 3(1) by simp
  qed
qed

lemma card_dom_tab_map: "table_ok t sz fil \<Longrightarrow> card (dom (tab_map t)) = unat fil"
  unfolding dom_tab_map table_ok_def by (simp only: card_image)

section \<open>The contract of the search\<close>

definition search_spec :: "nat \<Rightarrow> (byte list \<rightharpoonup> u64) \<Rightarrow> ENTRY \<Rightarrow> ACTION \<Rightarrow> ENTRY option \<times> herror option \<times> (byte list \<rightharpoonup> u64)" where
  "search_spec n m item action =
     (case m (key item) of
        Some d \<Rightarrow> (Some \<lparr>key = key item, data = d\<rparr>, None, m)
      | None \<Rightarrow>
          if action = FIND then (None, Some ESRCH, m)
          else if card (dom m) = n then (None, Some ENOMEM, m)
          else (Some \<lparr>key = key item, data = data item\<rparr>, None, m(key item \<mapsto> data item)))"

definition entry_of :: "hsearch_data \<Rightarrow> u32 \<Rightarrow> ENTRY" where
  "entry_of h idx = entry (the (table h) ! unat idx)"

definition keeps :: "USED_ENTRY list \<Rightarrow> USED_ENTRY list \<Rightarrow> bool" where
  "keeps t t' = (length t' = length t \<and> (\<forall>i \<in> in_use t. t' ! i = t ! i))"

lemma hsearch_step:
  assumes h: "table h = Some t" and ok: "table_ok t (ht_size h) (filled h)"
  shows "\<exists>r e h' t'. hsearch_r item action h = Some (Returns (r, e, h')) \<and> table h' = Some t' \<and>
           table_ok t' (ht_size h') (filled h') \<and> ht_size h' = ht_size h \<and> keeps t t' \<and>
           (map_option (\<lambda>i. entry (t' ! unat i)) r, e, tab_map t') =
             search_spec (unat (ht_size h)) (tab_map t) item action"
  using ok
proof (cases rule: locate_cases [where k = "key item"])
  case (found r)
  have "tab_map t (key item) = Some (data (entry (t ! unat r)))"
    using tab_map_at [of t "unat r"] found(2,3) ok by (simp add: table_ok_def)
  then show ?thesis using h ok found unfolding hsearch_r_def search_spec_def keeps_def by (auto simp: Let_def)
next
  case (free r n)
  let ?t = "t[unat r := \<lparr>used = hash_value (key item), entry = item\<rparr>]"
  have ok': "table_ok ?t (ht_size h) (filled h + 1)" and fil: "filled h \<noteq> ht_size h"
    using enter_ok [OF ok free(2,3,4,5,6)] by blast+
  have none: "tab_map t (key item) = None" unfolding tab_map_None by (rule free(2))
  have len: "unat r < length t" unfolding free(3) by (rule place_less [OF ok])
  have "tab_map ?t = (tab_map t)(key item \<mapsto> data item)"
    using ok ok' len free(5) hash_value_nonzero by (intro tab_map_enter [OF _ _ refl]) (simp_all add: table_ok_def)
  moreover have "keeps t ?t"
    unfolding keeps_def using free(5) by (metis length_list_update nth_list_update_neq)
  moreover have "card (dom (tab_map t)) \<noteq> unat (ht_size h)"
    unfolding card_dom_tab_map [OF ok] using fil by (simp add: word_unat_eq_iff)
  ultimately show ?thesis
    using h ok ok' fil free(1) none len unfolding hsearch_r_def search_spec_def
    by (cases action) (auto simp: Let_def keeps_def)
next
  case (full r)
  have "tab_map t (key item) = None" unfolding tab_map_None by (rule full(2))
  moreover have fil: "unat (filled h) = unat (ht_size h)" using ok unfolding table_ok_def full(3) by simp
  moreover have "filled h = ht_size h" using fil by (simp only: word_unat_eq_iff)
  moreover have "card (dom (tab_map t)) = unat (ht_size h)" unfolding card_dom_tab_map [OF ok] by (rule fil)
  ultimately show ?thesis
    using h ok full(1) unfolding hsearch_r_def search_spec_def by (cases action) (auto simp: Let_def keeps_def)
qed

section \<open>Creation\<close>

definition empty_entry :: USED_ENTRY where
  "empty_entry = \<lparr>used = 0, entry = \<lparr>key = [], data = 0\<rparr>\<rparr>"

lemma in_use_empty: "in_use (replicate n empty_entry) = {}"
  by (auto simp: in_use_def empty_entry_def)

lemma table_ok_empty: "size_ok sz \<Longrightarrow> table_ok (replicate (unat sz + 1) empty_entry) sz 0"
  unfolding table_ok_def in_use_empty by (simp add: empty_entry_def)

lemma tab_map_empty: "tab_map (replicate n empty_entry) = Map.empty"
  by (rule ext) (simp only: tab_map_None in_use_empty image_empty empty_iff not_False_eq_True)

lemma hcreate_least:
  assumes "table h = None" "unat nel \<le> p" "5 \<le> p" "prime_size p" "p \<le> 65535 * 65535" "\<forall>n \<le> p + 1. calloc_ok n"
  shows "\<exists>h'. hcreate_r calloc_ok nel (Some h) = Some (True, None, Some h') \<and> hash_ok h' \<and>
           hash_map h' = Map.empty \<and> least_size (unat nel) (unat (ht_size h'))"
proof -
  define m where "m = (if nel < 3 then 3 else nel) OR (1 :: u64)"
  have "odd p" using assms(3,4) prime_size_odd by simp
  note m = unat_make_odd [OF assms(2,3) this assms(5), folded m_def]
  obtain q where q: "next_size m = Some q" "least_size (unat m) (unat q)" "unat q \<le> p"
    using next_size_least [of m p] m assms(3-5) by blast
  define sz where "sz = (ucast q :: u32)"
  have sz: "unat sz = unat q" unfolding sz_def using q(3) assms(5) by (intro unat_ucast_small) simp
  have ok: "size_ok sz" using q(2) by (simp add: size_ok_def sz least_size_def)
  have s1: "unat (sz + 1) = unat sz + 1" using q(3) sz assms(5) by (intro unat_plus_one) simp
  have least: "least_size (unat nel) (unat sz)"
    unfolding least_size_def
  proof (intro conjI allI impI)
    fix p' assume p': "unat nel \<le> p' \<and> 5 \<le> p' \<and> prime_size p'"
    then have "odd p'" using prime_size_odd by simp
    then have "unat m \<le> p'" using m p' by simp
    then show "unat sz \<le> p'" using q(2) p' by (simp add: sz least_size_def)
  qed (use q(2) m sz in \<open>auto simp: least_size_def\<close>)
  have "hcreate_r calloc_ok nel (Some h) =
      Some (True, None, Some (h\<lparr>ht_size := sz, filled := 0, table := Some (replicate (unat sz + 1) empty_entry)\<rparr>))"
    using assms(1,6) q(1,3) s1 sz unfolding hcreate_r_def m_def empty_entry_def
    by (simp add: Let_def sz_def [symmetric])
  then show ?thesis
    using table_ok_empty [OF ok] tab_map_empty least by (simp add: hash_ok_def hash_map_def del: replicate_Suc)
qed

section \<open>Sequences of calls\<close>

text \<open>
  A client makes a sequence of calls and reads the entry behind each result pointer before the next call; a call that
  does not return ends the sequence without a result.
\<close>

fun run_calls ::
  "(ENTRY \<Rightarrow> ACTION \<Rightarrow> 's \<Rightarrow> (u32 option \<times> herror option \<times> 's) outcome option) \<Rightarrow> ('s \<Rightarrow> u32 \<Rightarrow> ENTRY) \<Rightarrow>
   (ENTRY \<times> ACTION) list \<Rightarrow> 's \<Rightarrow> ((ENTRY option \<times> herror option) list \<times> 's) option" where
  "run_calls search deref [] s = Some ([], s)"
| "run_calls search deref ((item, action) # calls) s =
     (case search item action s of
        Some (Returns (r, e, s')) \<Rightarrow>
          map_option (\<lambda>(rs, s''). ((map_option (deref s') r, e) # rs, s'')) (run_calls search deref calls s')
      | _ \<Rightarrow> None)"

fun spec_calls ::
  "nat \<Rightarrow> (ENTRY \<times> ACTION) list \<Rightarrow> (byte list \<rightharpoonup> u64) \<Rightarrow> (ENTRY option \<times> herror option) list \<times> (byte list \<rightharpoonup> u64)" where
  "spec_calls n [] m = ([], m)"
| "spec_calls n ((item, action) # calls) m =
     (let (r, e, m') = search_spec n m item action;
          (rs, m'') = spec_calls n calls m'
      in ((r, e) # rs, m''))"

locale search_table =
  fixes ok :: "'s \<Rightarrow> bool"
    and cap :: "'s \<Rightarrow> nat"
    and to_map :: "'s \<Rightarrow> byte list \<rightharpoonup> u64"
    and search :: "ENTRY \<Rightarrow> ACTION \<Rightarrow> 's \<Rightarrow> (u32 option \<times> herror option \<times> 's) outcome option"
    and deref :: "'s \<Rightarrow> u32 \<Rightarrow> ENTRY"
  assumes search_refines: "ok s \<Longrightarrow> \<exists>r e s'. search item action s = Some (Returns (r, e, s')) \<and> ok s' \<and> cap s' = cap s \<and>
      (map_option (deref s') r, e, to_map s') = search_spec (cap s) (to_map s) item action"
begin

lemma calls_refine:
  "ok s \<Longrightarrow> \<exists>rs s'. run_calls search deref calls s = Some (rs, s') \<and> ok s' \<and> cap s' = cap s \<and>
     (rs, to_map s') = spec_calls (cap s) calls (to_map s)"
proof (induction calls arbitrary: s)
  case (Cons c calls)
  obtain item action where c: "c = (item, action)" by fastforce
  obtain r e s1 where s1: "search item action s = Some (Returns (r, e, s1))" "ok s1" "cap s1 = cap s"
    "search_spec (cap s) (to_map s) item action = (map_option (deref s1) r, e, to_map s1)"
    using search_refines [OF Cons.prems, of item action] by metis
  obtain rs s2 where s2: "run_calls search deref calls s1 = Some (rs, s2)" "ok s2" "cap s2 = cap s1"
    "spec_calls (cap s1) calls (to_map s1) = (rs, to_map s2)"
    using Cons.IH [OF s1(2)] by metis
  show ?case using s1 s2 by (simp add: c)
qed simp

end

lemma hsearch_r_simulates:
  assumes "hash_ok h"
  shows "\<exists>r e h'. hsearch_r item action h = Some (Returns (r, e, h')) \<and> hash_ok h' \<and> ht_size h' = ht_size h \<and>
           keeps (the (table h)) (the (table h')) \<and>
           (map_option (entry_of h') r, e, hash_map h') = search_spec (unat (ht_size h)) (hash_map h) item action"
proof -
  obtain t where t: "table h = Some t" "table_ok t (ht_size h) (filled h)"
    using assms by (auto simp: hash_ok_def split: option.splits)
  obtain r e h' t' where s: "hsearch_r item action h = Some (Returns (r, e, h'))" "table h' = Some t'"
      "table_ok t' (ht_size h') (filled h')" "ht_size h' = ht_size h" "keeps t t'"
      "(map_option (\<lambda>i. entry (t' ! unat i)) r, e, tab_map t') = search_spec (unat (ht_size h)) (tab_map t) item action"
    using hsearch_step [OF t, of item action] by blast
  have "entry_of h' = (\<lambda>i. entry (t' ! unat i))" using s(2) by (simp add: entry_of_def fun_eq_iff)
  moreover have "hash_map h' = tab_map t'" "hash_map h = tab_map t" using s(2) t(1) by (simp_all add: hash_map_def)
  moreover have "hash_ok h'" using s(2,3) by (simp add: hash_ok_def)
  ultimately show ?thesis using s t(1) by simp
qed

interpretation ht: search_table hash_ok "\<lambda>h. unat (ht_size h)" hash_map hsearch_r entry_of
proof unfold_locales
  fix s item action
  assume "hash_ok s"
  then show "\<exists>r e s'. hsearch_r item action s = Some (Returns (r, e, s')) \<and> hash_ok s' \<and> unat (ht_size s') = unat (ht_size s) \<and>
      (map_option (entry_of s') r, e, hash_map s') = search_spec (unat (ht_size s)) (hash_map s) item action"
    using hsearch_r_simulates [of s item action] by metis
qed

section \<open>A table of size 1\<close>

lemma low_bits_one: "unat nel mod 2 ^ 32 \<le> 1 \<Longrightarrow> ucast (nel OR 1) = (1 :: u32)" for nel :: u64
proof (rule bit_word_eqI)
  fix n assume nel: "unat nel mod 2 ^ 32 \<le> 1" and n: "n < LENGTH(32)"
  have "bit nel n \<longleftrightarrow> bit (take_bit 32 (unat nel)) n" using n by (simp add: bit_take_bit_iff bit_unsigned_iff)
  moreover have "take_bit 32 (unat nel) = 0 \<or> take_bit 32 (unat nel) = 1" using nel by (simp add: take_bit_eq_mod le_Suc_eq)
  ultimately have "bit nel n \<Longrightarrow> n = 0" by (auto simp: bit_1_iff bit_Suc_0_iff)
  then show "bit (ucast (nel OR 1) :: u32) n = bit (1 :: u32) n" using n by (auto simp: bit_simps)
qed

lemma index_outside:
  fixes hval :: u32
  assumes "1 < hval"
  shows "2 \<le> unat (1 - hval)"
proof (rule ccontr)
  assume "\<not> 2 \<le> unat (1 - hval)"
  then have "unat (1 - hval) = unat (0 :: u32) \<or> unat (1 - hval) = unat (1 :: u32)" by auto
  then have "1 - hval = 0 \<or> 1 - hval = 1" by (simp only: word_unat_eq_iff)
  then show False using assms by auto
qed

lemma size_1_probe:
  assumes "used e \<noteq> 0" "key (entry e) \<noteq> k" "1 < hash_value k" "hash_value k < - 1"
  shows "locate [e0, e] 1 (hash_value k) k = Some (Outside (1 - hash_value k))"
proof -
  have "(1 :: u32) - 2 = - 1" by simp
  then have h2: "hash_value k mod (1 - 2) = hash_value k" using mod_word_less [OF assms(4)] by (simp only:)
  have "1 + hash_value k \<noteq> 0" using assms(4) by (auto simp: add_eq_0_iff)
  then have "(1 :: u32) \<le> 1 + hash_value k" using unat_gt_0 [of "1 + hash_value k"] by (simp add: word_le_nat_alt Suc_le_eq)
  then have "next_idx 1 (1 + hash_value k) 1 = 1 - hash_value k" by (simp add: next_idx_def algebra_simps)
  moreover have "1 - hash_value k \<noteq> 1" using hash_value_nonzero [of k] by simp
  moreover have "\<not> unat (1 - hash_value k) < length [e0, e]" using index_outside [OF assms(3)] by simp
  ultimately have "probe_loop [e0, e] 1 (hash_value k) k (1 + hash_value k) 1 1 = Some (Outside (1 - hash_value k))"
    by (rule probe_outside)
  then show ?thesis
    using assms(1,2) unfolding locate_def Let_def h2 by (auto simp: tab_get_def hit_def)
qed

section \<open>Properties\<close>

definition table5 :: hsearch_data where
  "table5 = \<lparr>table = Some (replicate 6 empty_entry), ht_size = 5, filled = 0\<rparr>"

lemma prime_size_5: "prime_size 5"
proof -
  have "d = 1 \<or> d = 5" if "d dvd 5" for d :: nat
  proof -
    have "d \<le> 5" using that by (intro dvd_imp_le) simp_all
    then have "d \<in> {0, 1, 2, 3, 4, 5}" by auto
    then show ?thesis using that by auto
  qed
  then show ?thesis by (simp add: prime_size_def)
qed

lemma table5_ok: "hash_ok table5"
  using table_ok_empty [of 5] prime_size_5
  by (simp add: hash_ok_def table5_def size_ok_def del: replicate_Suc)

text \<open>
  C16: On a well-formed table every call of \<open>hsearch_r\<close> returns, without an access outside the table, and does what the
  partial map from keys to data says.  A key that is present gives its entry for both actions, with the old data.  A
  missing key gives \<open>ESRCH\<close> for \<open>FIND\<close>; for \<open>ENTER\<close> it gives \<open>ENOMEM\<close> exactly when the number of keys is the size of
  the table, and a new entry otherwise.
\<close>
theorem hsearch_r_refines:
  assumes "hash_ok h"
  shows "\<exists>r e h'. hsearch_r item action h = Some (Returns (r, e, h')) \<and> ht_size h' = ht_size h \<and>
           (map_option (entry_of h') r, e, hash_map h') = search_spec (unat (ht_size h)) (hash_map h) item action"
  using hsearch_r_simulates [OF assms, of item action] by metis

theorem hsearch_r_refines_witness:
  "hash_ok table5 \<and> (\<exists>r e h'. hsearch_r \<lparr>key = [97], data = 1\<rparr> ENTER table5 = Some (Returns (r, e, h')) \<and> ht_size h' = ht_size table5 \<and>
     (map_option (entry_of h') r, e, hash_map h') =
       search_spec (unat (ht_size table5)) (hash_map table5) \<lparr>key = [97], data = 1\<rparr> ENTER)"
  using hsearch_r_refines [OF table5_ok] table5_ok by blast

text \<open>
  C18: \<open>hsearch_r\<close> keeps the invariant of the table (prime size, \<open>filled\<close> is the number of used entries, each used entry
  is reachable on the probe sequence of its key over used entries only, keys are distinct), and it never moves or
  changes an entry in use, so a result pointer of an earlier call stays valid.
\<close>
theorem hsearch_r_invariant:
  assumes "hash_ok h" "hsearch_r item action h = Some (Returns (r, e, h'))"
  shows "hash_ok h' \<and> keeps (the (table h)) (the (table h'))"
  using hsearch_r_simulates [OF assms(1), of item action] assms(2) by auto

theorem hsearch_r_invariant_witness:
  "\<exists>r e h'. hsearch_r \<lparr>key = [97], data = 1\<rparr> ENTER table5 = Some (Returns (r, e, h')) \<and>
     hash_ok h' \<and> keeps (the (table table5)) (the (table h'))"
  using hsearch_r_simulates [OF table5_ok, of "\<lparr>key = [97], data = 1\<rparr>" ENTER] hsearch_r_invariant [OF table5_ok] by blast

text \<open>
  C17: Every sequence of calls of \<open>hsearch_r\<close> on a well-formed table gives the results and the final map of the same
  sequence on the partial map.
\<close>
theorem hsearch_r_calls:
  assumes "hash_ok h"
  shows "\<exists>rs h'. run_calls hsearch_r entry_of calls h = Some (rs, h') \<and> hash_ok h' \<and>
           (rs, hash_map h') = spec_calls (unat (ht_size h)) calls (hash_map h)"
  using ht.calls_refine [OF assms, of calls] by blast

theorem hsearch_r_calls_witness:
  "hash_ok table5 \<and> (\<exists>rs h'. run_calls hsearch_r entry_of [(\<lparr>key = [97], data = 1\<rparr>, ENTER), (\<lparr>key = [98], data = 0\<rparr>, FIND)] table5 =
       Some (rs, h') \<and> hash_ok h' \<and>
     (rs, hash_map h') = spec_calls (unat (ht_size table5))
       [(\<lparr>key = [97], data = 1\<rparr>, ENTER), (\<lparr>key = [98], data = 0\<rparr>, FIND)] (hash_map table5))"
  using hsearch_r_calls [OF table5_ok] table5_ok by blast

text \<open>
  C19: If there is a prime \<open>p\<close> with \<open>nel \<le> p\<close> and \<open>5 \<le> p \<le> 65535 * 65535\<close>, and memory for \<open>p + 1\<close> entries, then
  \<open>hcreate_r\<close> returns 1 with a well-formed empty table, whose size is the least prime that is at least \<open>nel\<close> and 5.
\<close>
theorem hcreate_r_creates:
  assumes "table h = None" "unat nel \<le> p" "5 \<le> p" "prime_size p" "p \<le> 65535 * 65535" "\<forall>n \<le> p + 1. calloc_ok n"
  shows "\<exists>h'. hcreate_r calloc_ok nel (Some h) = Some (True, None, Some h') \<and> hash_ok h' \<and>
           hash_map h' = Map.empty \<and> least_size (unat nel) (unat (ht_size h'))"
  by (rule hcreate_least [OF assms])

theorem hcreate_r_creates_witness:
  "\<exists>h'. hcreate_r (\<lambda>n. n \<le> 6) 4 (Some \<lparr>table = None, ht_size = 0, filled = 0\<rparr>) = Some (True, None, Some h') \<and> hash_ok h' \<and>
     hash_map h' = Map.empty \<and> least_size (unat (4 :: u64)) (unat (ht_size h'))"
  by (rule hcreate_r_creates [of _ _ 5]) (simp_all add: prime_size_5)

text \<open>
  C20: \<open>isprime\<close> and the field \<open>size\<close> take only the low 32 bits of \<open>nel\<close>.  For every \<open>nel\<close> from \<open>2 ^ 32\<close> on whose low
  32 bits are 0 or 1, \<open>hcreate_r\<close> reports success with a table of size 1 and two entries.  Once a key is entered, the
  search for any other key whose hash value is neither 1 nor the largest number of 32 bits reads the entry at an index
  outside the table.
\<close>
theorem hcreate_r_truncates:
  assumes "table h = None" "2 ^ 32 \<le> unat nel" "unat nel mod 2 ^ 32 \<le> 1" "calloc_ok 2"
    and "key b \<noteq> key a" "1 < hash_value (key b)" "hash_value (key b) < - 1"
  shows "\<exists>h1 h2. hcreate_r calloc_ok nel (Some h) = Some (True, None, Some h1) \<and> ht_size h1 = 1 \<and>
     hsearch_r a ENTER h1 = Some (Returns (Some 1, None, h2)) \<and> (\<exists>t. table h2 = Some t \<and>
       length t \<le> unat (1 - hash_value (key b)) \<and> hsearch_r b action h2 = Some (Outside (1 - hash_value (key b))))"
proof -
  define e where "e = \<lparr>used = hash_value (key a), entry = a\<rparr>"
  let ?h1 = "h\<lparr>table := Some [empty_entry, empty_entry], ht_size := 1, filled := 0\<rparr>"
  let ?h2 = "h\<lparr>table := Some [empty_entry, e], ht_size := 1, filled := 1\<rparr>"
  have low: "ucast (nel OR 1) = (1 :: u32)" by (rule low_bits_one [OF assms(3)])
  have "\<not> nel < 3" using assms(2) by (simp add: word_less_nat_alt)
  moreover have "next_size (nel OR 1) = Some (nel OR 1)" using isprime_1 by (subst next_size.simps) (simp add: low)
  moreover have "replicate 2 x = [x, x]" for x :: USED_ENTRY by (simp add: numeral_2_eq_2)
  ultimately have "hcreate_r calloc_ok nel (Some h) = Some (True, None, Some ?h1)"
    using assms(1,4) low by (simp add: hcreate_r_def empty_entry_def Let_def)
  moreover have "hsearch_r a ENTER ?h1 = Some (Returns (Some 1, None, ?h2))"
    by (simp add: hsearch_r_def locate_def tab_get_def empty_entry_def e_def Let_def)
  moreover have "hsearch_r b action ?h2 = Some (Outside (1 - hash_value (key b)))"
    using size_1_probe [of e "key b" empty_entry] assms(5-7) hash_value_nonzero
    by (simp add: hsearch_r_def e_def)
  moreover have "2 \<le> unat (1 - hash_value (key b))" using index_outside [OF assms(6)] by simp
  ultimately show ?thesis by (intro exI [of _ ?h1] exI [of _ ?h2]) simp
qed

theorem hcreate_r_truncates_witness:
  "\<exists>h1 h2 t. hcreate_r (\<lambda>n. n \<le> 2) (2 ^ 32) (Some \<lparr>table = None, ht_size = 0, filled = 0\<rparr>) = Some (True, None, Some h1) \<and>
     hsearch_r \<lparr>key = [97], data = 1\<rparr> ENTER h1 = Some (Returns (Some 1, None, h2)) \<and> table h2 = Some t \<and>
     length t \<le> unat (1 - hash_value [98]) \<and> hsearch_r \<lparr>key = [98], data = 0\<rparr> FIND h2 = Some (Outside (1 - hash_value [98]))"
proof -
  have "hash_value [98] = 114" by (simp add: hash_value_def)
  then show ?thesis
    using hcreate_r_truncates [of "\<lparr>table = None, ht_size = 0, filled = 0\<rparr>" "2 ^ 32" "\<lambda>n. n \<le> 2" "\<lparr>key = [98], data = 0\<rparr>"
        "\<lparr>key = [97], data = 1\<rparr>" FIND] by auto
qed

end
