(* ===== verification/Spec2Isabelle.thy ===== *)
theory Spec2Isabelle
  imports Md5 Sha_Constants Xdr_Sizeof Xdr_Records Mpn_Div Hsearch_Map
begin

text \<open>
  Verification of parts of the Embedded GNU C Library: the message digests of \<open>crypt\<close>, the external data
  representation (XDR) of \<open>sunrpc\<close> with its streams, the multiple precision arithmetic of \<open>stdlib\<close>, and the hash
  tables of \<open>misc\<close>.

  \<^bold>\<open>Configuration.\<close>  The code is read for a little-endian machine with 32-bit \<open>int\<close>, 64-bit \<open>long\<close> and pointers and
  signed \<open>char\<close>, with \<open>_LIBC\<close> defined, with \<open>_STRING_ARCH_unaligned\<close> not defined, with the plain C versions of the
  macros of \<open>longlong.h\<close>, and limbs of 64 bits.  Machine integers are words of their width; arithmetic wraps as in
  the code.  Arrays are lists, and a store by \<open>memcpy\<close> is \<open>store_at\<close> of theory Prelude: a store beyond the end is not
  lost, it makes the list longer.

  \<^bold>\<open>Message digests.\<close>  Block_Buffer has the interface \<open>hash_stream\<close> of a digest that collects its input in a buffer and hashes whole
  blocks, and proves that the split of the input into pieces does not matter.  Md5, Sha256 and
  Sha512 model \<open>crypt/md5.c\<close>, \<open>crypt/md5-block.c\<close>, \<open>crypt/sha256.c\<close>, \<open>crypt/sha256-block.c\<close>, \<open>crypt/sha512.c\<close> and
  \<open>crypt/sha512-block.c\<close>: the context is a record with the fields of the structure, and each function of the
  files is a definition of the same name.  Each theory also has the digest as its standard (RFC 1321, FIPS 180-2)
  defines it, interprets the interface on the model, and shows that the code computes the standard's digest.
  Sha_Constants shows that the tables of constants are what FIPS 180-2 says they are.

  \<^bold>\<open>XDR.\<close>  Xdr models the filters of \<open>sunrpc/xdr.c\<close>, \<open>xdr_intXX_t.c\<close>, \<open>xdr_array.c\<close> and \<open>xdr_ref.c\<close>.  A
  filter takes the operations of the stream, as the code takes them from \<open>x_ops\<close>, and an object, and returns whether it
  succeeded, the stream and the object; allocation is the parameter \<open>calloc\<close>, which may fail.  Xdr_Stream and
  Xdr_Decode have the interfaces \<open>xdr_encoder\<close> and \<open>xdr_decoder\<close> of a stream and show, once for all streams, that a filter
  writes the encoding of RFC 4506 and reads it back.  Xdr_Mem (\<open>sunrpc/xdr_mem.c\<close>), Xdr_Sizeof
  (\<open>sunrpc/xdr_sizeof.c\<close>) and Xdr_Rec (\<open>sunrpc/xdr_rec.c\<close>) model the streams; Xdr_Mem, Xdr_Sizeof,
  Xdr_Rec_In and Xdr_Rec_Out interpret the interfaces on them.  The properties are round trips through
  each stream, the refusal of objects that are too large, and the bounds of the memory stream.  For the
  record stream, Xdr_Records shows that records written at one end of a connection are read at the other,
  however the connection cuts up the bytes; the functions \<open>readit\<close> and \<open>writeit\<close> that move the bytes are
  parameters, and the property has an instance with a pipe.  The lengths that the code converts to \<open>int\<close> or \<open>u_int\<close> are
  converted in the model, so the round trips have the hypothesis that the sizes of the buffers are at most \<open>2 ^ 31 - 8\<close>, and
  one property says for which sizes the sum in \<open>xdrrec_create\<close> wraps around.  Another gives the effect of
  \<open>xdrrec_setpos\<close> on what can be read afterwards.  The loops of the record stream over its input take a
  number of rounds as argument and fail when it is used up; it is shown that the number of bytes that are left, and
  three more, is enough.

  \<^bold>\<open>Multiple precision.\<close>  Mpn has the value \<open>lval\<close> of a list of limbs and the routines that go once over their operands
  (\<open>add_n.c\<close>, \<open>sub_n.c\<close>, \<open>mul_1.c\<close>, \<open>addmul_1.c\<close>, \<open>submul_1.c\<close>, \<open>lshift.c\<close>, \<open>rshift.c\<close>, \<open>cmp.c\<close> and the inline
  functions of \<open>gmp.h\<close>) over the two-limb macros of \<open>longlong.h\<close>.  Mpn_Basecase, Mpn_Karatsuba and
  Mpn_Mul model \<open>mul.c\<close> and \<open>mul_n.c\<close>: the schoolbook method, Karatsuba's recursion for products and squares with
  its scratch space, and the entry points; the products are exact, and the limbs are the same for both methods.
  Mpn_Udiv models the division of two limbs by one and \<open>divmod_1.c\<close> and \<open>mod_1.c\<close>, and Mpn_Div models
  \<open>divrem.c\<close>; quotients and remainders are exact for every divisor that the code admits, so the estimated
  quotient limbs are off by one at most.  The pointer \<open>np\<close> that moves through the dividend is an integer offset, and a
  store before the start or beyond the end of the dividend makes the list longer, so that its length shows where
  \<open>mpn_divrem\<close> writes outside.  The operands have at least one limb, as the code requires.  All these functions are total, with termination proofs for Karatsuba's
  recursion, the recursion of \<open>mpn_mul\<close> and the loops that correct a quotient limb.

  \<^bold>\<open>Hash tables.\<close>  Hsearch models \<open>misc/hsearch_r.c\<close> and \<open>misc/hsearch.c\<close>: the search for a prime size, the hash
  function, the probing and the three entry points.  A call that does not end is \<open>None\<close>; one that ends has an
  \<open>outcome\<close>, which is a result or a fault: a null pointer for the table, a division by zero or an access outside the
  table, with its index.  A result shows termination and memory safety as well.  Hsearch shows that the probe sequence of a key goes once through all entries of a table of
  prime size.  Hsearch_Map has the invariant of a table and the partial map it stands for, and shows that every call
  refines the operation on the map, through the interface \<open>search_table\<close> also for sequences of calls.  That \<open>calloc\<close>
  succeeds is a parameter.  \<open>hcreate_r\<close> is shown to work for sizes up to a prime below \<open>65535 * 65535\<close>; beyond 32 bits
  it makes tables that are too small, and one property shows how the search then leaves the table.

  \<^bold>\<open>Not modelled.\<close>  \<open>md5_stream\<close>, which reads a \<open>FILE\<close>; the branches of \<open>divmod_1.c\<close> and \<open>mod_1.c\<close> that multiply by an
  inverse, which this configuration never takes; the versions of all routines in assembler.  Of the rest of
  the library, most parts are input and output through the kernel (\<open>libio\<close>, \<open>socket\<close>, \<open>nss\<close>, \<open>resolv\<close>, \<open>nscd\<close>), code
  for one machine (\<open>sysdeps\<close>, \<open>elf\<close>, \<open>nptl\<close>), floating point (\<open>math\<close>) or generated tables (\<open>locale\<close>, \<open>iconvdata\<close>); the
  sorting routines of \<open>stdlib\<close>, the search trees of \<open>misc\<close>, the pattern matching of \<open>posix\<close> and the calendar code of \<open>time\<close>
  could be modelled in the same way and are not.
\<close>

end
